(* ===== verification/J6_Prelude.thy ===== *)
theory J6_Prelude
  imports Main "HOL-Library.Word"
begin

text \<open>
  Shared vocabulary of the jsix development.

  Machine integers are words of the width the C++ source declares (\<open>uint64_t\<close>,
  \<open>size_t\<close> and \<open>uintptr_t\<close> are 64 bits wide on the only supported target, amd64).
  Operations that the source can leave undefined or abort on (a failed \<open>kassert\<close> or
  \<open>assert\<close>, a null dereference, an index outside an array, a shift by the full width, the
  removal of a node from a list it is not on)
  return a value of type \<open>fault + 'a\<close>, \<open>Inl\<close> being the fault. A loop that the
  source does not bound runs on fuel; \<open>Diverges\<close> is the fault of a loop that used it up.

  The rest of the theory collects facts on words, bits and lists that the component
  theories share.
\<close>

unbundle bit_operations_syntax

section \<open>Types\<close>

type_synonym u8 = "8 word"
type_synonym u16 = "16 word"
type_synonym u32 = "32 word"
type_synonym u64 = "64 word"

datatype fault =
    Assert_failed
  | Null_deref
  | Out_of_bounds
  | Undefined_shift
  | Use_after_free
  | Wrong_list
  | Raised
  | Diverges

type_synonym 'a res = "fault + 'a"

text \<open>Sequencing of fallible steps: the first fault ends the computation.\<close>

fun bindE :: "'a res \<Rightarrow> ('a \<Rightarrow> 'b res) \<Rightarrow> 'b res" where
  "bindE (Inl e) f = Inl e"
| "bindE (Inr x) f = f x"

definition guardE :: "fault \<Rightarrow> bool \<Rightarrow> unit res" where
  "guardE e b = (if b then Inr () else Inl e)"

lemma bindE_Inr_iff: "bindE m f = Inr y \<longleftrightarrow> (\<exists>x. m = Inr x \<and> f x = Inr y)"
  by (cases m) auto

lemma bindE_Inr_elim:
  assumes "bindE m f = Inr y"
  obtains x where "m = Inr x" and "f x = Inr y"
  using assms by (auto simp: bindE_Inr_iff)

lemma guardE_Inr_iff [simp]: "guardE e b = Inr u \<longleftrightarrow> b"
  by (simp add: guardE_def)

lemma guardE_True [simp]: "guardE e True = Inr ()"
  by (simp add: guardE_def)

lemma guardE_False [simp]: "guardE e False = Inl e"
  by (simp add: guardE_def)

lemma map_sum_Inr_iff: "map_sum f g x = Inr y \<longleftrightarrow> (\<exists>z. x = Inr z \<and> g z = y)"
  by (cases x) auto

text \<open>Bounds-checked array access.\<close>

definition array_get :: "'a list \<Rightarrow> nat \<Rightarrow> 'a res" where
  "array_get xs i = (if i < length xs then Inr (xs ! i) else Inl Out_of_bounds)"

definition array_set :: "'a list \<Rightarrow> nat \<Rightarrow> 'a \<Rightarrow> 'a list res" where
  "array_set xs i v = (if i < length xs then Inr (xs[i := v]) else Inl Out_of_bounds)"

lemma array_get_in [simp]: "i < length xs \<Longrightarrow> array_get xs i = Inr (xs ! i)"
  by (simp add: array_get_def)

lemma array_set_in [simp]: "i < length xs \<Longrightarrow> array_set xs i v = Inr (xs[i := v])"
  by (simp add: array_set_def)

lemma array_get_Inr_iff: "array_get xs i = Inr v \<longleftrightarrow> i < length xs \<and> v = xs ! i"
  by (auto simp: array_get_def)

lemma array_set_Inr_iff: "array_set xs i v = Inr ys \<longleftrightarrow> i < length xs \<and> ys = xs[i := v]"
  by (auto simp: array_set_def)

section \<open>Word arithmetic as natural number arithmetic\<close>

text \<open>
  \<open>word_nat\<close> collects the rules that turn a wrapping operation whose operands are known
  not to wrap into the operation on natural numbers.
\<close>

named_theorems word_nat

lemma unat_add_no_wrap [word_nat]:
  fixes a b :: "'a::len word"
  assumes "unat a + unat b < 2 ^ LENGTH('a)"
  shows "unat (a + b) = unat a + unat b"
  using assms by (simp add: unat_add_lem [symmetric] unat_word_ariths)

lemma unat_add_bounded [word_nat]:
  fixes a b c :: "'a::len word"
  assumes "unat a + unat b \<le> unat c"
  shows "unat (a + b) = unat a + unat b"
  using order_le_less_trans [OF assms unsigned_less] by (simp add: unat_add_no_wrap)

lemma unat_of_nat_bounded [word_nat]:
  fixes w :: "'a::len word"
  assumes "m \<le> unat w"
  shows "unat (of_nat m :: 'a word) = m"
  using order_le_less_trans [OF assms unsigned_less] by (simp add: unat_of_nat)

lemma unat_sub_no_wrap [word_nat]:
  fixes a b :: "'a::len word"
  assumes "unat b \<le> unat a"
  shows "unat (a - b) = unat a - unat b"
  using assms by (simp add: unat_sub word_le_nat_alt)

lemma unat_sub_sub_no_wrap [word_nat]:
  fixes a b c :: "'a::len word"
  assumes "unat b + unat c \<le> unat a"
  shows "unat (a - b - c) = unat a - unat b - unat c"
proof -
  have "unat (a - b) = unat a - unat b" using assms by (simp add: unat_sub_no_wrap)
  with assms show ?thesis by (simp add: unat_sub_no_wrap)
qed

lemma unat_mult_no_wrap [word_nat]:
  fixes a b :: "'a::len word"
  assumes "unat a * unat b < 2 ^ LENGTH('a)"
  shows "unat (a * b) = unat a * unat b"
  using assms by (simp add: unat_word_ariths)

lemma unat_lt_64 [simp]: "unat (w :: u64) < 18446744073709551616"
  using unsigned_less [of w] by simp

lemma unat_lt_32 [simp]: "unat (w :: u32) < 4294967296"
  using unsigned_less [of w] by simp

lemma word_eq_unat: "(a :: 'a::len word) = b \<longleftrightarrow> unat a = unat b"
  by (simp add: word_unat_eq_iff)

lemma unat_eq_0_iff [simp]: "unat (w :: 'a::len word) = 0 \<longleftrightarrow> w = 0"
  by (simp add: unat_eq_zero)

section \<open>Bit scans\<close>

text \<open>
  \<open>bsf\<close> is the count of trailing zeros (the \<open>tzcnt\<close> instruction), 64 for zero;
  \<open>clz\<close> the count of leading zeros.
\<close>

definition bsf :: "u64 \<Rightarrow> nat" where
  "bsf v = length (takeWhile (\<lambda>n. \<not> bit v n) [0..<64])"

definition clz :: "u64 \<Rightarrow> nat" where
  "clz v = length (takeWhile (\<lambda>n. \<not> bit v n) (rev [0..<64]))"

lemma bsf_le_64: "bsf v \<le> 64"
  using length_takeWhile_le [of "\<lambda>n. \<not> bit v n" "[0..<64]"] by (simp add: bsf_def)

lemma bsf_below: "n < bsf v \<Longrightarrow> \<not> bit v n"
proof -
  assume n: "n < bsf v"
  then have "takeWhile (\<lambda>n. \<not> bit v n) [0..<64] ! n = [0..<64] ! n"
    by (simp add: bsf_def takeWhile_nth)
  moreover have "takeWhile (\<lambda>n. \<not> bit v n) [0..<64] ! n \<in> set (takeWhile (\<lambda>n. \<not> bit v n) [0..<64])"
    using n by (simp add: bsf_def)
  ultimately show ?thesis
    using n bsf_le_64 [of v] by (auto dest!: set_takeWhileD)
qed

lemma bsf_bit: "bsf v < 64 \<Longrightarrow> bit v (bsf v)"
  using nth_length_takeWhile [of "\<lambda>n. \<not> bit v n" "[0..<64]"]
  by (simp add: bsf_def)

lemma bsf_eqI:
  assumes "bit v n" and "\<And>m. m < n \<Longrightarrow> \<not> bit v m"
  shows "bsf v = n"
proof -
  have n: "n < 64" using bit_imp_le_length [of v n] assms(1) by simp
  have "\<not> n < bsf v" using bsf_below [of n v] assms(1) by blast
  with n have "bsf v < 64" by simp
  then have "\<not> bsf v < n" using bsf_bit [of v] assms(2) by blast
  with \<open>\<not> n < bsf v\<close> show ?thesis by simp
qed

lemma bsf_less_iff: "bsf v < 64 \<longleftrightarrow> v \<noteq> 0"
proof
  assume "bsf v < 64"
  then show "v \<noteq> 0" using bsf_bit [of v] by auto
next
  assume "v \<noteq> 0"
  then obtain n where n: "bit v n" by (auto simp: bit_eq_iff)
  then have "n < 64" using bit_imp_le_length [of v n] by simp
  with n show "bsf v < 64" using bsf_below [of n v] by (meson leI order_less_le_trans)
qed

lemma bsf_zero [simp]: "bsf 0 = 64"
  using bsf_less_iff [of 0] bsf_le_64 [of 0] by simp

section \<open>Shifts and masks\<close>

text \<open>
  A shift of a 64-bit value by 64 or more has no defined value in C++; the model makes it
  a fault.
\<close>

definition shl64 :: "u64 \<Rightarrow> nat \<Rightarrow> u64 res" where
  "shl64 v n = (if n < 64 then Inr (push_bit n v) else Inl Undefined_shift)"

definition shr64 :: "u64 \<Rightarrow> nat \<Rightarrow> u64 res" where
  "shr64 v n = (if n < 64 then Inr (drop_bit n v) else Inl Undefined_shift)"

lemma shl64_in [simp]: "n < 64 \<Longrightarrow> shl64 v n = Inr (push_bit n v)"
  by (simp add: shl64_def)

lemma shr64_in [simp]: "n < 64 \<Longrightarrow> shr64 v n = Inr (drop_bit n v)"
  by (simp add: shr64_def)

lemma bit_exp_u64 [simp]: "bit (2 ^ n :: u64) m \<longleftrightarrow> m = n \<and> n < 64"
  by (auto simp: bit_exp_iff)

lemma bit_run_u64 [simp]:
  "bit (push_bit k (2 ^ n - 1 :: u64)) m \<longleftrightarrow> k \<le> m \<and> m < k + n \<and> m < 64"
  by (auto simp: bit_push_bit_iff bit_mask_iff simp flip: mask_eq_exp_minus_1)

lemma bit_not_u64 [simp]: "bit (NOT (v :: u64)) n \<longleftrightarrow> n < 64 \<and> \<not> bit v n"
  by (auto simp: bit_not_iff)

lemma bit_u64_less: "bit (v :: u64) n \<Longrightarrow> n < 64"
  using bit_imp_le_length [of v n] by simp

lemma u64_nonzero_iff: "(v :: u64) \<noteq> 0 \<longleftrightarrow> (\<exists>n<64. bit v n)"
  by (auto simp: bit_eq_iff dest: bit_u64_less)

lemma u64_eqI: "(\<And>n. n < 64 \<Longrightarrow> bit (a :: u64) n = bit b n) \<Longrightarrow> a = b"
  by (rule bit_eqI) (auto dest: bit_u64_less)

lemma bsf_run:
  fixes m :: u64
  assumes "m \<noteq> 0"
  defines "o3 \<equiv> bsf m"
  defines "n \<equiv> bsf (NOT (drop_bit o3 m))"
  shows "0 < n" "\<And>k. k < n \<Longrightarrow> bit m (o3 + k)" "o3 + n \<le> 64"
proof -
  have o3: "o3 < 64" "bit m o3" using assms(1) by (simp_all add: o3_def bsf_less_iff bsf_bit)
  show run: "\<And>k. k < n \<Longrightarrow> bit m (o3 + k)"
  proof -
    fix k assume k: "k < n"
    then have "\<not> bit (NOT (drop_bit o3 m)) k" unfolding n_def by (rule bsf_below)
    moreover have "k < 64" using k bsf_le_64 [of "NOT (drop_bit o3 m)"] by (simp add: n_def)
    ultimately show "bit m (o3 + k)" by (simp add: bit_drop_bit_eq)
  qed
  show "0 < n"
  proof (rule ccontr)
    assume "\<not> 0 < n"
    then have "bit (NOT (drop_bit o3 m)) 0"
      using bsf_bit [of "NOT (drop_bit o3 m)"] by (simp add: n_def)
    with o3 show False by (simp add: bit_drop_bit_eq)
  qed
  then have "bit m (o3 + (n - 1))" using run [of "n - 1"] by simp
  then show "o3 + n \<le> 64" using bit_u64_less [of m "o3 + (n-1)"] \<open>0 < n\<close> by simp
qed

lemma unat_and_63: "unat ((x :: u64) AND 63) = unat x mod 64"
proof -
  have "x AND 63 = take_bit 6 x" by (simp add: take_bit_eq_mask mask_eq_exp_minus_1)
  then show ?thesis by (simp add: unsigned_take_bit_eq take_bit_nat_def)
qed

lemma unat_drop_bit_u64: "unat (drop_bit n (x :: u64)) = unat x div 2 ^ n"
  by (simp add: unsigned_drop_bit_eq drop_bit_nat_def take_bit_nat_def)

lemma unat_ucast_u32_u64: "unat (ucast (w :: u32) :: u64) = unat w"
proof -
  have "unat w < 2 ^ 64" using order_less_trans [OF unat_lt_32 [of w], of "2 ^ 64"] by simp
  then show ?thesis by (simp add: unsigned_ucast_eq take_bit_nat_eq_self)
qed

section \<open>Leading zeros\<close>

lemma clz_bit:
  assumes "v \<noteq> 0"
  shows "clz v < 64" "bit v (63 - clz v)" "\<And>m. 63 - clz v < m \<Longrightarrow> \<not> bit v m"
proof -
  let ?P = "\<lambda>n. \<not> bit v n"
  let ?xs = "rev [0..<64]"
  have le: "clz v \<le> 64" using length_takeWhile_le [of ?P ?xs] by (simp add: clz_def)
  have nth: "?xs ! k = 63 - k" if "k < 64" for k using that by (simp add: rev_nth)
  have below: "\<not> bit v (63 - k)" if "k < clz v" for k
  proof -
    have "k < 64" using that le by simp
    moreover have "takeWhile ?P ?xs ! k \<in> set (takeWhile ?P ?xs)"
      using that by (simp add: clz_def)
    moreover have "takeWhile ?P ?xs ! k = ?xs ! k" using that by (simp add: clz_def takeWhile_nth)
    ultimately show ?thesis using nth [of k] by (auto dest: set_takeWhileD)
  qed
  show lt: "clz v < 64"
  proof (rule ccontr)
    assume "\<not> clz v < 64"
    with le have c: "clz v = 64" by simp
    have "\<not> bit v n" if "n < 64" for n using below [of "63 - n"] that c by simp
    with assms show False by (auto simp: u64_nonzero_iff)
  qed
  show "bit v (63 - clz v)"
    using nth_length_takeWhile [of ?P ?xs] lt nth [OF lt] by (simp add: clz_def)
  show "\<not> bit v m" if "63 - clz v < m" for m
    using below [of "63 - m"] that lt bit_u64_less [of v m] by fastforce
qed

lemma bit_imp_exp_le: "bit (v :: 'a::len word) t \<Longrightarrow> 2 ^ t \<le> unat v"
proof (rule ccontr)
  assume b: "bit v t" and "\<not> 2 ^ t \<le> unat v"
  then have "take_bit t (unat v) = unat v" by (simp add: take_bit_nat_eq_self_iff)
  moreover have "bit (unat v) t" using b by (simp add: bit_unsigned_iff)
  ultimately have "bit (take_bit t (unat v)) t" by simp
  then show False by (simp add: bit_take_bit_iff)
qed

lemma no_bit_above: "(\<And>m. t \<le> m \<Longrightarrow> \<not> bit (v :: 'a::len word) m) \<Longrightarrow> unat v < 2 ^ t"
proof -
  assume "\<And>m. t \<le> m \<Longrightarrow> \<not> bit v m"
  then have "n < t" if "bit v n" for n using that by (meson not_le)
  then have "take_bit t v = v" by (intro bit_eqI) (auto simp: bit_take_bit_iff)
  then have "take_bit t (unat v) = unat v" by (metis unsigned_take_bit_eq)
  then show ?thesis by (simp add: take_bit_nat_eq_self_iff)
qed

lemma clz_bounds:
  assumes "v \<noteq> 0"
  shows "2 ^ (63 - clz v) \<le> unat v" "unat v < 2 ^ (64 - clz v)"
proof -
  show "2 ^ (63 - clz v) \<le> unat v" using clz_bit(2) [OF assms] by (rule bit_imp_exp_le)
  show "unat v < 2 ^ (64 - clz v)" 
    using clz_bit(1,3) [OF assms] by (intro no_bit_above) auto
qed

lemma unat_exp_u64:
  assumes "n < 64"
  shows "unat (2 ^ n :: u64) = 2 ^ n"
proof -
  have "(2::nat) ^ n < 2 ^ 64" using assms by (intro power_strict_increasing) auto
  then have "unat (of_nat (2 ^ n) :: u64) = 2 ^ n" by (subst unat_of_nat) simp
  then show ?thesis by simp
qed

section \<open>Injective word operations\<close>

lemma xorshift_inj:
  fixes a b :: "'a::len word"
  assumes "0 < k" "a XOR drop_bit k a = b XOR drop_bit k b"
  shows "a = b"
proof (rule bit_eqI)
  fix n
  have e: "bit (a XOR drop_bit k a) m \<longleftrightarrow> bit (b XOR drop_bit k b) m" for m using assms(2) by simp
  show "bit a n = bit b n"
  proof (induction "LENGTH('a) - n" arbitrary: n rule: less_induct)
    case less
    show ?case
    proof (cases "n < LENGTH('a)")
      case True
      have "bit a (n + k) = bit b (n + k)" using True assms(1) by (intro less) simp
      with e [of n] show ?thesis by (auto simp: bit_xor_iff bit_drop_bit_eq add.commute)
    next
      case False
      then show ?thesis by (meson bit_imp_le_length)
    qed
  qed
qed

lemma xor_cancel_right:
  fixes a b c :: "'a::len word"
  assumes "a XOR b = c XOR b"
  shows "a = c"
proof (rule bit_eqI)
  fix n
  have "bit (a XOR b) n = bit (c XOR b) n" using assms by simp
  then show "bit a n = bit c n" by (auto simp: bit_xor_iff)
qed

lemma mult_inverse_inj:
  fixes a b c d :: "'a::len word"
  assumes "a * c = b * c" "c * d = 1"
  shows "a = b"
proof -
  have "a * (c * d) = b * (c * d)" using assms(1) by (simp flip: mult.assoc)
  then show ?thesis using assms(2) by simp
qed

lemma unat_add_mod_pow2:
  assumes "n \<le> 64"
  shows "unat (a + b :: u64) mod 2 ^ n = (unat a + unat b) mod 2 ^ n"
proof -
  have "(2::nat) ^ n dvd 2 ^ 64" using assms by (rule le_imp_power_dvd)
  then show ?thesis by (simp add: unat_word_ariths mod_mod_cancel del: power_numeral)
qed


end
