(* ===== verification/Frame_Allocator.thy ===== *)
theory Frame_Allocator
  imports J6_Prelude
begin

text \<open>
  The physical frame allocator: \<open>frame_allocator\<close> of \<open>src/src/kernel/frame_allocator.cpp\<close>
  over the blocks of \<open>src/src/libraries/bootproto/include/bootproto/kernel.h\<close>.

  A block covers up to 64*64*64 frames with a three level bitmap: bit \<open>i\<close> of \<open>map1\<close>
  says that \<open>map2[i]\<close> is not zero, bit \<open>j\<close> of \<open>map2[i]\<close> that word \<open>64*i+j\<close> of
  the bitmap is not zero, and a set bit of the bitmap is a free frame. \<open>fb_free\<close> is the
  set of free frame numbers a block stands for and \<open>fb_ok\<close> the invariant.
\<close>

section \<open>State\<close>

record frame_block =
  fb_base :: u64
  fb_count :: u32
  fb_flags :: u32
  fb_map1 :: u64
  fb_map2 :: "u64 list"
  fb_bitmap :: "u64 list"

abbreviation frame_size :: u64 where
  "frame_size \<equiv> 4096"

section \<open>Operations\<close>

text \<open>The body of the loop of \<open>frame_allocator::allocate\<close> for a block whose \<open>map1\<close> is not zero.\<close>

definition fa_take :: "frame_block \<Rightarrow> u64 \<Rightarrow> (nat \<times> u64 \<times> frame_block) res" where
  "fa_take b count =
     (let o1 = bsf (fb_map1 b) in
      bindE (array_get (fb_map2 b) o1) (\<lambda>m2.
      let o2 = bsf m2; idx = o1 * 64 + o2 in
      bindE (array_get (fb_bitmap b) idx) (\<lambda>m3.
      let o3 = bsf m3; frame = o1 * 4096 + o2 * 64 + o3 in
      bindE (shr64 m3 o3) (\<lambda>s.
      let n0 = bsf (NOT s);
          n = (if n0 > unat count then unat count else n0);
          address = fb_base b + of_nat frame * frame_size in
      bindE (shl64 1 n) (\<lambda>p.
      bindE (shl64 (p - 1) o3) (\<lambda>mask3.
      let m3' = m3 AND NOT mask3 in
      bindE (array_set (fb_bitmap b) idx m3') (\<lambda>bm.
      let b1 = b\<lparr>fb_bitmap := bm\<rparr> in
      if m3' \<noteq> 0 then Inr (n, address, b1)
      else
        bindE (shl64 1 o2) (\<lambda>bit2.
        let m2' = m2 AND NOT bit2 in
        bindE (array_set (fb_map2 b1) o1 m2') (\<lambda>mp2.
        let b2 = b1\<lparr>fb_map2 := mp2\<rparr> in
        if m2' \<noteq> 0 then Inr (n, address, b2)
        else
          bindE (shl64 1 o1) (\<lambda>bit1.
          Inr (n, address, b2\<lparr>fb_map1 := fb_map1 b2 AND NOT bit1\<rparr>)))))))))))"

fun fa_scan :: "frame_block list \<Rightarrow> nat \<Rightarrow> u64 \<Rightarrow> (nat \<times> u64 \<times> frame_block list) res" where
  "fa_scan bs 0 count = Inl Assert_failed"
| "fa_scan bs (Suc i) count =
     (if fb_map1 (bs ! i) = 0 then fa_scan bs i count
      else bindE (fa_take (bs ! i) count) (\<lambda>(n, address, b). Inr (n, address, bs[i := b])))"

definition fa_allocate :: "frame_block list \<Rightarrow> u64 \<Rightarrow> (nat \<times> u64 \<times> frame_block list) res" where
  "fa_allocate bs count = fa_scan bs (length bs) count"

text \<open>The position of a frame in the three levels, and its increment at the end of a loop body.\<close>

definition fa_advance :: "nat \<times> nat \<times> nat \<Rightarrow> (nat \<times> nat \<times> nat) res" where
  "fa_advance pos =
     (case pos of (o1, o2, o3) \<Rightarrow>
        if o3 + 1 = 64 then
          if o2 + 1 = 64 then
            if o1 + 1 < 64 then Inr (o1 + 1, 0, 0) else Inl Assert_failed
          else Inr (o1, o2 + 1, 0)
        else Inr (o1, o2, o3 + 1))"

text \<open>
  The loops \<open>while (count--)\<close> of \<open>free\<close> and \<open>used\<close>. The source indexes the bitmap
  with \<open>o2\<close> alone in both.
\<close>

fun fa_free_loop :: "nat \<Rightarrow> nat \<times> nat \<times> nat \<Rightarrow> frame_block \<Rightarrow> frame_block res" where
  "fa_free_loop 0 pos b = Inr b"
| "fa_free_loop (Suc count) (o1, o2, o3) b =
     (let b1 = b\<lparr>fb_map1 := fb_map1 b OR push_bit o1 1\<rparr> in
      bindE (array_get (fb_map2 b1) o1) (\<lambda>m2.
      bindE (array_set (fb_map2 b1) o1 (m2 OR push_bit o2 1)) (\<lambda>mp2.
      bindE (array_get (fb_bitmap b1) o2) (\<lambda>m3.
      bindE (array_set (fb_bitmap b1) o2 (m3 OR push_bit o3 1)) (\<lambda>bm.
      bindE (fa_advance (o1, o2, o3)) (\<lambda>pos.
      fa_free_loop count pos (b1\<lparr>fb_map2 := mp2, fb_bitmap := bm\<rparr>)))))))"

fun fa_used_loop :: "nat \<Rightarrow> nat \<times> nat \<times> nat \<Rightarrow> frame_block \<Rightarrow> frame_block res" where
  "fa_used_loop 0 pos b = Inr b"
| "fa_used_loop (Suc count) (o1, o2, o3) b =
     (bindE (array_get (fb_bitmap b) o2) (\<lambda>m3.
      let m3' = m3 AND NOT (push_bit o3 1) in
      bindE (array_set (fb_bitmap b) o2 m3') (\<lambda>bm.
      let b1 = b\<lparr>fb_bitmap := bm\<rparr> in
      bindE (if m3' = 0 then
               bindE (array_get (fb_map2 b1) o1) (\<lambda>m2.
               let m2' = m2 AND NOT (push_bit o2 1) in
               bindE (array_set (fb_map2 b1) o1 m2') (\<lambda>mp2.
               let b2 = b1\<lparr>fb_map2 := mp2\<rparr> in
               Inr (if m2' = 0 then b2\<lparr>fb_map1 := fb_map1 b2 AND NOT (push_bit o1 1)\<rparr> else b2)))
             else Inr b1) (\<lambda>b3.
      bindE (fa_advance (o1, o2, o3)) (\<lambda>pos.
      fa_used_loop count pos b3)))))"

definition fb_end :: "frame_block \<Rightarrow> u64" where
  "fb_end b = fb_base b + ucast (fb_count b) * frame_size"

definition fa_position :: "frame_block \<Rightarrow> u64 \<Rightarrow> nat \<times> nat \<times> nat" where
  "fa_position b address =
     (let frame = drop_bit 12 (address - fb_base b) in
      (unat (drop_bit 12 frame AND 0x3f), unat (drop_bit 6 frame AND 0x3f), unat (frame AND 0x3f)))"

text \<open>
  The loop over the blocks. \<open>while (count--)\<close> leaves \<open>count\<close> at its largest value, and
  the loop over the blocks goes on with it.
\<close>

fun fa_free_blocks :: "frame_block list \<Rightarrow> u64 \<Rightarrow> u64 \<Rightarrow> frame_block list res" where
  "fa_free_blocks [] address count = Inr []"
| "fa_free_blocks (b # bs) address count =
     (if address < fb_base b \<or> address \<ge> fb_end b
      then bindE (fa_free_blocks bs address count) (\<lambda>bs'. Inr (b # bs'))
      else bindE (fa_free_loop (unat count) (fa_position b address) b) (\<lambda>b'.
           bindE (fa_free_blocks bs address (- 1)) (\<lambda>bs'. Inr (b' # bs'))))"

fun fa_used_blocks :: "frame_block list \<Rightarrow> u64 \<Rightarrow> u64 \<Rightarrow> frame_block list res" where
  "fa_used_blocks [] address count = Inr []"
| "fa_used_blocks (b # bs) address count =
     (if address < fb_base b \<or> address \<ge> fb_end b
      then bindE (fa_used_blocks bs address count) (\<lambda>bs'. Inr (b # bs'))
      else bindE (fa_used_loop (unat count) (fa_position b address) b) (\<lambda>b'.
           bindE (fa_used_blocks bs address (- 1)) (\<lambda>bs'. Inr (b' # bs'))))"

definition fa_free :: "frame_block list \<Rightarrow> u64 \<Rightarrow> u64 \<Rightarrow> frame_block list res" where
  "fa_free bs address count =
     (if address mod frame_size \<noteq> 0 then Inl Assert_failed
      else if count = 0 then Inr bs
      else fa_free_blocks bs address count)"

definition fa_used :: "frame_block list \<Rightarrow> u64 \<Rightarrow> u64 \<Rightarrow> frame_block list res" where
  "fa_used bs address count =
     (if address mod frame_size \<noteq> 0 then Inl Assert_failed
      else if count = 0 then Inr bs
      else fa_used_blocks bs address count)"

section \<open>Abstraction and invariant\<close>

definition fb_free :: "frame_block \<Rightarrow> nat set" where
  "fb_free b = {f. f div 64 < length (fb_bitmap b) \<and> bit (fb_bitmap b ! (f div 64)) (f mod 64)}"

definition fb_word_set :: "frame_block \<Rightarrow> nat \<Rightarrow> bool" where
  "fb_word_set b k \<longleftrightarrow> k < length (fb_bitmap b) \<and> fb_bitmap b ! k \<noteq> 0"

definition fb_ok :: "frame_block \<Rightarrow> bool" where
  "fb_ok b \<longleftrightarrow>
     length (fb_map2 b) = 64 \<and>
     length (fb_bitmap b) \<le> 4096 \<and>
     (\<forall>i<64. bit (fb_map1 b) i \<longleftrightarrow> fb_map2 b ! i \<noteq> 0) \<and>
     (\<forall>i<64. \<forall>j<64. bit (fb_map2 b ! i) j \<longleftrightarrow> fb_word_set b (i * 64 + j))"

definition fb_same :: "frame_block \<Rightarrow> frame_block \<Rightarrow> bool" where
  "fb_same b b' \<longleftrightarrow> fb_base b' = fb_base b \<and> fb_count b' = fb_count b \<and> fb_flags b' = fb_flags b \<and>
     length (fb_bitmap b') = length (fb_bitmap b)"

definition fa_ok :: "frame_block list \<Rightarrow> bool" where
  "fa_ok bs \<longleftrightarrow> (\<forall>b\<in>set bs. fb_ok b)"

definition fa_allocated ::
  "frame_block list \<Rightarrow> u64 \<Rightarrow> nat \<Rightarrow> u64 \<Rightarrow> frame_block list \<Rightarrow> nat \<Rightarrow> nat \<Rightarrow> bool" where
  "fa_allocated bs count n address bs' i f \<longleftrightarrow>
     i < length bs \<and> 0 < n \<and> n \<le> unat count \<and>
     address = fb_base (bs ! i) + of_nat f * frame_size \<and>
     {f ..< f + n} \<subseteq> fb_free (bs ! i) \<and>
     (\<exists>b. bs' = bs[i := b] \<and> fb_same (bs ! i) b \<and> fb_free b = fb_free (bs ! i) - {f ..< f + n})"

definition fb_put :: "frame_block \<Rightarrow> nat \<times> nat \<times> nat \<Rightarrow> frame_block" where
  "fb_put b pos = (case pos of (o1, o2, o3) \<Rightarrow>
     b\<lparr>fb_map1 := fb_map1 b OR 2 ^ o1, fb_map2 := (fb_map2 b)[o1 := fb_map2 b ! o1 OR 2 ^ o2],
       fb_bitmap := (fb_bitmap b)[o2 := fb_bitmap b ! o2 OR 2 ^ o3]\<rparr>)"

definition fa_pos :: "nat \<Rightarrow> nat \<times> nat \<times> nat" where
  "fa_pos p = (p div 4096, p div 64 mod 64, p mod 64)"

definition fb_contains :: "frame_block \<Rightarrow> u64 \<Rightarrow> bool" where
  "fb_contains b address \<longleftrightarrow> fb_base b \<le> address \<and> address < fb_end b"

definition fb_take :: "frame_block \<Rightarrow> nat \<times> nat \<times> nat \<Rightarrow> frame_block" where
  "fb_take b pos = (case pos of (o1, o2, o3) \<Rightarrow>
     let m3 = fb_bitmap b ! o2 AND NOT (2 ^ o3);
         m2 = fb_map2 b ! o1 AND NOT (2 ^ o2);
         b1 = b\<lparr>fb_bitmap := (fb_bitmap b)[o2 := m3]\<rparr>;
         b2 = b1\<lparr>fb_map2 := (fb_map2 b)[o1 := m2]\<rparr> in
     if m3 \<noteq> 0 then b1 else if m2 = 0 then b2\<lparr>fb_map1 := fb_map1 b AND NOT (2 ^ o1)\<rparr> else b2)"

text \<open>
  \<open>fb_wf\<close>: the block lies inside the address space, has a bitmap word for each of its
  frames and no bit for a frame it does not have. \<open>fa_wf\<close>: in addition the three levels
  agree and no two blocks overlap.
\<close>

definition fb_wf :: "frame_block \<Rightarrow> bool" where
  "fb_wf b \<longleftrightarrow>
     fb_ok b \<and> unat (fb_count b) \<le> 262144 \<and>
     unat (fb_base b) + unat (fb_count b) * 4096 < 2 ^ 64 \<and> fb_base b mod frame_size = 0 \<and>
     unat (fb_count b) \<le> 64 * length (fb_bitmap b) \<and> fb_free b \<subseteq> {..<unat (fb_count b)}"

definition fa_wf :: "frame_block list \<Rightarrow> bool" where
  "fa_wf bs \<longleftrightarrow> (\<forall>b\<in>set bs. fb_wf b) \<and>
     (\<forall>i<length bs. \<forall>j<length bs. i \<noteq> j \<longrightarrow>
        fb_end (bs ! i) \<le> fb_base (bs ! j) \<or> fb_end (bs ! j) \<le> fb_base (bs ! i))"

text \<open>A block of 128 free frames at 1 MiB, for the evaluated examples.\<close>

definition fb_example :: frame_block where
  "fb_example = \<lparr>fb_base = 0x100000, fb_count = 128, fb_flags = 0, fb_map1 = 1,
     fb_map2 = 3 # replicate 63 0, fb_bitmap = [- 1, - 1]\<rparr>"

section \<open>Allocation\<close>

lemma fb_ok_find:
  assumes "fb_ok b" "fb_map1 b \<noteq> 0"
  defines "o1 \<equiv> bsf (fb_map1 b)"
  defines "o2 \<equiv> bsf (fb_map2 b ! o1)"
  shows "o1 < 64" "o2 < 64" "fb_word_set b (o1 * 64 + o2)"
proof -
  show o1: "o1 < 64" using assms(2) by (simp add: o1_def bsf_less_iff)
  then have "bit (fb_map1 b) o1" by (simp add: o1_def bsf_bit)
  with assms(1) o1 have nz: "fb_map2 b ! o1 \<noteq> 0" by (auto simp: fb_ok_def)
  then show o2: "o2 < 64" by (simp add: o2_def bsf_less_iff)
  then have "bit (fb_map2 b ! o1) o2" by (simp add: o2_def bsf_bit)
  with assms(1) o1 o2 show "fb_word_set b (o1 * 64 + o2)" by (auto simp: fb_ok_def)
qed

lemma fb_free_update:
  assumes "idx < length (fb_bitmap b)"
  shows "fb_free (b\<lparr>fb_bitmap := (fb_bitmap b)[idx := w]\<rparr>) =
     {f \<in> fb_free b. f div 64 \<noteq> idx} \<union> {f. f div 64 = idx \<and> bit w (f mod 64)}"
  using assms by (auto simp: fb_free_def nth_list_update)

lemma fb_free_maps [simp]:
  "fb_free (b\<lparr>fb_map1 := x\<rparr>) = fb_free b" "fb_free (b\<lparr>fb_map2 := y\<rparr>) = fb_free b"
  by (simp_all add: fb_free_def)

lemma fb_free_clear_run:
  assumes "idx < length (fb_bitmap b)" "o3 + n \<le> 64"
  shows "fb_free (b\<lparr>fb_bitmap := (fb_bitmap b)[idx := fb_bitmap b ! idx AND NOT (push_bit o3 (2 ^ n - 1))]\<rparr>) =
     fb_free b - {idx * 64 + o3 ..< idx * 64 + o3 + n}" (is "_ = _ - ?R")
proof -
  have R: "f \<in> ?R \<longleftrightarrow> f div 64 = idx \<and> o3 \<le> f mod 64 \<and> f mod 64 < o3 + n" for f
  proof -
    obtain q r where f: "f = q * 64 + r" "r < 64" "f div 64 = q" "f mod 64 = r"
      using that [of "f div 64" "f mod 64"] by simp
    show ?thesis unfolding f(3,4) using assms(2) f(1,2)
      by (cases q idx rule: linorder_cases) auto
  qed
  show ?thesis
  proof (rule set_eqI)
    fix f
    show "f \<in> fb_free (b\<lparr>fb_bitmap := (fb_bitmap b)[idx := fb_bitmap b ! idx AND NOT (push_bit o3 (2 ^ n - 1))]\<rparr>)
        \<longleftrightarrow> f \<in> fb_free b - ?R"
      unfolding fb_free_update [OF assms(1)] Diff_iff R
      using assms(1) by (cases "f div 64 = idx") (simp_all add: fb_free_def bit_and_iff)
  qed
qed

lemma fb_ok_word_nonzero:
  assumes "fb_ok b" "fb_word_set b idx" "w \<noteq> 0"
  shows "fb_ok (b\<lparr>fb_bitmap := (fb_bitmap b)[idx := w]\<rparr>)"
proof -
  have "fb_word_set (b\<lparr>fb_bitmap := (fb_bitmap b)[idx := w]\<rparr>) k = fb_word_set b k" for k
    using assms(2,3) by (auto simp: fb_word_set_def nth_list_update)
  with assms(1) show ?thesis by (simp add: fb_ok_def)
qed

lemma fb_word_set_map1 [simp]: "fb_word_set (b\<lparr>fb_map1 := x\<rparr>) k = fb_word_set b k"
  by (simp add: fb_word_set_def)

lemma fb_ok_word_zero:
  assumes b: "fb_ok b" and o12: "o1 < 64" "o2 < 64" and idx: "o1 * 64 + o2 < length (fb_bitmap b)"
  defines "m2 \<equiv> fb_map2 b ! o1 AND NOT (2 ^ o2)"
  defines "b' \<equiv> b\<lparr>fb_bitmap := (fb_bitmap b)[o1 * 64 + o2 := 0], fb_map2 := (fb_map2 b)[o1 := m2]\<rparr>"
  shows "fb_ok (if m2 = 0 then b'\<lparr>fb_map1 := fb_map1 b AND NOT (2 ^ o1)\<rparr> else b')"
proof -
  have len: "length (fb_map2 b) = 64" using b by (simp add: fb_ok_def)
  have len': "length (fb_map2 b') = 64" "length (fb_bitmap b') \<le> 4096"
    using b by (simp_all add: b'_def len fb_ok_def)
  have ws: "fb_word_set b' k \<longleftrightarrow> fb_word_set b k \<and> k \<noteq> o1 * 64 + o2" for k
    using idx by (auto simp: fb_word_set_def b'_def nth_list_update)
  have ij: "i * 64 + j = o1 * 64 + o2 \<longleftrightarrow> i = o1 \<and> j = o2" if "j < 64" for i j
    using that o12 by (cases i o1 rule: linorder_cases) auto
  have m2z: "i < 64 \<Longrightarrow> fb_map2 b' ! i = (if i = o1 then m2 else fb_map2 b ! i)" for i
    by (simp add: b'_def len nth_list_update)
  have m2b: "bit (fb_map2 b ! i) j \<longleftrightarrow> fb_word_set b (i * 64 + j)" if "i < 64" "j < 64" for i j
    using b that by (simp add: fb_ok_def)
  have m2: "bit (fb_map2 b' ! i) j \<longleftrightarrow> fb_word_set b' (i * 64 + j)" if "i < 64" "j < 64" for i j
    using that o12 m2b [of i j] by (simp add: ws ij m2z m2_def bit_and_iff) blast
  have m1: "bit (fb_map1 b) i \<longleftrightarrow> fb_map2 b ! i \<noteq> 0" if "i < 64" for i
    using b that by (simp add: fb_ok_def)
  have o1set: "m2 \<noteq> 0 \<Longrightarrow> fb_map2 b ! o1 \<noteq> 0"
    by (auto simp: m2_def)
  show ?thesis
  proof (cases "m2 = 0")
    case True
    have "bit (fb_map1 b AND NOT (2 ^ o1)) i \<longleftrightarrow> fb_map2 b' ! i \<noteq> 0" if "i < 64" for i
      using that True m1 [of i] o12 by (simp add: m2z bit_and_iff)
    with True m2 len' show ?thesis by (simp add: fb_ok_def)
  next
    case False
    have "bit (fb_map1 b') i \<longleftrightarrow> fb_map2 b' ! i \<noteq> 0" if "i < 64" for i
      using that False m1 [of i] o1set by (simp add: m2z) (auto simp add: b'_def)
    with False m2 len' show ?thesis by (simp add: fb_ok_def)
  qed
qed

lemma fa_take_correct:
  assumes b: "fb_ok b" and m1: "fb_map1 b \<noteq> 0" and c: "0 < count" "unat count < 64"
  shows "\<exists>f n b'. fa_take b count = Inr (n, fb_base b + of_nat f * frame_size, b') \<and>
     0 < n \<and> n \<le> unat count \<and> {f ..< f + n} \<subseteq> fb_free b \<and>
     fb_free b' = fb_free b - {f ..< f + n} \<and> fb_ok b' \<and> fb_same b b'"
proof -
  define o1 where "o1 = bsf (fb_map1 b)"
  define m2 where "m2 = fb_map2 b ! o1"
  define o2 where "o2 = bsf m2"
  define idx where "idx = o1 * 64 + o2"
  define m3 where "m3 = fb_bitmap b ! idx"
  define o3 where "o3 = bsf m3"
  define n0 where "n0 = bsf (NOT (drop_bit o3 m3))"
  define n where "n = (if n0 > unat count then unat count else n0)"
  define m3' where "m3' = m3 AND NOT (push_bit o3 (2 ^ n - 1))"
  define m2' where "m2' = m2 AND NOT (2 ^ o2)"
  define f where "f = idx * 64 + o3"
  define b1 where "b1 = b\<lparr>fb_bitmap := (fb_bitmap b)[idx := m3']\<rparr>"
  define b2 where "b2 = b1\<lparr>fb_map2 := (fb_map2 b)[o1 := m2']\<rparr>"
  define b' where "b' = (if m3' \<noteq> 0 then b1 else if m2' = 0 then b2\<lparr>fb_map1 := fb_map1 b AND NOT (2 ^ o1)\<rparr> else b2)"
  note defs = o1_def m2_def o2_def idx_def
  have o12: "o1 < 64" "o2 < 64" and ws: "fb_word_set b idx"
    using fb_ok_find [OF b m1] by (simp_all add: defs)
  then have idx: "idx < length (fb_bitmap b)" and m3: "m3 \<noteq> 0" and len: "length (fb_map2 b) = 64"
    using b by (simp_all add: fb_word_set_def m3_def fb_ok_def)
  then have o3: "o3 < 64" by (simp add: o3_def bsf_less_iff)
  have n0: "0 < n0" "\<And>k. k < n0 \<Longrightarrow> bit m3 (o3 + k)" "o3 + n0 \<le> 64"
    using bsf_run [OF m3] by (simp_all add: n0_def o3_def)
  have n: "0 < n" "n \<le> unat count" "o3 + n \<le> 64" "n \<le> n0"
    using n0(1,3) c(1) by (simp_all add: n_def word_less_nat_alt)
  have run: "\<And>k. k < n \<Longrightarrow> bit m3 (o3 + k)"
    using n0(2) n(4) by simp
  have n64: "n < 64" using n(2) c(2) by simp
  have "fa_take b count = Inr (n, fb_base b + of_nat f * frame_size, b')"
  proof -
    have e1: "bsf (fb_map1 b) = o1" "array_get (fb_map2 b) o1 = Inr m2" "bsf m2 = o2"
      "o1 * 64 + o2 = idx" "array_get (fb_bitmap b) idx = Inr m3" "bsf m3 = o3"
      using o12 len idx by (simp_all add: o1_def m2_def o2_def idx_def m3_def o3_def)
    have e2: "shr64 m3 o3 = Inr (drop_bit o3 m3)" "bsf (NOT (drop_bit o3 m3)) = n0"
      "(if n0 > unat count then unat count else n0) = n" "shl64 1 n = Inr (2 ^ n)"
      "shl64 (2 ^ n - 1) o3 = Inr (push_bit o3 (2 ^ n - 1))" "m3 AND NOT (push_bit o3 (2 ^ n - 1)) = m3'"
      "array_set (fb_bitmap b) idx m3' = Inr ((fb_bitmap b)[idx := m3'])"
      "b\<lparr>fb_bitmap := (fb_bitmap b)[idx := m3']\<rparr> = b1"
      using o3 n64 idx by (simp_all add: n0_def n_def m3'_def b1_def)
    have e3: "shl64 1 o2 = Inr (2 ^ o2)" "m2 AND NOT (2 ^ o2) = m2'"
      "array_set (fb_map2 b1) o1 m2' = Inr ((fb_map2 b)[o1 := m2'])"
      "b1\<lparr>fb_map2 := (fb_map2 b)[o1 := m2']\<rparr> = b2" "shl64 1 o1 = Inr (2 ^ o1)" "fb_map1 b2 = fb_map1 b"
      using o12 len by (simp_all add: m2'_def b1_def b2_def)
    have "o1 * 4096 + o2 * 64 + o3 = f" by (simp add: f_def idx_def)
    then show ?thesis
      unfolding fa_take_def Let_def e1 bindE.simps e2 e3 by (simp add: b'_def)
  qed
  moreover have free': "fb_free b' = fb_free b1"
    by (simp add: b'_def b2_def)
  moreover have "fb_free b1 = fb_free b - {f ..< f + n}"
    using fb_free_clear_run [OF idx n(3)] by (simp add: b1_def m3'_def m3_def f_def)
  moreover have "{f ..< f + n} \<subseteq> fb_free b"
  proof
    fix g assume "g \<in> {f ..< f + n}"
    then obtain k where "g = idx * 64 + (o3 + k)" "k < n"
      by (auto simp: f_def le_iff_add algebra_simps)
    then show "g \<in> fb_free b"
      using run [of k] n(3) idx by (simp add: fb_free_def m3_def)
  qed
  moreover have "fb_ok b'"
  proof (cases "m3' = 0")
    case True
    have "fb_ok (if m2' = 0 then b2\<lparr>fb_map1 := fb_map1 b AND NOT (2 ^ o1)\<rparr> else b2)"
      using fb_ok_word_zero [OF b o12 idx [unfolded idx_def]]
      unfolding b2_def b1_def m2'_def m2_def idx_def True .
    with True show ?thesis by (simp add: b'_def)
  next
    case False
    with fb_ok_word_nonzero [OF b ws False] show ?thesis by (simp add: b'_def b1_def)
  qed
  moreover have "fb_same b b'"
    by (simp add: fb_same_def b'_def b1_def b2_def)
  ultimately show ?thesis using n by auto
qed

lemma fb_ok_map1_free:
  assumes "fb_ok b"
  shows "fb_map1 b = 0 \<longleftrightarrow> fb_free b = {}"
proof
  assume z: "fb_map1 b = 0"
  have "\<not> fb_word_set b k" for k
  proof
    assume ws: "fb_word_set b k"
    then have k: "k < 4096" using assms by (simp add: fb_word_set_def fb_ok_def)
    then have "k div 64 < 64" "k mod 64 < 64" "k div 64 * 64 + k mod 64 = k" by simp_all
    with assms ws have "bit (fb_map2 b ! (k div 64)) (k mod 64)" by (metis fb_ok_def)
    then have "fb_map2 b ! (k div 64) \<noteq> 0" by auto
    with assms z \<open>k div 64 < 64\<close> show False by (auto simp: fb_ok_def)
  qed
  then show "fb_free b = {}" by (auto simp: fb_free_def fb_word_set_def)
next
  assume "fb_free b = {}"
  show "fb_map1 b = 0"
  proof (rule ccontr)
    assume "fb_map1 b \<noteq> 0"
    from fb_ok_find [OF assms this] obtain k where k: "fb_word_set b k" by blast
    define o3 where "o3 = bsf (fb_bitmap b ! k)"
    have "o3 < 64" "bit (fb_bitmap b ! k) o3"
      using k by (simp_all add: o3_def fb_word_set_def bsf_less_iff bsf_bit)
    with k have "k * 64 + o3 \<in> fb_free b" by (simp add: fb_free_def fb_word_set_def)
    with \<open>fb_free b = {}\<close> show False by simp
  qed
qed

lemma fa_scan_correct:
  assumes "fa_ok bs" "0 < count" "unat count < 64" "k \<le> length bs"
    "\<exists>i<k. fb_free (bs ! i) \<noteq> {}"
  shows "\<exists>n address bs' i f. fa_scan bs k count = Inr (n, address, bs') \<and>
     fa_allocated bs count n address bs' i f \<and> fa_ok bs'"
  using assms(4,5)
proof (induction k)
  case 0
  then show ?case by simp
next
  case (Suc k)
  have ok: "fb_ok (bs ! k)" using assms(1) Suc.prems(1) by (simp add: fa_ok_def)
  show ?case
  proof (cases "fb_map1 (bs ! k) = 0")
    case True
    with ok have "fb_free (bs ! k) = {}" by (simp add: fb_ok_map1_free)
    with Suc.prems(2) have "\<exists>i<k. fb_free (bs ! i) \<noteq> {}" by (auto simp: less_Suc_eq)
    with Suc.IH Suc.prems(1) True show ?thesis by simp
  next
    case False
    from fa_take_correct [OF ok False assms(2,3)] obtain f n b' where
      take: "fa_take (bs ! k) count = Inr (n, fb_base (bs ! k) + of_nat f * frame_size, b')"
      and r: "0 < n" "n \<le> unat count" "{f ..< f + n} \<subseteq> fb_free (bs ! k)"
        "fb_free b' = fb_free (bs ! k) - {f ..< f + n}" "fb_ok b'" "fb_same (bs ! k) b'"
      by blast
    have "fa_ok (bs[k := b'])"
      using assms(1) r(5) by (auto simp: fa_ok_def dest!: set_update_subset_insert [THEN subsetD])
    moreover have "fa_allocated bs count n (fb_base (bs ! k) + of_nat f * frame_size) (bs[k := b']) k f"
      using r Suc.prems(1) by (auto simp: fa_allocated_def)
    ultimately show ?thesis using False take by auto
  qed
qed

lemma fa_scan_exhausted:
  assumes "fa_ok bs" "k \<le> length bs" "\<forall>i<k. fb_free (bs ! i) = {}"
  shows "fa_scan bs k count = Inl Assert_failed"
  using assms(2,3)
proof (induction k)
  case (Suc k)
  then have "fb_map1 (bs ! k) = 0" using assms(1) by (simp add: fb_ok_map1_free fa_ok_def)
  with Suc show ?case by simp
qed simp

section \<open>Release and marking\<close>

lemma fa_advance_pos:
  "fa_advance (fa_pos p) = (if p + 1 < 262144 then Inr (fa_pos (p + 1)) else Inl Assert_failed)"
  if "p < 262144"
proof -
  define a b c where "a = p div 4096" and "b = p div 64 mod 64" and "c = p mod 64"
  have "p div 64 = a * 64 + b"
    using div_mult_mod_eq [of "p div 64" 64] by (simp add: a_def b_def flip: div_mult2_eq)
  moreover have "p = p div 64 * 64 + c" by (simp add: c_def)
  ultimately have "p = a * 4096 + b * 64 + c" by linarith
  then have p: "p = a * 4096 + b * 64 + c" "b < 64" "c < 64" "a < 64"
    using that by (simp_all add: a_def b_def c_def)
  have pos: "fa_pos (a * 4096 + b * 64 + c) = (a, b, c)" if "b < 64" "c < 64" for a b c
  proof -
    have "(a * 4096 + b * 64 + c) div 64 = a * 64 + b" using that by simp
    moreover have "(a * 4096 + b * 64 + c) div 4096 = a" using that by simp
    moreover have "(a * 4096 + b * 64 + c) mod 64 = c"
    proof -
      have "a * 4096 + b * 64 + c = c + 64 * (a * 64 + b)" by simp
      then show ?thesis using that by (simp only: mod_mult_self2) simp
    qed
    ultimately show ?thesis using that by (simp add: fa_pos_def)
  qed
  have pp: "fa_pos p = (a, b, c)" using pos p by simp
  consider "c + 1 < 64" | "c + 1 = 64" "b + 1 < 64" | "c + 1 = 64" "b + 1 = 64" using p by linarith
  then show ?thesis
  proof cases
    case 1
    have "p + 1 = a * 4096 + b * 64 + (c + 1)" using p by simp
    then have "fa_pos (p + 1) = (a, b, c + 1)" using pos 1 p by metis
    moreover have "p + 1 < 262144" using 1 p by simp
    ultimately show ?thesis using 1 by (simp add: fa_advance_def pp)
  next
    case 2
    then have "p + 1 = a * 4096 + (b + 1) * 64 + 0" using p by simp
    then have "fa_pos (p + 1) = (a, b + 1, 0)" using pos 2 by (metis zero_less_numeral)
    moreover have "p + 1 < 262144" using 2 p by simp
    ultimately show ?thesis using 2 by (simp add: fa_advance_def pp)
  next
    case 3
    then have e: "p + 1 = (a + 1) * 4096 + 0 * 64 + 0" using p by simp
    then have "fa_pos (p + 1) = (a + 1, 0, 0)" using pos by (metis zero_less_numeral)
    moreover have "p + 1 < 262144 \<longleftrightarrow> a + 1 < 64" using e by simp
    ultimately show ?thesis using 3 by (simp add: fa_advance_def pp)
  qed
qed

lemma fa_free_loop_step:
  assumes "length (fb_map2 b) = 64" "p < 262144" "p div 64 mod 64 < length (fb_bitmap b)"
  shows "fa_free_loop (Suc n) (fa_pos p) b =
    (if p + 1 < 262144 then fa_free_loop n (fa_pos (p + 1)) (fb_put b (fa_pos p)) else Inl Assert_failed)"
proof -
  have "p div 4096 < 64" using assms(2) by simp
  then show ?thesis
    using assms fa_advance_pos [OF assms(2)]
    by (simp add: fa_pos_def fb_put_def Let_def)
qed

lemma fb_put_simps [simp]:
  "length (fb_map2 (fb_put b pos)) = length (fb_map2 b)"
  "length (fb_bitmap (fb_put b pos)) = length (fb_bitmap b)"
  "fb_base (fb_put b pos) = fb_base b" "fb_count (fb_put b pos) = fb_count b"
  by (simp_all add: fb_put_def split: prod.split)

lemma fb_free_put:
  assumes "p div 64 mod 64 < length (fb_bitmap b)"
  shows "fb_free (fb_put b (fa_pos p)) = insert (p mod 4096) (fb_free b)"
proof -
  have pm: "p mod 4096 div 64 = p div 64 mod 64" "p mod 4096 mod 64 = p mod 64"
    using div_exp_mod_exp_eq [of p 6 6] by (simp_all add: mod_mod_cancel)
  show ?thesis
  proof (rule set_eqI)
    fix f
    have "f = p mod 4096 \<longleftrightarrow> f div 64 = p div 64 mod 64 \<and> f mod 64 = p mod 64"
      unfolding pm [symmetric] by (metis div_mult_mod_eq)
    then show "f \<in> fb_free (fb_put b (fa_pos p)) \<longleftrightarrow> f \<in> insert (p mod 4096) (fb_free b)"
      using assms by (auto simp: fb_free_def fb_put_def fa_pos_def nth_list_update bit_or_iff)
  qed
qed

lemma fa_free_loop_free:
  assumes "length (fb_map2 b) = 64" "p + n < 262144" "p + n \<le> 64 * length (fb_bitmap b)"
  shows "\<exists>b'. fa_free_loop n (fa_pos p) b = Inr b' \<and>
     fb_free b' = fb_free b \<union> (\<lambda>i. (p + i) mod 4096) ` {..<n} \<and>
     length (fb_bitmap b') = length (fb_bitmap b) \<and> length (fb_map2 b') = 64"
  using assms
proof (induction n arbitrary: p b)
  case 0
  then show ?case by (simp add: fa_pos_def)
next
  case (Suc n)
  have w: "p div 64 mod 64 < length (fb_bitmap b)"
    using Suc.prems(3) mod_less_eq_dividend [of "p div 64" 64] by linarith
  from Suc.IH [of "fb_put b (fa_pos p)" "p + 1"] Suc.prems obtain b' where
    b': "fa_free_loop n (fa_pos (p + 1)) (fb_put b (fa_pos p)) = Inr b'"
      "fb_free b' = fb_free (fb_put b (fa_pos p)) \<union> (\<lambda>i. (p + 1 + i) mod 4096) ` {..<n}"
      "length (fb_bitmap b') = length (fb_bitmap b)" "length (fb_map2 b') = 64"
    by auto
  have "(\<lambda>i. (p + i) mod 4096) ` {..<Suc n} =
      insert (p mod 4096) ((\<lambda>i. (p + 1 + i) mod 4096) ` {..<n})"
    unfolding lessThan_Suc_eq_insert_0 by (simp add: image_image)
  with b' w Suc.prems show ?case
    by (simp add: fa_free_loop_step fb_free_put)
qed

lemma fb_ok_put_low:
  assumes "fb_ok b" "p < 4096" "p div 64 < length (fb_bitmap b)"
  shows "fb_ok (fb_put b (fa_pos p))"
proof -
  define o2 o3 where "o2 = p div 64" and "o3 = p mod 64"
  have o: "o2 < 64" "o3 < 64" "o2 < length (fb_bitmap b)"
    using assms(2,3) by (simp_all add: o2_def o3_def)
  define b' where "b' = fb_put b (fa_pos p)"
  have b': "b' = b\<lparr>fb_map1 := fb_map1 b OR 1, fb_map2 := (fb_map2 b)[0 := fb_map2 b ! 0 OR 2 ^ o2],
      fb_bitmap := (fb_bitmap b)[o2 := fb_bitmap b ! o2 OR 2 ^ o3]\<rparr>"
    using assms(2) by (simp add: b'_def fb_put_def fa_pos_def o2_def o3_def)
  have len: "length (fb_map2 b) = 64" using assms(1) by (simp add: fb_ok_def)
  have nz: "x OR 2 ^ n \<noteq> (0 :: u64)" if "n < 64" for x n
    using that u64_nonzero_iff [of "x OR 2 ^ n"] by (auto simp: bit_or_iff)
  have ws: "fb_word_set b' k \<longleftrightarrow> fb_word_set b k \<or> k = o2" for k
    using o nz [of o3] by (auto simp: b' fb_word_set_def nth_list_update)
  have m2: "bit (fb_map2 b' ! i) j \<longleftrightarrow> bit (fb_map2 b ! i) j \<or> i = 0 \<and> j = o2" if "i < 64" "j < 64" for i j
    using that o len by (auto simp: b' nth_list_update bit_or_iff)
  have m2z: "fb_map2 b' ! i \<noteq> 0 \<longleftrightarrow> fb_map2 b ! i \<noteq> 0 \<or> i = 0" if "i < 64" for i
    using that o len nz [of o2] by (simp add: b' nth_list_update)
  have m1: "bit (fb_map1 b') i \<longleftrightarrow> bit (fb_map1 b) i \<or> i = 0" for i
    by (auto simp: b' bit_or_iff bit_1_iff)
  have idx: "i * 64 + j = o2 \<longleftrightarrow> i = 0 \<and> j = o2" if "j < 64" for i j
    using that o by (cases i) auto
  have old1: "bit (fb_map1 b) i \<longleftrightarrow> fb_map2 b ! i \<noteq> 0" if "i < 64" for i
    using assms(1) that by (simp add: fb_ok_def)
  have old2: "bit (fb_map2 b ! i) j \<longleftrightarrow> fb_word_set b (i * 64 + j)" if "i < 64" "j < 64" for i j
    using assms(1) that by (simp add: fb_ok_def)
  have "length (fb_bitmap b) \<le> 4096" using assms(1) by (simp add: fb_ok_def)
  then show ?thesis
    unfolding fb_ok_def b'_def [symmetric] using len
    by (simp add: m1 m2 m2z ws idx old1 old2) (simp add: b')
qed

lemma fa_free_loop_ok_low:
  assumes "fb_ok b" "p + n \<le> 4096" "p + n \<le> 64 * length (fb_bitmap b)"
    "fa_free_loop n (fa_pos p) b = Inr b'"
  shows "fb_ok b'"
  using assms
proof (induction n arbitrary: p b)
  case 0
  then show ?case by (simp add: fa_pos_def)
next
  case (Suc n)
  have "fb_ok (fb_put b (fa_pos p))"
    using Suc.prems by (intro fb_ok_put_low) auto
  moreover have "length (fb_map2 b) = 64" using Suc.prems(1) by (simp add: fb_ok_def)
  moreover have "p div 64 mod 64 < length (fb_bitmap b)"
    using Suc.prems(3) mod_less_eq_dividend [of "p div 64" 64] by linarith
  ultimately show ?case
    using Suc.IH [of "fb_put b (fa_pos p)" "p + 1"] Suc.prems
    by (simp add: fa_free_loop_step)
qed

lemma fa_position_frame:
  assumes "address = fb_base b + of_nat p * frame_size" "p < 262144"
  shows "fa_position b address = fa_pos p"
proof -
  define frame where "frame = drop_bit 12 (address - fb_base b)"
  have "unat (of_nat p * frame_size :: u64) = p * 4096"
    using assms(2) by (simp add: unat_word_ariths unat_of_nat take_bit_nat_def)
  then have f: "unat frame = p"
    using assms(1) by (simp add: frame_def unat_drop_bit_u64)
  have "p div 4096 mod 64 = p div 4096" using assms(2) by simp
  then show ?thesis
    by (simp add: fa_position_def fa_pos_def Let_def unat_and_63 unat_drop_bit_u64 f
        flip: frame_def)
qed

lemma fa_free_blocks_skip:
  "\<forall>b\<in>set bs. \<not> fb_contains b address \<Longrightarrow> fa_free_blocks bs address count = Inr bs"
  by (induction bs) (auto simp: fb_contains_def)

lemma fa_free_blocks_one:
  assumes "\<forall>c\<in>set xs \<union> set ys. \<not> fb_contains c address" "fb_contains b address"
  shows "fa_free_blocks (xs @ b # ys) address count =
     bindE (fa_free_loop (unat count) (fa_position b address) b) (\<lambda>b'. Inr (xs @ b' # ys))"
  using assms
proof (induction xs)
  case Nil
  then show ?case by (auto simp: fa_free_blocks_skip fb_contains_def)
next
  case (Cons x xs)
  then have "fa_free_blocks (xs @ b # ys) address count =
     bindE (fa_free_loop (unat count) (fa_position b address) b) (\<lambda>b'. Inr (xs @ b' # ys))"
    by simp
  with Cons.prems show ?case
    by (cases "fa_free_loop (unat count) (fa_position b address) b") (auto simp: fb_contains_def)
qed

lemma fa_used_blocks_skip:
  "\<forall>b\<in>set bs. \<not> fb_contains b address \<Longrightarrow> fa_used_blocks bs address count = Inr bs"
  by (induction bs) (auto simp: fb_contains_def)

lemma fa_used_blocks_one:
  assumes "\<forall>c\<in>set xs \<union> set ys. \<not> fb_contains c address" "fb_contains b address"
  shows "fa_used_blocks (xs @ b # ys) address count =
     bindE (fa_used_loop (unat count) (fa_position b address) b) (\<lambda>b'. Inr (xs @ b' # ys))"
  using assms
proof (induction xs)
  case Nil
  then show ?case by (auto simp: fa_used_blocks_skip fb_contains_def)
next
  case (Cons x xs)
  then have "fa_used_blocks (xs @ b # ys) address count =
     bindE (fa_used_loop (unat count) (fa_position b address) b) (\<lambda>b'. Inr (xs @ b' # ys))"
    by simp
  with Cons.prems show ?case
    by (cases "fa_used_loop (unat count) (fa_position b address) b") (auto simp: fb_contains_def)
qed

lemma fb_take_simps [simp]:
  "length (fb_map2 (fb_take b pos)) = length (fb_map2 b)"
  "length (fb_bitmap (fb_take b pos)) = length (fb_bitmap b)"
  by (simp_all add: fb_take_def Let_def split: prod.split)

lemma fa_used_loop_step:
  assumes "length (fb_map2 b) = 64" "p < 262144" "p div 64 mod 64 < length (fb_bitmap b)"
  shows "fa_used_loop (Suc n) (fa_pos p) b =
    (if p + 1 < 262144 then fa_used_loop n (fa_pos (p + 1)) (fb_take b (fa_pos p)) else Inl Assert_failed)"
proof -
  have "p div 4096 < 64" using assms(2) by simp
  then show ?thesis
    using assms fa_advance_pos [OF assms(2)]
    by (simp add: fa_pos_def fb_take_def Let_def)
qed

lemma fb_free_take:
  assumes "p div 64 mod 64 < length (fb_bitmap b)"
  shows "fb_free (fb_take b (fa_pos p)) = fb_free b - {p mod 4096}"
proof -
  have pm: "p mod 4096 div 64 = p div 64 mod 64" "p mod 4096 mod 64 = p mod 64"
    using div_exp_mod_exp_eq [of p 6 6] by (simp_all add: mod_mod_cancel)
  have "fb_free (fb_take b (fa_pos p)) = fb_free (b\<lparr>fb_bitmap := (fb_bitmap b)
      [p div 64 mod 64 := fb_bitmap b ! (p div 64 mod 64) AND NOT (2 ^ (p mod 64))]\<rparr>)"
    by (simp add: fb_take_def Let_def fa_pos_def)
  also have "\<dots> = fb_free b - {p div 64 mod 64 * 64 + p mod 64 ..< p div 64 mod 64 * 64 + p mod 64 + 1}"
    using fb_free_clear_run [OF assms, of "p mod 64" 1] by (simp add: push_bit_eq_mult)
  also have "{p div 64 mod 64 * 64 + p mod 64 ..< p div 64 mod 64 * 64 + p mod 64 + 1} = {p mod 4096}"
    unfolding pm [symmetric] by simp
  finally show ?thesis .
qed

lemma fa_used_loop_free:
  assumes "length (fb_map2 b) = 64" "p + n < 262144" "p + n \<le> 64 * length (fb_bitmap b)"
  shows "\<exists>b'. fa_used_loop n (fa_pos p) b = Inr b' \<and>
     fb_free b' = fb_free b - (\<lambda>i. (p + i) mod 4096) ` {..<n} \<and>
     length (fb_bitmap b') = length (fb_bitmap b) \<and> length (fb_map2 b') = 64"
  using assms
proof (induction n arbitrary: p b)
  case 0
  then show ?case by (simp add: fa_pos_def)
next
  case (Suc n)
  have w: "p div 64 mod 64 < length (fb_bitmap b)"
    using Suc.prems(3) mod_less_eq_dividend [of "p div 64" 64] by linarith
  from Suc.IH [of "fb_take b (fa_pos p)" "p + 1"] Suc.prems obtain b' where
    b': "fa_used_loop n (fa_pos (p + 1)) (fb_take b (fa_pos p)) = Inr b'"
      "fb_free b' = fb_free (fb_take b (fa_pos p)) - (\<lambda>i. (p + 1 + i) mod 4096) ` {..<n}"
      "length (fb_bitmap b') = length (fb_bitmap b)" "length (fb_map2 b') = 64"
    by auto
  have "(\<lambda>i. (p + i) mod 4096) ` {..<Suc n} =
      insert (p mod 4096) ((\<lambda>i. (p + 1 + i) mod 4096) ` {..<n})"
    unfolding lessThan_Suc_eq_insert_0 by (simp add: image_image)
  with b' w Suc.prems show ?case
    by (auto simp add: fa_used_loop_step fb_free_take)
qed

lemma fb_ok_take_low:
  assumes "fb_ok b" "p < 4096" "p div 64 < length (fb_bitmap b)"
  shows "fb_ok (fb_take b (fa_pos p))"
proof -
  define o2 o3 where "o2 = p div 64" and "o3 = p mod 64"
  define m3 where "m3 = fb_bitmap b ! o2 AND NOT (2 ^ o3)"
  have o2: "o2 < 64" "o2 < length (fb_bitmap b)" and pos: "fa_pos p = (0, o2, o3)"
    using assms(2,3) by (simp_all add: o2_def o3_def fa_pos_def)
  show ?thesis
  proof (cases "m3 = 0")
    case True
    with fb_ok_word_zero [OF assms(1) _ o2(1), of 0] o2(2) show ?thesis
      by (simp add: fb_take_def pos Let_def split: if_splits flip: m3_def)
  next
    case False
    then have "fb_word_set b o2" using o2(2) by (auto simp: fb_word_set_def m3_def)
    from fb_ok_word_nonzero [OF assms(1) this False] False show ?thesis
      by (simp add: fb_take_def pos Let_def flip: m3_def)
  qed
qed

lemma fa_used_loop_ok_low:
  assumes "fb_ok b" "p + n \<le> 4096" "p + n \<le> 64 * length (fb_bitmap b)"
    "fa_used_loop n (fa_pos p) b = Inr b'"
  shows "fb_ok b'"
  using assms
proof (induction n arbitrary: p b)
  case 0
  then show ?case by (simp add: fa_pos_def)
next
  case (Suc n)
  have "fb_ok (fb_take b (fa_pos p))"
    using Suc.prems by (intro fb_ok_take_low) auto
  moreover have "length (fb_map2 b) = 64" using Suc.prems(1) by (simp add: fb_ok_def)
  moreover have "p div 64 mod 64 < length (fb_bitmap b)"
    using Suc.prems(3) mod_less_eq_dividend [of "p div 64" 64] by linarith
  ultimately show ?case
    using Suc.IH [of "fb_take b (fa_pos p)" "p + 1"] Suc.prems
    by (simp add: fa_used_loop_step)
qed

lemma fb_frame_contained:
  assumes "fb_wf b" "p < unat (fb_count b)"
  shows "fb_contains b (fb_base b + of_nat p * frame_size)"
    "(fb_base b + of_nat p * frame_size) mod frame_size = 0"
proof -
  have p: "p < 262144" using assms by (simp add: fb_wf_def)
  have u: "unat (of_nat p * frame_size :: u64) = p * 4096"
    using p by (simp add: unat_word_ariths unat_of_nat take_bit_nat_def)
  have ua: "unat (fb_base b + of_nat p * frame_size) = unat (fb_base b) + p * 4096"
    using assms u by (simp add: unat_add_no_wrap fb_wf_def)
  have uc: "unat (ucast (fb_count b) :: u64) = unat (fb_count b)"
    by (rule unat_ucast_u32_u64)
  have "unat (ucast (fb_count b) * frame_size :: u64) = unat (fb_count b) * 4096"
    using assms(1) by (subst unat_mult_no_wrap) (simp_all add: uc fb_wf_def)
  then have "unat (fb_end b) = unat (fb_base b) + unat (fb_count b) * 4096"
    using assms(1) by (simp add: fb_end_def unat_add_no_wrap fb_wf_def)
  then show "fb_contains b (fb_base b + of_nat p * frame_size)"
    using assms(2) by (simp add: fb_contains_def word_le_nat_alt word_less_nat_alt ua)
  have "unat (fb_base b) mod 4096 = 0"
    using assms(1) by (simp add: fb_wf_def word_eq_unat unat_mod)
  then show "(fb_base b + of_nat p * frame_size) mod frame_size = 0"
    by (simp add: word_eq_unat unat_mod ua)
qed

lemma fa_wf_others:
  assumes "fa_wf (xs @ b # ys)" "fb_contains b address"
  shows "\<forall>c\<in>set xs \<union> set ys. \<not> fb_contains c address"
proof
  fix c assume "c \<in> set xs \<union> set ys"
  then obtain j where j: "j < length (xs @ b # ys)" "(xs @ b # ys) ! j = c" "j \<noteq> length xs"
  proof
    assume "c \<in> set xs"
    then obtain j where "j < length xs" "xs ! j = c" by (auto simp: in_set_conv_nth)
    then show ?thesis using that [of j] by (simp add: nth_append)
  next
    assume "c \<in> set ys"
    then obtain j where "j < length ys" "ys ! j = c" by (auto simp: in_set_conv_nth)
    then show ?thesis using that [of "length xs + 1 + j"] by (simp add: nth_append)
  qed
  have "\<forall>i<length (xs @ b # ys). \<forall>j<length (xs @ b # ys). i \<noteq> j \<longrightarrow>
      fb_end ((xs @ b # ys) ! i) \<le> fb_base ((xs @ b # ys) ! j) \<or>
      fb_end ((xs @ b # ys) ! j) \<le> fb_base ((xs @ b # ys) ! i)"
    using assms(1) unfolding fa_wf_def by (rule conjunct2)
  from this [rule_format, of "length xs" j] j
  have "fb_end b \<le> fb_base c \<or> fb_end c \<le> fb_base b" by simp
  with assms(2) show "\<not> fb_contains c address"
    by (auto simp: fb_contains_def)
qed

lemma fa_free_spec:
  assumes wf: "fa_wf (xs @ b # ys)" and addr: "address = fb_base b + of_nat p * frame_size"
    and n: "0 < count" "p + unat count \<le> unat (fb_count b)" "p + unat count < 262144"
  shows "\<exists>b'. fa_free (xs @ b # ys) address count = Inr (xs @ b' # ys) \<and>
     fb_free b' = fb_free b \<union> (\<lambda>i. (p + i) mod 4096) ` {..<unat count} \<and>
     (p + unat count \<le> 4096 \<longrightarrow> fb_ok b')"
proof -
  have b: "fb_wf b" "fb_ok b" using wf by (simp_all add: fa_wf_def fb_wf_def)
  have p: "p < unat (fb_count b)" using n(1,2) by (simp add: word_less_nat_alt)
  note c = fb_frame_contained [OF b(1) p, folded addr]
  have pos: "fa_position b address = fa_pos p"
    using fa_position_frame [OF addr] n(3) by simp
  have lens: "length (fb_map2 b) = 64" "p + unat count \<le> 64 * length (fb_bitmap b)"
    using b n(2) by (simp_all add: fb_wf_def fb_ok_def)
  obtain b' where b': "fa_free_loop (unat count) (fa_pos p) b = Inr b'"
      "fb_free b' = fb_free b \<union> (\<lambda>i. (p + i) mod 4096) ` {..<unat count}"
    using fa_free_loop_free [OF lens(1) n(3) lens(2)] by blast
  have "fa_free (xs @ b # ys) address count = Inr (xs @ b' # ys)"
    using c n(1) b'(1) fa_free_blocks_one [OF fa_wf_others [OF wf c(1)] c(1)]
    by (simp add: fa_free_def pos)
  moreover have "p + unat count \<le> 4096 \<longrightarrow> fb_ok b'"
    using fa_free_loop_ok_low [OF b(2) _ lens(2) b'(1)] by blast
  ultimately show ?thesis using b'(2) by blast
qed

section \<open>Whole operations\<close>

lemma fb_wf_shrink:
  assumes "fb_wf b" "fb_same b b'" "fb_ok b'" "fb_free b' \<subseteq> fb_free b"
  shows "fb_wf b'"
  using assms by (auto simp: fb_wf_def fb_same_def)

lemma fa_wf_update:
  assumes wf: "fa_wf bs" and i: "i < length bs" and b: "fb_wf b" and same: "fb_same (bs ! i) b"
  shows "fa_wf (bs[i := b])"
proof -
  have ends: "fb_base (bs[i := b] ! k) = fb_base (bs ! k)" "fb_end (bs[i := b] ! k) = fb_end (bs ! k)" for k
    using same i by (cases "k = i"; simp add: fb_same_def fb_end_def)+
  have "\<forall>c\<in>set (bs[i := b]). fb_wf c"
    using wf b by (auto simp: fa_wf_def dest!: set_update_subset_insert [THEN subsetD])
  with wf show ?thesis unfolding fa_wf_def ends length_list_update by blast
qed

lemma fa_allocate_spec:
  assumes wf: "fa_wf bs" and count: "0 < count" "unat count < 64"
    and free: "\<exists>b\<in>set bs. fb_free b \<noteq> {}"
  shows "\<exists>n address bs' i f. fa_allocate bs count = Inr (n, address, bs') \<and>
     fa_allocated bs count n address bs' i f \<and> fa_wf bs'"
proof -
  have ok: "fa_ok bs" using wf by (simp add: fa_wf_def fa_ok_def fb_wf_def)
  from free have "\<exists>i<length bs. fb_free (bs ! i) \<noteq> {}" by (metis in_set_conv_nth)
  from fa_scan_correct [OF ok count le_refl this] obtain n address bs' i f where
    alloc: "fa_allocate bs count = Inr (n, address, bs')"
    and a: "fa_allocated bs count n address bs' i f" and ok': "fa_ok bs'"
    by (auto simp: fa_allocate_def)
  from a obtain b where b: "i < length bs" "bs' = bs[i := b]" "fb_same (bs ! i) b"
      "fb_free b \<subseteq> fb_free (bs ! i)"
    by (auto simp: fa_allocated_def)
  have "fb_ok b" using ok' b(1,2) by (auto simp: fa_ok_def set_update_memI)
  moreover have "fb_wf (bs ! i)" using wf b(1) by (simp add: fa_wf_def)
  ultimately have "fb_wf b" using b(3,4) by (blast intro: fb_wf_shrink)
  then have "fa_wf bs'" using fa_wf_update [OF wf b(1) _ b(3)] b(2) by simp
  with alloc a show ?thesis by blast
qed

lemma fa_allocate_exhausted:
  assumes "fa_wf bs" "\<forall>b\<in>set bs. fb_free b = {}"
  shows "fa_allocate bs count = Inl Assert_failed"
  using fa_scan_exhausted [of bs "length bs"] assms
  by (simp add: fa_allocate_def fa_wf_def fa_ok_def fb_wf_def)

lemma fa_allocate_then_free:
  assumes wf: "fa_wf bs" and small: "\<forall>b\<in>set bs. unat (fb_count b) \<le> 4096"
    and count: "0 < count" "unat count < 64" and alloc: "fa_allocate bs count = Inr (n, address, bs')"
  shows "\<exists>bs''. fa_free bs' address (of_nat n) = Inr bs'' \<and> map fb_free bs'' = map fb_free bs \<and> fa_ok bs''"
proof -
  have "\<exists>b\<in>set bs. fb_free b \<noteq> {}"
    using fa_allocate_exhausted [OF wf] alloc by force
  from fa_allocate_spec [OF wf count this] alloc obtain i f where
    a: "fa_allocated bs count n address bs' i f" and wf': "fa_wf bs'" by auto
  then obtain b where i: "i < length bs" and n: "0 < n" "n \<le> unat count"
    and addr: "address = fb_base (bs ! i) + of_nat f * frame_size"
    and run: "{f ..< f + n} \<subseteq> fb_free (bs ! i)" and bs': "bs' = bs[i := b]"
    and same: "fb_same (bs ! i) b" and free: "fb_free b = fb_free (bs ! i) - {f ..< f + n}"
    by (auto simp: fa_allocated_def)
  have un: "unat (of_nat n :: u64) = n" using n count(2) by (simp add: unat_of_nat take_bit_nat_eq_self)
  have "fb_wf (bs ! i)" using wf i by (simp add: fa_wf_def)
  then have "{f ..< f + n} \<subseteq> {..<unat (fb_count (bs ! i))}" using run by (auto simp: fb_wf_def)
  then have fn: "f + n \<le> unat (fb_count b)" using n(1) same by (auto simp: fb_same_def subset_iff Suc_le_eq dest: spec [of _ "f + n - 1"])
  moreover have "unat (fb_count b) \<le> 4096" using small i same by (simp add: fb_same_def)
  ultimately have fn': "f + n \<le> 4096" by simp
  have split: "bs' = take i bs @ b # drop (Suc i) bs" using i bs' by (simp add: upd_conv_take_nth_drop)
  have "address = fb_base b + of_nat f * frame_size" using addr same by (simp add: fb_same_def)
  from fa_free_spec [OF wf' [unfolded split] this, of "of_nat n"] n fn fn' obtain b'' where
    fr: "fa_free bs' address (of_nat n) = Inr (take i bs @ b'' # drop (Suc i) bs)"
    and f'': "fb_free b'' = fb_free b \<union> (\<lambda>i. (f + i) mod 4096) ` {..<n}" and ok'': "fb_ok b''"
    by (auto simp: un split word_less_nat_alt)
  have "(\<lambda>i. (f + i) mod 4096) ` {..<n} = (\<lambda>i. f + i) ` {..<n}"
    using fn' by (intro image_cong) auto
  also have "\<dots> = {f ..< f + n}" by (auto simp: image_iff le_iff_add)
  finally have "fb_free b'' = fb_free (bs ! i)" using f'' free run by auto
  then have "map fb_free (take i bs @ b'' # drop (Suc i) bs) = map fb_free bs"
    using i by (metis append_Cons append_Nil append_assoc append_take_drop_id id_take_nth_drop list.map(2) map_append)
  moreover have "fa_ok (take i bs @ b'' # drop (Suc i) bs)"
    using wf ok'' by (auto simp: fa_ok_def fa_wf_def fb_wf_def dest: in_set_takeD in_set_dropD)
  ultimately show ?thesis using fr by blast
qed

lemma fa_used_spec:
  assumes wf: "fa_wf (xs @ b # ys)" and addr: "address = fb_base b + of_nat p * frame_size"
    and n: "0 < count" "p + unat count \<le> unat (fb_count b)" "p + unat count < 262144"
  shows "\<exists>b'. fa_used (xs @ b # ys) address count = Inr (xs @ b' # ys) \<and>
     fb_free b' = fb_free b - (\<lambda>i. (p + i) mod 4096) ` {..<unat count} \<and>
     (p + unat count \<le> 4096 \<longrightarrow> fb_ok b')"
proof -
  have b: "fb_wf b" "fb_ok b" using wf by (simp_all add: fa_wf_def fb_wf_def)
  have p: "p < unat (fb_count b)" using n(1,2) by (simp add: word_less_nat_alt)
  note c = fb_frame_contained [OF b(1) p, folded addr]
  have pos: "fa_position b address = fa_pos p"
    using fa_position_frame [OF addr] n(3) by simp
  have lens: "length (fb_map2 b) = 64" "p + unat count \<le> 64 * length (fb_bitmap b)"
    using b n(2) by (simp_all add: fb_wf_def fb_ok_def)
  obtain b' where b': "fa_used_loop (unat count) (fa_pos p) b = Inr b'"
      "fb_free b' = fb_free b - (\<lambda>i. (p + i) mod 4096) ` {..<unat count}"
    using fa_used_loop_free [OF lens(1) n(3) lens(2)] by blast
  have "fa_used (xs @ b # ys) address count = Inr (xs @ b' # ys)"
    using c n(1) b'(1) fa_used_blocks_one [OF fa_wf_others [OF wf c(1)] c(1)]
    by (simp add: fa_used_def pos)
  moreover have "p + unat count \<le> 4096 \<longrightarrow> fb_ok b'"
    using fa_used_loop_ok_low [OF b(2) _ lens(2) b'(1)] by blast
  ultimately show ?thesis using b'(2) by blast
qed

lemma fa_take_full_word_undefined:
  assumes "fb_ok b" "fb_map1 b \<noteq> 0" "64 \<le> unat count"
    and "fb_bitmap b ! (bsf (fb_map1 b) * 64 + bsf (fb_map2 b ! bsf (fb_map1 b))) = - 1"
  shows "fa_take b count = Inl Undefined_shift"
proof -
  note f = fb_ok_find [OF assms(1,2)]
  have "bsf (- 1) = 0" by (rule bsf_eqI) simp_all
  moreover have "bsf (0 :: u64) = 64" by simp
  ultimately show ?thesis
    using f assms(1,3,4)
    by (simp add: fa_take_def Let_def fb_word_set_def fb_ok_def shl64_def)
qed


lemma fb_example_wf: "fa_wf [fb_example]"
proof -
  have m2: "fb_map2 fb_example ! i = (if i = 0 then 3 else 0)" if "i < 64" for i
    using that by (cases i) (simp_all add: fb_example_def)
  have bm: "k < 2 \<Longrightarrow> fb_bitmap fb_example ! k = - 1" for k
    by (cases k) (simp_all add: fb_example_def)
  have ws: "fb_word_set fb_example k \<longleftrightarrow> k < 2" for k
    using bm [of k] by (auto simp: fb_word_set_def fb_example_def)
  have b3: "bit (3 :: u64) j \<longleftrightarrow> j < 2" for j
    by (cases j; cases "j - 1") (simp_all add: bit_0 bit_Suc)
  have "fb_ok fb_example"
    unfolding fb_ok_def
  proof (intro conjI allI impI)
    fix i :: nat assume i: "i < 64"
    show "bit (fb_map1 fb_example) i \<longleftrightarrow> fb_map2 fb_example ! i \<noteq> 0"
      using m2 [OF i] by (auto simp: fb_example_def bit_1_iff)
    fix j :: nat assume "j < 64"
    show "bit (fb_map2 fb_example ! i) j \<longleftrightarrow> fb_word_set fb_example (i * 64 + j)"
      using m2 [OF i] b3 [of j] ws [of "i * 64 + j"] by (cases "i = 0") simp_all
  qed (simp_all add: fb_example_def)
  moreover have "fb_free fb_example \<subseteq> {..<128}"
    by (auto simp: fb_free_def fb_example_def less_mult_imp_div_less)
  ultimately show ?thesis
    by (simp add: fa_wf_def fb_wf_def) (simp add: fb_example_def)
qed

lemma fb_example_free: "{..<128} \<subseteq> fb_free fb_example"
proof
  fix f :: nat assume "f \<in> {..<128}"
  then have "f div 64 < 2" by auto
  then show "f \<in> fb_free fb_example"
    by (cases "f div 64") (simp_all add: fb_free_def fb_example_def)
qed

lemma fb_example_nonempty: "fb_free fb_example \<noteq> {}"
proof -
  have "0 \<in> fb_free fb_example" using fb_example_free by (rule subsetD) simp
  then show ?thesis by blast
qed

section \<open>Properties\<close>

text \<open>C22. Allocation: on well-formed, disjoint blocks a request for 1 to 63 frames returns at least
  one and at most the requested number of contiguous frames that were all free, marks exactly
  those as used in the block they come from and keeps every invariant of the three level
  bitmaps; when no block has a free frame the allocator panics.\<close>

theorem fa_allocate_correct:
  assumes "fa_wf bs" and "0 < count" and "unat count < 64"
  shows "if \<exists>b\<in>set bs. fb_free b \<noteq> {}
     then \<exists>n address bs' i f. fa_allocate bs count = Inr (n, address, bs') \<and>
       fa_allocated bs count n address bs' i f \<and> fa_wf bs'
     else fa_allocate bs count = Inl Assert_failed"
proof (cases "\<exists>b\<in>set bs. fb_free b \<noteq> {}")
  case True
  then show ?thesis using fa_allocate_spec [OF assms True] by (simp only: if_True)
next
  case False
  then have "fa_allocate bs count = Inl Assert_failed"
    by (intro fa_allocate_exhausted [OF assms(1)]) blast
  with False show ?thesis by (simp only: if_False)
qed

theorem fa_allocate_correct_witness:
  "\<exists>n address bs' i f. fa_allocate [fb_example] 5 = Inr (n, address, bs') \<and>
     fa_allocated [fb_example] 5 n address bs' i f \<and> fa_wf bs'"
  using fa_allocate_correct [OF fb_example_wf, of 5] fb_example_nonempty by (simp split: if_splits)

text \<open>C23. Round trip: on blocks of at most 4096 frames, giving an allocation straight back with
  \<open>free\<close> restores the set of free frames of every block.\<close>

theorem fa_allocate_free_roundtrip:
  assumes "fa_wf bs" and "\<forall>b\<in>set bs. unat (fb_count b) \<le> 4096"
    and "0 < count" and "unat count < 64" and "fa_allocate bs count = Inr (n, address, bs')"
  shows "\<exists>bs''. fa_free bs' address (of_nat n) = Inr bs'' \<and>
     map fb_free bs'' = map fb_free bs \<and> fa_ok bs''"
  using assms by (rule fa_allocate_then_free)

theorem fa_allocate_free_roundtrip_witness:
  "\<exists>n address bs' bs''. fa_allocate [fb_example] 5 = Inr (n, address, bs') \<and>
     fa_free bs' address (of_nat n) = Inr bs'' \<and> map fb_free bs'' = [fb_free fb_example]"
proof -
  obtain n address bs' where a: "fa_allocate [fb_example] 5 = Inr (n, address, bs')"
    using fa_allocate_spec [OF fb_example_wf, of 5] fb_example_nonempty by auto
  with fa_allocate_free_roundtrip [OF fb_example_wf _ _ _ a] show ?thesis
    by (auto simp: fb_example_def)
qed



end
