(* ===== verification/Spinlock.thy ===== *)
theory Spinlock
  imports J6_Prelude
begin

text \<open>
  The MCS spinlock \<open>util::spinlock\<close> of \<open>src/src/libraries/util/spinlock.cpp\<close> as a
  transition system: any number of threads, each with its own waiter node (in \<open>scoped_lock\<close>),
  take atomic steps in any order. The memory order of the source is sequentially consistent.
  A step is one read or write of shared memory by one thread, labelled with the events it
  makes: \<open>Enqueued\<close> when a thread has put its node at the end of the queue, \<open>Entered\<close>
  when \<open>acquire\<close> (or \<open>try_acquire\<close>) has returned with the lock held.
\<close>

section \<open>State\<close>

type_synonym tid = nat

datatype mcs_pc =
    Idle
  | Acq_block        \<comment> \<open>\<open>next\<close> is cleared\<close>
  | Acq_swap         \<comment> \<open>\<open>blocked\<close> is set, the exchange comes next\<close>
  | Acq_link tid     \<comment> \<open>the exchange returned this waiter\<close>
  | Acq_spin
  | Acq_free         \<comment> \<open>the exchange returned null\<close>
  | Try_block
  | Try_swap
  | Critical
  | Rel_wait         \<comment> \<open>the compare and exchange failed\<close>
  | Rel_unblock      \<comment> \<open>\<open>next\<close> is known\<close>

datatype mcs_event = Enqueued tid | Entered tid

record mcs =
  m_lock :: "tid option"
  blocked :: "tid \<Rightarrow> bool"
  next_of :: "tid \<Rightarrow> tid option"
  pc :: "tid \<Rightarrow> mcs_pc"

definition mcs_init :: mcs where
  "mcs_init = \<lparr>m_lock = None, blocked = (\<lambda>_. False), next_of = (\<lambda>_. None), pc = (\<lambda>_. Idle)\<rparr>"

section \<open>Steps\<close>

inductive mcs_step :: "mcs \<Rightarrow> tid \<Rightarrow> mcs_event list \<Rightarrow> mcs \<Rightarrow> bool" where
  acquire_next: "pc s t = Idle \<Longrightarrow>
    mcs_step s t [] (s\<lparr>next_of := (next_of s)(t := None), pc := (pc s)(t := Acq_block)\<rparr>)"
| acquire_block: "pc s t = Acq_block \<Longrightarrow>
    mcs_step s t [] (s\<lparr>blocked := (blocked s)(t := True), pc := (pc s)(t := Acq_swap)\<rparr>)"
| acquire_swap_prev: "pc s t = Acq_swap \<Longrightarrow> m_lock s = Some p \<Longrightarrow>
    mcs_step s t [Enqueued t] (s\<lparr>m_lock := Some t, pc := (pc s)(t := Acq_link p)\<rparr>)"
| acquire_swap_none: "pc s t = Acq_swap \<Longrightarrow> m_lock s = None \<Longrightarrow>
    mcs_step s t [Enqueued t] (s\<lparr>m_lock := Some t, pc := (pc s)(t := Acq_free)\<rparr>)"
| acquire_link: "pc s t = Acq_link p \<Longrightarrow>
    mcs_step s t [] (s\<lparr>next_of := (next_of s)(p := Some t), pc := (pc s)(t := Acq_spin)\<rparr>)"
| acquire_spin: "pc s t = Acq_spin \<Longrightarrow> blocked s t \<Longrightarrow> mcs_step s t [] s"
| acquire_spun: "pc s t = Acq_spin \<Longrightarrow> \<not> blocked s t \<Longrightarrow>
    mcs_step s t [Entered t] (s\<lparr>pc := (pc s)(t := Critical)\<rparr>)"
| acquire_free: "pc s t = Acq_free \<Longrightarrow>
    mcs_step s t [Entered t] (s\<lparr>blocked := (blocked s)(t := False), pc := (pc s)(t := Critical)\<rparr>)"
| try_next: "pc s t = Idle \<Longrightarrow>
    mcs_step s t [] (s\<lparr>next_of := (next_of s)(t := None), pc := (pc s)(t := Try_block)\<rparr>)"
| try_block: "pc s t = Try_block \<Longrightarrow>
    mcs_step s t [] (s\<lparr>blocked := (blocked s)(t := False), pc := (pc s)(t := Try_swap)\<rparr>)"
| try_fail: "pc s t = Try_swap \<Longrightarrow> m_lock s \<noteq> None \<Longrightarrow>
    mcs_step s t [] (s\<lparr>pc := (pc s)(t := Idle)\<rparr>)"
| try_ok: "pc s t = Try_swap \<Longrightarrow> m_lock s = None \<Longrightarrow>
    mcs_step s t [Enqueued t, Entered t] (s\<lparr>m_lock := Some t, pc := (pc s)(t := Critical)\<rparr>)"
| release_last: "pc s t = Critical \<Longrightarrow> m_lock s = Some t \<Longrightarrow>
    mcs_step s t [] (s\<lparr>m_lock := None, pc := (pc s)(t := Idle)\<rparr>)"
| release_more: "pc s t = Critical \<Longrightarrow> m_lock s \<noteq> Some t \<Longrightarrow>
    mcs_step s t [] (s\<lparr>pc := (pc s)(t := Rel_wait)\<rparr>)"
| release_wait: "pc s t = Rel_wait \<Longrightarrow> next_of s t = None \<Longrightarrow> mcs_step s t [] s"
| release_next: "pc s t = Rel_wait \<Longrightarrow> next_of s t \<noteq> None \<Longrightarrow>
    mcs_step s t [] (s\<lparr>pc := (pc s)(t := Rel_unblock)\<rparr>)"
| release_unblock: "pc s t = Rel_unblock \<Longrightarrow> next_of s t = Some n \<Longrightarrow>
    mcs_step s t [] (s\<lparr>blocked := (blocked s)(n := False), pc := (pc s)(t := Idle)\<rparr>)"

inductive mcs_reach :: "mcs_event list \<Rightarrow> mcs \<Rightarrow> bool" where
  reach_init: "mcs_reach [] mcs_init"
| reach_step: "mcs_reach evs s \<Longrightarrow> mcs_step s t es s' \<Longrightarrow> mcs_reach (evs @ es) s'"

fun enqueued :: "mcs_event list \<Rightarrow> tid list" where
  "enqueued [] = []"
| "enqueued (Enqueued t # evs) = t # enqueued evs"
| "enqueued (Entered t # evs) = enqueued evs"

fun entered :: "mcs_event list \<Rightarrow> tid list" where
  "entered [] = []"
| "entered (Entered t # evs) = t # entered evs"
| "entered (Enqueued t # evs) = entered evs"

section \<open>The queue behind the pointers\<close>

definition holds :: "mcs_pc \<Rightarrow> bool" where
  "holds p \<longleftrightarrow> p \<in> {Critical, Rel_wait, Rel_unblock}"

definition queued :: "mcs_pc \<Rightarrow> bool" where
  "queued p \<longleftrightarrow> holds p \<or> p = Acq_spin \<or> p = Acq_free \<or> (\<exists>t. p = Acq_link t)"

definition mcs_head_ok :: "mcs \<Rightarrow> tid list \<Rightarrow> bool" where
  "mcs_head_ok s q \<longleftrightarrow> q \<noteq> [] \<longrightarrow>
     (holds (pc s (hd q)) \<or> pc s (hd q) = Acq_free \<or> pc s (hd q) = Acq_spin \<and> \<not> blocked s (hd q)) \<and>
     (pc s (hd q) \<in> {Rel_wait, Rel_unblock} \<longrightarrow> 1 < length q) \<and>
     (pc s (hd q) = Rel_unblock \<longrightarrow> next_of s (hd q) \<noteq> None)"

definition mcs_link_ok :: "mcs \<Rightarrow> tid \<Rightarrow> tid \<Rightarrow> bool" where
  "mcs_link_ok s p t \<longleftrightarrow> blocked s t \<and>
     (pc s t = Acq_link p \<and> next_of s p = None \<or> pc s t = Acq_spin \<and> next_of s p = Some t)"

definition mcs_inv :: "mcs \<Rightarrow> tid list \<Rightarrow> bool" where
  "mcs_inv s q \<longleftrightarrow>
     distinct q \<and> m_lock s = (if q = [] then None else Some (last q)) \<and>
     (\<forall>t. t \<in> set q \<longleftrightarrow> queued (pc s t)) \<and>
     mcs_head_ok s q \<and>
     (\<forall>i. Suc i < length q \<longrightarrow> mcs_link_ok s (q ! i) (q ! Suc i)) \<and>
     (q \<noteq> [] \<longrightarrow> next_of s (last q) = None) \<and>
     (\<forall>t. pc s t = Acq_swap \<longrightarrow> next_of s t = None \<and> blocked s t) \<and>
     (\<forall>t. pc s t \<in> {Acq_block, Try_block, Try_swap} \<longrightarrow> next_of s t = None)"

text \<open>The queued threads that have not entered yet.\<close>

definition mcs_waiting :: "mcs \<Rightarrow> tid list \<Rightarrow> tid list" where
  "mcs_waiting s q = (if q \<noteq> [] \<and> holds (pc s (hd q)) then tl q else q)"

text \<open>A step keeps the invariant for some queue, and the threads that enter by it are the first of
  those that waited or arrived.\<close>

definition mcs_sim :: "mcs \<Rightarrow> tid list \<Rightarrow> mcs_event list \<Rightarrow> mcs \<Rightarrow> bool" where
  "mcs_sim s q es s' \<longleftrightarrow>
     (\<exists>q'. mcs_inv s' q' \<and> mcs_waiting s q @ enqueued es = entered es @ mcs_waiting s' q')"

text \<open>Thread 0 holds the lock, thread 1 waits for it.\<close>

definition mcs_example :: mcs where
  "mcs_example = \<lparr>m_lock = Some 1, blocked = (\<lambda>_. False)(1 := True), next_of = (\<lambda>_. None)(0 := Some 1),
     pc = (\<lambda>_. Idle)(0 := Critical, 1 := Acq_spin)\<rparr>"

section \<open>Facts of the invariant\<close>

lemma mcs_inv_D:
  assumes "mcs_inv s q"
  shows "distinct q" "m_lock s = (if q = [] then None else Some (last q))"
    "\<And>t. t \<in> set q \<longleftrightarrow> queued (pc s t)" "mcs_head_ok s q"
    "\<And>i. Suc i < length q \<Longrightarrow> mcs_link_ok s (q ! i) (q ! Suc i)"
    "q \<noteq> [] \<Longrightarrow> next_of s (last q) = None"
    "\<And>t. pc s t = Acq_swap \<Longrightarrow> next_of s t = None \<and> blocked s t"
    "\<And>t. pc s t \<in> {Acq_block, Try_block, Try_swap} \<Longrightarrow> next_of s t = None"
  using assms unfolding mcs_inv_def by blast+

lemma mcs_invI:
  assumes "distinct q" "m_lock s = (if q = [] then None else Some (last q))"
    "\<And>t. t \<in> set q \<longleftrightarrow> queued (pc s t)" "mcs_head_ok s q"
    "\<And>i. Suc i < length q \<Longrightarrow> mcs_link_ok s (q ! i) (q ! Suc i)"
    "q \<noteq> [] \<Longrightarrow> next_of s (last q) = None"
    "\<And>t. pc s t = Acq_swap \<Longrightarrow> next_of s t = None \<and> blocked s t"
    "\<And>t. pc s t \<in> {Acq_block, Try_block, Try_swap} \<Longrightarrow> next_of s t = None"
  shows "mcs_inv s q"
  unfolding mcs_inv_def using assms by simp

lemma mcs_member_cases:
  assumes "mcs_inv s q" "t \<in> set q"
  obtains (head) "t = hd q" | (later) i where "Suc i < length q" "q ! Suc i = t" "mcs_link_ok s (q ! i) t"
proof -
  obtain j where j: "j < length q" "q ! j = t" using assms(2) by (auto simp: in_set_conv_nth)
  show thesis
  proof (cases j)
    case 0
    with j have "t = hd q" by (cases q) auto
    then show thesis by (rule head)
  next
    case (Suc i)
    with j later mcs_inv_D(5) [OF assms(1), of i] show thesis by blast
  qed
qed

lemma mcs_link_okD: "mcs_link_ok s p t \<Longrightarrow> blocked s t \<and> (pc s t = Acq_link p \<or> pc s t = Acq_spin)"
  by (auto simp: mcs_link_ok_def)

lemma mcs_front_is_head:
  assumes "mcs_inv s q" "holds (pc s t) \<or> pc s t = Acq_free \<or> pc s t = Acq_spin \<and> \<not> blocked s t"
  shows "q \<noteq> []" "t = hd q"
proof -
  have t: "t \<in> set q" using mcs_inv_D(3) [OF assms(1)] assms(2) by (auto simp: queued_def)
  then show "q \<noteq> []" by auto
  from assms(1) t show "t = hd q"
  proof (cases rule: mcs_member_cases)
    case (later i)
    with assms(2) mcs_link_okD [OF later(3)] show ?thesis by (auto simp: holds_def)
  qed simp
qed

lemma mcs_linking:
  assumes "mcs_inv s q" "pc s t = Acq_link p"
  obtains i where "Suc i < length q" "q ! i = p" "q ! Suc i = t"
proof -
  have t: "t \<in> set q" using mcs_inv_D(3) [OF assms(1)] assms(2) by (auto simp: queued_def)
  from assms(1) t show thesis
  proof (cases rule: mcs_member_cases)
    case head
    then show thesis using mcs_inv_D(4) [OF assms(1)] assms(2) t by (auto simp: mcs_head_ok_def holds_def)
  next
    case (later i)
    with assms(2) that show thesis by (auto simp: mcs_link_ok_def)
  qed
qed

section \<open>Steps keep the invariant\<close>

text \<open>A thread outside the queue may change its own node.\<close>

lemma mcs_inv_outside:
  assumes inv: "mcs_inv s q"
    and "m_lock s' = m_lock s"
    and same: "\<And>u. u \<noteq> t \<Longrightarrow> pc s' u = pc s u \<and> blocked s' u = blocked s u \<and> next_of s' u = next_of s u"
    and "\<not> queued (pc s t)" "\<not> queued (pc s' t)"
    and "pc s' t = Acq_swap \<Longrightarrow> next_of s' t = None \<and> blocked s' t"
    and "pc s' t \<in> {Acq_block, Try_block, Try_swap} \<Longrightarrow> next_of s' t = None"
  shows "mcs_inv s' q"
proof -
  note D = mcs_inv_D [OF inv]
  have out: "t \<notin> set q" using D(3) assms(4) by simp
  have same_q: "pc s' u = pc s u \<and> blocked s' u = blocked s u \<and> next_of s' u = next_of s u" if "u \<in> set q" for u
    using same [of u] out that by auto
  show ?thesis
  proof (rule mcs_invI)
    show "distinct q" "m_lock s' = (if q = [] then None else Some (last q))" using D(1,2) assms(2) by simp_all
    show "mcs_head_ok s' q" using D(4) same_q [of "hd q"] by (auto simp: mcs_head_ok_def)
    show "mcs_link_ok s' (q ! i) (q ! Suc i)" if "Suc i < length q" for i
      using D(5) [OF that] same_q [of "q ! i"] same_q [of "q ! Suc i"] that by (auto simp: mcs_link_ok_def)
    show "u \<in> set q \<longleftrightarrow> queued (pc s' u)" for u
      using D(3) same [of u] assms(5) out by (cases "u = t") auto
    show "q \<noteq> [] \<Longrightarrow> next_of s' (last q) = None" using D(6) same_q [of "last q"] by simp
    show "next_of s' u = None \<and> blocked s' u" if "pc s' u = Acq_swap" for u
      using D(7) [of u] same [of u] assms(6) that by (cases "u = t") auto
    show "next_of s' u = None" if "pc s' u \<in> {Acq_block, Try_block, Try_swap}" for u
      using D(8) [of u] same [of u] assms(7) that by (cases "u = t") auto
  qed
qed

text \<open>The thread at the head may move on while it holds the lock.\<close>

lemma mcs_inv_head:
  assumes inv: "mcs_inv s q" and t: "q \<noteq> []" "t = hd q"
    and s': "s' = s\<lparr>blocked := b, pc := (pc s)(t := p)\<rparr>" "\<And>u. u \<noteq> t \<Longrightarrow> b u = blocked s u"
    and p: "holds p" "p \<in> {Rel_wait, Rel_unblock} \<Longrightarrow> 1 < length q"
      "p = Rel_unblock \<Longrightarrow> next_of s t \<noteq> None"
  shows "mcs_inv s' q"
proof -
  note D = mcs_inv_D [OF inv]
  have q: "t \<in> set q" using t by simp
  show ?thesis
  proof (rule mcs_invI)
    show "distinct q" "m_lock s' = (if q = [] then None else Some (last q))" using D(1,2) by (simp_all add: s')
    show "mcs_head_ok s' q" using t p by (auto simp: mcs_head_ok_def s')
    show "mcs_link_ok s' (q ! i) (q ! Suc i)" if i: "Suc i < length q" for i
    proof -
      have "q ! Suc i \<noteq> t"
        using t D(1) i by (metis Zero_not_Suc gr_implies_not0 hd_conv_nth neq0_conv nth_eq_iff_index_eq)
      then show ?thesis using D(5) [OF i] s'(2) by (auto simp: mcs_link_ok_def s'(1))
    qed
    show "u \<in> set q \<longleftrightarrow> queued (pc s' u)" for u
      using D(3) q p(1) by (cases "u = t") (auto simp: s' queued_def)
    show "q \<noteq> [] \<Longrightarrow> next_of s' (last q) = None" using D(6) by (simp add: s')
    show "next_of s' u = None \<and> blocked s' u" if "pc s' u = Acq_swap" for u
      using D(7) [of u] that p(1) s'(2) by (cases "u = t") (auto simp: s'(1) holds_def)
    show "next_of s' u = None" if "pc s' u \<in> {Acq_block, Try_block, Try_swap}" for u
      using D(8) [of u] that p(1) by (cases "u = t") (auto simp: s'(1) holds_def)
  qed
qed

text \<open>A thread that swaps itself in becomes the last of the queue.\<close>

lemma mcs_inv_enqueue:
  assumes inv: "mcs_inv s q" and t: "pc s t \<in> {Acq_swap, Try_swap}"
    and p: "p = (if pc s t = Try_swap then Critical else if q = [] then Acq_free else Acq_link (last q))"
      "pc s t = Try_swap \<Longrightarrow> q = []"
  shows "mcs_inv (s\<lparr>m_lock := Some t, pc := (pc s)(t := p)\<rparr>) (q @ [t])" (is "mcs_inv ?s _")
proof -
  note D = mcs_inv_D [OF inv]
  have out: "t \<notin> set q" using D(3) t by (auto simp: queued_def holds_def)
  have next_t: "next_of s t = None" using D(7,8) [of t] t by auto
  show ?thesis
  proof (rule mcs_invI)
    show "distinct (q @ [t])" using D(1) out by simp
    show "mcs_head_ok ?s (q @ [t])"
    proof (cases "q = []")
      case True
      then show ?thesis using p by (auto simp: mcs_head_ok_def holds_def)
    next
      case False
      then have "hd q \<noteq> t" using out by (metis hd_in_set)
      with False D(4) show ?thesis by (auto simp: mcs_head_ok_def)
    qed
    show "mcs_link_ok ?s ((q @ [t]) ! i) ((q @ [t]) ! Suc i)" if i: "Suc i < length (q @ [t])" for i
    proof (cases "Suc i < length q")
      case True
      then have "q ! Suc i \<noteq> t" using out by (metis nth_mem)
      with D(5) [OF True] True show ?thesis by (auto simp: mcs_link_ok_def nth_append)
    next
      case False
      with i have len: "length q = Suc i" by simp
      then have "q \<noteq> []" by auto
      with len have q: "q \<noteq> []" "(q @ [t]) ! i = last q" "(q @ [t]) ! Suc i = t"
        by (simp_all add: nth_append last_conv_nth)
      with p have "pc s t = Acq_swap" using t by auto
      with D(6,7) q p show ?thesis by (auto simp: mcs_link_ok_def)
    qed
    show "u \<in> set (q @ [t]) \<longleftrightarrow> queued (pc ?s u)" for u
      using D(3) p by (cases "u = t") (auto simp: queued_def holds_def)
    show "next_of ?s (last (q @ [t])) = None" using next_t by simp
    show "next_of ?s u = None \<and> blocked ?s u" if "pc ?s u = Acq_swap" for u
      using D(7) [of u] that p by (cases "u = t") (auto split: if_splits)
    show "next_of ?s u = None" if "pc ?s u \<in> {Acq_block, Try_block, Try_swap}" for u
      using D(8) [of u] that p by (cases "u = t") (auto split: if_splits)
  qed simp
qed

lemma mcs_inv_link:
  assumes inv: "mcs_inv s q" and t: "pc s t = Acq_link p"
  shows "mcs_inv (s\<lparr>next_of := (next_of s)(p := Some t), pc := (pc s)(t := Acq_spin)\<rparr>) q" (is "mcs_inv ?s _")
proof -
  note D = mcs_inv_D [OF inv]
  obtain i where i: "Suc i < length q" "q ! i = p" "q ! Suc i = t" using inv t by (rule mcs_linking)
  have "i < length q" using i(1) by simp
  have p: "p \<in> set q" using i by (metis \<open>i < length q\<close> nth_mem)
  have "q \<noteq> []" using i(1) by auto
  have "p \<noteq> last q"
    using i(1) D(1) unfolding i(2) [symmetric] last_conv_nth [OF \<open>q \<noteq> []\<close>] by (simp add: nth_eq_iff_index_eq)
  have "hd q \<noteq> t"
    using i(1) D(1) unfolding i(3) [symmetric] hd_conv_nth [OF \<open>q \<noteq> []\<close>] by (subst nth_eq_iff_index_eq) auto
  show ?thesis
  proof (rule mcs_invI)
    show "mcs_head_ok ?s q" using D(4) \<open>hd q \<noteq> t\<close> by (auto simp: mcs_head_ok_def)
    show "mcs_link_ok ?s (q ! j) (q ! Suc j)" if j: "Suc j < length q" for j
    proof (cases "j = i")
      case True
      with D(5) [OF i(1)] i show ?thesis by (simp add: mcs_link_ok_def)
    next
      case False
      then have "q ! j \<noteq> p" "q ! Suc j \<noteq> t" using i j D(1) by (auto simp: nth_eq_iff_index_eq)
      with D(5) [OF j] show ?thesis by (simp add: mcs_link_ok_def)
    qed
    show "u \<in> set q \<longleftrightarrow> queued (pc ?s u)" for u
      using D(3) [of u] t by (cases "u = t") (auto simp: queued_def)
    show "q \<noteq> [] \<Longrightarrow> next_of ?s (last q) = None" using D(6) \<open>p \<noteq> last q\<close> by simp
    show "next_of ?s u = None \<and> blocked ?s u" if "pc ?s u = Acq_swap" for u
      using D(7) [of u] D(3) [of u] that p by (cases "u = t") (auto simp: queued_def holds_def)
    show "next_of ?s u = None" if "pc ?s u \<in> {Acq_block, Try_block, Try_swap}" for u
      using D(8) [of u] D(3) [of u] that p by (cases "u = t") (auto simp: queued_def holds_def)
  qed (use D(1,2) in simp_all)
qed

text \<open>The head hands the lock to the next thread and leaves the queue.\<close>

lemma mcs_inv_unblock:
  assumes inv: "mcs_inv s q" and t: "pc s t = Rel_unblock" "next_of s t = Some n"
  obtains r where "q = t # n # r" "pc s n = Acq_spin"
    "mcs_inv (s\<lparr>blocked := (blocked s)(n := False), pc := (pc s)(t := Idle)\<rparr>) (n # r)"
proof -
  note D = mcs_inv_D [OF inv]
  have hd: "q \<noteq> []" "t = hd q" using mcs_front_is_head [OF inv, of t] t by (auto simp: holds_def)
  then have "1 < length q" using D(4) t by (auto simp: mcs_head_ok_def)
  with hd obtain n' r where q: "q = t # n' # r" by (cases q; cases "tl q") auto
  have l: "mcs_link_ok s t n'" using D(5) [of 0] by (simp add: q)
  with t(2) have n: "n' = n" "pc s n = Acq_spin" by (auto simp: mcs_link_ok_def)
  have d: "t \<noteq> n" "t \<notin> set r" "n \<notin> set r" "distinct r" using D(1) by (auto simp: q n(1))
  let ?s = "s\<lparr>blocked := (blocked s)(n := False), pc := (pc s)(t := Idle)\<rparr>"
  have "mcs_inv ?s (n # r)"
  proof (rule mcs_invI)
    show "mcs_head_ok ?s (n # r)" using n(2) d(1) by (auto simp: mcs_head_ok_def)
    show "mcs_link_ok ?s ((n # r) ! i) ((n # r) ! Suc i)" if i: "Suc i < length (n # r)" for i
    proof -
      have "r ! i \<in> set r" using i by simp
      then have "r ! i \<noteq> n" "r ! i \<noteq> t" using d by auto
      then show ?thesis using D(5) [of "Suc i"] i by (simp add: q n(1) mcs_link_ok_def)
    qed
    show "u \<in> set (n # r) \<longleftrightarrow> queued (pc ?s u)" for u
      using D(3) [of u] d by (cases "u = t") (auto simp: q n(1) queued_def holds_def)
    show "next_of ?s u = None \<and> blocked ?s u" if "pc ?s u = Acq_swap" for u
      using D(7) [of u] that n(2) by (cases "u = t"; cases "u = n") auto
    show "next_of ?s u = None" if "pc ?s u \<in> {Acq_block, Try_block, Try_swap}" for u
      using D(8) [of u] that by (cases "u = t") auto
    show "next_of ?s (last (n # r)) = None" using D(6) by (simp add: q n(1))
  qed (use D(2) d in \<open>simp_all add: q n(1)\<close>)
  with q n that show thesis by simp
qed

lemma mcs_inv_release_last:
  assumes inv: "mcs_inv s q" and t: "pc s t = Critical" "m_lock s = Some t"
  shows "q = [t]" "mcs_inv (s\<lparr>m_lock := None, pc := (pc s)(t := Idle)\<rparr>) []"
proof -
  note D = mcs_inv_D [OF inv]
  have hd: "q \<noteq> []" "t = hd q" using mcs_front_is_head [OF inv, of t] t by (auto simp: holds_def)
  moreover have "last q = t" using D(2) t(2) hd(1) by simp
  ultimately show q: "q = [t]" using D(1) by (cases q) (auto split: if_splits)
  let ?s = "s\<lparr>m_lock := None, pc := (pc s)(t := Idle)\<rparr>"
  show "mcs_inv ?s []"
  proof (rule mcs_invI)
    show "u \<in> set [] \<longleftrightarrow> queued (pc ?s u)" for u
      using D(3) [of u] by (cases "u = t") (auto simp: q queued_def holds_def)
    show "next_of ?s u = None \<and> blocked ?s u" if "pc ?s u = Acq_swap" for u
      using D(7) [of u] that by (cases "u = t") auto
    show "next_of ?s u = None" if "pc ?s u \<in> {Acq_block, Try_block, Try_swap}" for u
      using D(8) [of u] that by (cases "u = t") auto
  qed (simp_all add: mcs_head_ok_def)
qed

lemma enqueued_append [simp]: "enqueued (xs @ ys) = enqueued xs @ enqueued ys"
  by (induction xs rule: enqueued.induct) simp_all

lemma entered_append [simp]: "entered (xs @ ys) = entered xs @ entered ys"
  by (induction xs rule: entered.induct) simp_all

lemma mcs_waiting_same: "(q \<noteq> [] \<Longrightarrow> pc s' (hd q) = pc s (hd q)) \<Longrightarrow> mcs_waiting s' q = mcs_waiting s q"
  by (auto simp: mcs_waiting_def)

lemma mcs_sim_outside:
  assumes "mcs_inv s q" "\<not> queued (pc s t)" "mcs_inv s' q" "\<And>u. u \<noteq> t \<Longrightarrow> pc s' u = pc s u"
  shows "mcs_sim s q [] s'"
proof -
  have "q \<noteq> [] \<Longrightarrow> hd q \<noteq> t" using mcs_inv_D(3) [OF assms(1)] assms(2) by (metis hd_in_set)
  then have "mcs_waiting s' q = mcs_waiting s q" by (intro mcs_waiting_same assms(4))
  with assms(3) show ?thesis by (auto simp: mcs_sim_def)
qed

lemma mcs_sim_head:
  assumes "q \<noteq> []" "t = hd q" "mcs_inv s' q" "holds (pc s' t)" "es = (if holds (pc s t) then [] else [Entered t])"
  shows "mcs_sim s q es s'"
  unfolding mcs_sim_def using assms by (intro exI [of _ q]) (auto simp: mcs_waiting_def)

lemma mcs_sim_enqueue:
  assumes "mcs_inv s q" "\<not> queued (pc s t)" "mcs_inv s' (q @ [t])" "\<And>u. u \<noteq> t \<Longrightarrow> pc s' u = pc s u"
    and "es = (if holds (pc s' t) then [Enqueued t, Entered t] else [Enqueued t])" "holds (pc s' t) \<Longrightarrow> q = []"
  shows "mcs_sim s q es s'"
proof -
  have "q \<noteq> [] \<Longrightarrow> hd q \<noteq> t" using mcs_inv_D(3) [OF assms(1)] assms(2) by (metis hd_in_set)
  then have "q \<noteq> [] \<Longrightarrow> pc s' (hd q) = pc s (hd q)" by (intro assms(4))
  with assms(3,5,6) show ?thesis unfolding mcs_sim_def
    by (intro exI [of _ "q @ [t]"]) (cases "q = []"; auto simp: mcs_waiting_def)
qed

lemmas mcs_pc_kinds = queued_def holds_def

lemma mcs_step_inv:
  assumes step: "mcs_step s t es s'" and inv: "mcs_inv s q"
  shows "mcs_sim s q es s'"
proof -
  note D = mcs_inv_D [OF inv]
  note outside = mcs_sim_outside [OF inv, of t s'] mcs_inv_outside [OF inv, of s' t]
  note enqueue = mcs_sim_enqueue [OF inv, of t s'] mcs_inv_enqueue [OF inv, of t]
  note front = mcs_front_is_head [OF inv, of t]
  from step show ?thesis
  proof cases
    case acquire_swap_prev
    then show ?thesis using D(2) by (intro enqueue(1)) (auto intro!: enqueue(2) simp: mcs_pc_kinds split: if_splits)
  next
    case acquire_swap_none
    then show ?thesis using D(2) enqueue(2) [of Acq_free]
      by (intro enqueue(1)) (auto simp: mcs_pc_kinds split: if_splits)
  next
    case try_ok
    then show ?thesis using D(2) enqueue(2) [of Critical]
      by (intro enqueue(1)) (auto simp: mcs_pc_kinds split: if_splits)
  next
    case (acquire_link p)
    have "q \<noteq> []" "t \<noteq> hd q" using D(3) [of t] D(4) acquire_link by (auto simp: mcs_pc_kinds mcs_head_ok_def)
    then have "mcs_waiting s' q = mcs_waiting s q" using acquire_link by (intro mcs_waiting_same) auto
    then show ?thesis unfolding mcs_sim_def
      using mcs_inv_link [OF inv acquire_link(3)] acquire_link(1,2) by (intro exI [of _ q]) simp
  next
    case acquire_spun
    have h: "q \<noteq> []" "t = hd q" using front acquire_spun by auto
    show ?thesis by (rule mcs_sim_head [OF h])
      (use acquire_spun mcs_inv_head [OF inv h, of s' Critical "blocked s"] in \<open>auto simp: holds_def\<close>)
  next
    case acquire_free
    have h: "q \<noteq> []" "t = hd q" using front acquire_free by auto
    show ?thesis by (rule mcs_sim_head [OF h])
      (use acquire_free mcs_inv_head [OF inv h, of s' Critical "(blocked s)(t := False)"] in \<open>auto simp: holds_def\<close>)
  next
    case release_more
    have h: "q \<noteq> []" "t = hd q" using front release_more by (auto simp: holds_def)
    then have "1 < length q" using D(2) release_more by (cases q; cases "tl q") auto
    then show ?thesis by (intro mcs_sim_head [OF h])
      (use release_more mcs_inv_head [OF inv h, of s' Rel_wait "blocked s"] in \<open>auto simp: holds_def\<close>)
  next
    case release_next
    have h: "q \<noteq> []" "t = hd q" using front release_next by (auto simp: holds_def)
    then have "1 < length q" using D(4) release_next by (auto simp: mcs_head_ok_def)
    then show ?thesis by (intro mcs_sim_head [OF h])
      (use release_next mcs_inv_head [OF inv h, of s' Rel_unblock "blocked s"] in \<open>auto simp: holds_def\<close>)
  next
    case release_last
    then show ?thesis using mcs_inv_release_last [OF inv, of t]
      by (auto simp: mcs_sim_def mcs_waiting_def holds_def)
  next
    case (release_unblock n)
    obtain r where "q = t # n # r" "pc s n = Acq_spin" "mcs_inv s' (n # r)"
      using mcs_inv_unblock [OF inv, of t n] release_unblock by metis
    then show ?thesis using release_unblock unfolding mcs_sim_def
      by (intro exI [of _ "n # r"]) (auto simp: mcs_waiting_def holds_def)
  qed (use inv D(8) [of t] outside in \<open>auto simp: mcs_sim_def mcs_pc_kinds\<close>)
qed

lemma mcs_reach_inv: "mcs_reach evs s \<Longrightarrow> \<exists>q. mcs_inv s q \<and> enqueued evs = entered evs @ mcs_waiting s q"
proof (induction rule: mcs_reach.induct)
  case reach_init
  have "mcs_inv mcs_init []"
    by (rule mcs_invI) (simp_all add: mcs_init_def queued_def holds_def mcs_head_ok_def)
  then show ?case by (intro exI [of _ "[]"]) (simp add: mcs_waiting_def)
next
  case (reach_step evs s t es s')
  then obtain q where q: "mcs_inv s q" "enqueued evs = entered evs @ mcs_waiting s q" by blast
  from mcs_step_inv [OF reach_step(2) q(1)] q(2) show ?case by (auto simp: mcs_sim_def)
qed

lemma mcs_progress:
  assumes "mcs_inv s q" "q \<noteq> []" "pc s (hd q) \<noteq> Critical"
  shows "\<exists>u es s'. queued (pc s u) \<and> mcs_step s u es s' \<and> s' \<noteq> s"
proof -
  note D = mcs_inv_D [OF assms(1)]
  define h where "h = hd q"
  have hq: "queued (pc s h)" using D(3) [of h] assms(2) by (simp add: h_def)
  have go: ?thesis if "queued (pc s u)" "mcs_step s u es s'" "pc s' u \<noteq> pc s u" for u es s'
    using that by blast
  from D(4) assms(2,3) consider "pc s h = Acq_free" | "pc s h = Acq_spin" "\<not> blocked s h"
    | "pc s h = Rel_wait" "1 < length q" | n where "pc s h = Rel_unblock" "next_of s h = Some n"
    by (auto simp: mcs_head_ok_def holds_def h_def)
  then show ?thesis
  proof cases
    case 1
    show ?thesis by (rule go [OF hq acquire_free]) (use 1 in simp_all)
  next
    case 2
    show ?thesis by (rule go [OF hq acquire_spun]) (use 2 in simp_all)
  next
    case 3
    show ?thesis
    proof (cases "next_of s h")
      case None
      have "q ! 0 = h" using assms(2) by (simp add: h_def hd_conv_nth)
      then have "pc s (q ! 1) = Acq_link h" using D(5) [of 0] 3(2) None by (auto simp: mcs_link_ok_def)
      then show ?thesis by (intro go [OF _ acquire_link, of "q ! 1" h]) (auto simp: queued_def)
    next
      case (Some n)
      then show ?thesis by (intro go [OF hq release_next]) (use 3 in simp_all)
    qed
  next
    case 4
    show ?thesis by (rule go [OF hq release_unblock]) (use 4 in simp_all)
  qed
qed

lemma mcs_example_reach: "mcs_reach [Enqueued 0, Entered 0, Enqueued 1] mcs_example"
proof -
  have "mcs_reach ([] @ []) (mcs_init\<lparr>next_of := (\<lambda>_. None), pc := (\<lambda>_. Idle)(0 := Acq_block)\<rparr>)"
    using reach_step [OF reach_init acquire_next [of mcs_init 0]] by (simp add: mcs_init_def)
  from reach_step [OF this acquire_block [of _ 0]]
  have 2: "mcs_reach [] (mcs_init\<lparr>blocked := (\<lambda>_. False)(0 := True), pc := (\<lambda>_. Idle)(0 := Acq_swap)\<rparr>)"
    by (simp add: mcs_init_def)
  from reach_step [OF this acquire_swap_none [of _ 0]]
  have "mcs_reach [Enqueued 0] (mcs_init\<lparr>m_lock := Some 0, blocked := (\<lambda>_. False)(0 := True), pc := (\<lambda>_. Idle)(0 := Acq_free)\<rparr>)"
    by (simp add: mcs_init_def)
  from reach_step [OF this acquire_free [of _ 0]]
  have "mcs_reach [Enqueued 0, Entered 0] (mcs_init\<lparr>m_lock := Some 0, pc := (\<lambda>_. Idle)(0 := Critical)\<rparr>)"
    by (simp add: mcs_init_def fun_upd_idem)
  from reach_step [OF this acquire_next [of _ 1]]
  have "mcs_reach [Enqueued 0, Entered 0] (mcs_init\<lparr>m_lock := Some 0, pc := (\<lambda>_. Idle)(0 := Critical, 1 := Acq_block)\<rparr>)"
    by (simp add: mcs_init_def fun_upd_idem)
  from reach_step [OF this acquire_block [of _ 1]]
  have "mcs_reach [Enqueued 0, Entered 0] (mcs_init\<lparr>m_lock := Some 0, blocked := (\<lambda>_. False)(1 := True),
      pc := (\<lambda>_. Idle)(0 := Critical, 1 := Acq_swap)\<rparr>)"
    by (simp add: mcs_init_def)
  from reach_step [OF this acquire_swap_prev [of _ 1 0]]
  have "mcs_reach [Enqueued 0, Entered 0, Enqueued 1] (mcs_init\<lparr>m_lock := Some 1, blocked := (\<lambda>_. False)(1 := True),
      pc := (\<lambda>_. Idle)(0 := Critical, 1 := Acq_link 0)\<rparr>)"
    by (simp add: mcs_init_def)
  from reach_step [OF this acquire_link [of _ 1 0]]
  show ?thesis by (simp add: mcs_init_def mcs_example_def)
qed

section \<open>Properties\<close>

text \<open>C1. Mutual exclusion: in every reachable state a thread in its critical section
  is the only one that holds the spinlock.\<close>

theorem spinlock_mutual_exclusion:
  assumes "mcs_reach evs s" "pc s t = Critical" "holds (pc s u)"
  shows "u = t"
  using mcs_reach_inv [OF assms(1)] mcs_front_is_head(2) assms(2,3) unfolding holds_def by (metis insertI1)

theorem spinlock_mutual_exclusion_witness: "{u. holds (pc mcs_example u)} = {0}"
proof -
  have c: "pc mcs_example 0 = Critical" by (simp add: mcs_example_def)
  then have "holds (pc mcs_example 0)" by (simp add: holds_def)
  with spinlock_mutual_exclusion [OF mcs_example_reach c] show ?thesis by auto
qed

text \<open>C2. Fairness: threads enter in the order in which they swapped themselves into the queue, so
  the sequence of entries is always a prefix of the sequence of arrivals.\<close>

theorem spinlock_fifo:
  assumes "mcs_reach evs s"
  shows "\<exists>waiting. enqueued evs = entered evs @ waiting \<and> (\<forall>t\<in>set waiting. queued (pc s t) \<and> \<not> holds (pc s t))"
proof -
  obtain q where q: "mcs_inv s q" "enqueued evs = entered evs @ mcs_waiting s q" using mcs_reach_inv [OF assms] by blast
  have "queued (pc s t) \<and> \<not> holds (pc s t)" if "t \<in> set (mcs_waiting s q)" for t
  proof -
    have t: "t \<in> set q" using that by (auto simp: mcs_waiting_def dest: list.set_sel(2) split: if_splits)
    moreover have "\<not> holds (pc s t)"
    proof
      assume h: "holds (pc s t)"
      then have "q \<noteq> []" "t = hd q" using mcs_front_is_head [OF q(1), of t] by blast+
      then show False using that h mcs_inv_D(1) [OF q(1)] by (cases q) (auto simp: mcs_waiting_def)
    qed
    ultimately show ?thesis using mcs_inv_D(3) [OF q(1)] by blast
  qed
  with q(2) show ?thesis by blast
qed

theorem spinlock_fifo_witness: "\<exists>w. enqueued [Enqueued 0, Entered 0, Enqueued 1] = [0] @ w \<and> w = [1]"
  using spinlock_fifo [OF mcs_example_reach] by simp

text \<open>C3. No deadlock: as long as a thread is in the queue of the lock, a thread holds the lock or
  some queued thread can take a step that changes the state.\<close>

theorem spinlock_no_deadlock:
  assumes "mcs_reach evs s" "m_lock s \<noteq> None"
  shows "(\<exists>t. pc s t = Critical) \<or> (\<exists>u es s'. queued (pc s u) \<and> mcs_step s u es s' \<and> s' \<noteq> s)"
proof -
  obtain q where q: "mcs_inv s q" using mcs_reach_inv [OF assms(1)] by blast
  then have "q \<noteq> []" using mcs_inv_D(2) [OF q] assms(2) by auto
  with mcs_progress [OF q] show ?thesis by blast
qed

theorem spinlock_no_deadlock_witness:
  "(\<exists>t. pc mcs_example t = Critical) \<or> (\<exists>u es s'. queued (pc mcs_example u) \<and> mcs_step mcs_example u es s' \<and> s' \<noteq> mcs_example)"
  by (rule spinlock_no_deadlock [OF mcs_example_reach]) (simp add: mcs_example_def)

end
