(* ===== verification/Linked_List.thy ===== *)
theory Linked_List
  imports J6_Prelude
begin

text \<open>
  The intrusive doubly linked list \<open>util::linked_list\<close> of
  \<open>src/src/libraries/util/include/util/linked_list.h\<close>. The links live in the nodes, so the
  operations work on a store of nodes shared by all lists; a pointer is an address or null
  (\<open>None\<close>). \<open>ll_rep\<close> says that a list header and the links of the store stand for a
  list of addresses.
\<close>

section \<open>State\<close>

type_synonym addr = nat

record nodes =
  n_next :: "addr \<Rightarrow> addr option"
  n_prev :: "addr \<Rightarrow> addr option"

record linked_list =
  l_head :: "addr option"
  l_tail :: "addr option"
  l_count :: u64

type_synonym ll_state = "nodes \<times> linked_list"

definition set_next :: "addr \<Rightarrow> addr option \<Rightarrow> nodes \<Rightarrow> nodes" where
  "set_next a p st = st\<lparr>n_next := (n_next st)(a := p)\<rparr>"

definition set_prev :: "addr \<Rightarrow> addr option \<Rightarrow> nodes \<Rightarrow> nodes" where
  "set_prev a p st = st\<lparr>n_prev := (n_prev st)(a := p)\<rparr>"

section \<open>Operations\<close>

definition node_insert_after :: "addr \<Rightarrow> addr \<Rightarrow> nodes \<Rightarrow> nodes" where
  "node_insert_after this item st =
     (let st1 = (case n_next st this of None \<Rightarrow> st | Some n \<Rightarrow> set_prev n (Some item) st);
          st2 = set_next item (n_next st1 this) st1;
          st3 = set_prev item (Some this) st2
      in set_next this (Some item) st3)"

definition node_insert_before :: "addr \<Rightarrow> addr \<Rightarrow> nodes \<Rightarrow> nodes" where
  "node_insert_before this item st =
     (let st1 = (case n_prev st this of None \<Rightarrow> st | Some p \<Rightarrow> set_next p (Some item) st);
          st2 = set_prev item (n_prev st1 this) st1;
          st3 = set_next item (Some this) st2
      in set_prev this (Some item) st3)"

definition node_remove :: "addr \<Rightarrow> nodes \<Rightarrow> nodes" where
  "node_remove this st =
     (let st1 = (case n_next st this of None \<Rightarrow> st | Some n \<Rightarrow> set_prev n (n_prev st this) st);
          st2 = (case n_prev st1 this of None \<Rightarrow> st1 | Some p \<Rightarrow> set_next p (n_next st1 this) st1)
      in set_next this None (set_prev this None st2))"

definition ll_new :: linked_list where
  "ll_new = \<lparr>l_head = None, l_tail = None, l_count = 0\<rparr>"

definition ll_move :: "linked_list \<Rightarrow> linked_list \<times> linked_list" where
  "ll_move other = (\<lparr>l_head = l_head other, l_tail = l_tail other, l_count = l_count other\<rparr>,
     other\<lparr>l_head := None, l_tail := None, l_count := 0\<rparr>)"

definition ll_empty :: "linked_list \<Rightarrow> bool" where
  "ll_empty l \<longleftrightarrow> l_head l = None"

definition ll_length :: "linked_list \<Rightarrow> u64" where
  "ll_length l = l_count l"

definition ll_front :: "linked_list \<Rightarrow> addr option" where
  "ll_front l = l_head l"

definition ll_back :: "linked_list \<Rightarrow> addr option" where
  "ll_back l = l_tail l"

text \<open>The loop of \<open>count_length\<close> along the next pointers; \<open>fuel\<close> bounds the number of nodes.\<close>

fun ll_walk :: "nat \<Rightarrow> nodes \<Rightarrow> addr option \<Rightarrow> addr list option" where
  "ll_walk fuel st None = Some []"
| "ll_walk 0 st (Some a) = None"
| "ll_walk (Suc fuel) st (Some a) = map_option ((#) a) (ll_walk fuel st (n_next st a))"

definition ll_count_length :: "nat \<Rightarrow> ll_state \<Rightarrow> (u64 \<times> ll_state) option" where
  "ll_count_length fuel sl =
     (case sl of (st, l) \<Rightarrow>
        case ll_walk fuel st (l_head l) of None \<Rightarrow> None
        | Some xs \<Rightarrow> Some (of_nat (length xs), st, l\<lparr>l_count := of_nat (length xs)\<rparr>))"

definition ll_push_front :: "addr option \<Rightarrow> ll_state \<Rightarrow> ll_state" where
  "ll_push_front item sl =
     (case (item, sl) of
        (None, _) \<Rightarrow> sl
      | (Some x, (st, l)) \<Rightarrow>
          (case l_head l of
             None \<Rightarrow> (set_next x None (set_prev x None st),
                      l\<lparr>l_head := Some x, l_tail := Some x, l_count := l_count l + 1\<rparr>)
           | Some h \<Rightarrow> (set_prev x None (set_next x (Some h) (set_prev h (Some x) st)),
                      l\<lparr>l_head := Some x, l_count := l_count l + 1\<rparr>)))"

definition ll_push_back :: "addr option \<Rightarrow> ll_state \<Rightarrow> ll_state" where
  "ll_push_back item sl =
     (case (item, sl) of
        (None, _) \<Rightarrow> sl
      | (Some x, (st, l)) \<Rightarrow>
          (case l_tail l of
             None \<Rightarrow> (set_next x None (set_prev x None st),
                      l\<lparr>l_head := Some x, l_tail := Some x, l_count := l_count l + 1\<rparr>)
           | Some t \<Rightarrow> (set_next x None (set_prev x (Some t) (set_next t (Some x) st)),
                      l\<lparr>l_tail := Some x, l_count := l_count l + 1\<rparr>)))"

definition ll_remove :: "addr option \<Rightarrow> ll_state \<Rightarrow> ll_state" where
  "ll_remove item sl =
     (case (item, sl) of
        (None, _) \<Rightarrow> sl
      | (Some x, (st, l)) \<Rightarrow>
          let l1 = (if l_head l = Some x then l\<lparr>l_head := n_next st x\<rparr> else l);
              l2 = (if l_tail l1 = Some x then l1\<lparr>l_tail := n_prev st x\<rparr> else l1)
          in (node_remove x st, l2\<lparr>l_count := l_count l2 - 1\<rparr>))"

definition ll_pop_front :: "ll_state \<Rightarrow> addr option \<times> ll_state" where
  "ll_pop_front sl = (let item = l_head (snd sl) in (item, ll_remove item sl))"

definition ll_pop_back :: "ll_state \<Rightarrow> addr option \<times> ll_state" where
  "ll_pop_back sl = (let item = l_tail (snd sl) in (item, ll_remove item sl))"

text \<open>Appending another list: the store, this list and the other list.\<close>

definition ll_append :: "nodes \<Rightarrow> linked_list \<Rightarrow> linked_list \<Rightarrow> nodes \<times> linked_list \<times> linked_list" where
  "ll_append st l other =
     (if l_head other = None then (st, l, other)
      else
        let (st1, l1) = (case l_tail l of
              None \<Rightarrow> (st, l\<lparr>l_head := l_head other, l_tail := l_tail other\<rparr>)
            | Some t \<Rightarrow> (set_next t (l_head other) st, l\<lparr>l_tail := l_tail other\<rparr>))
        in (st1, l1\<lparr>l_count := l_count l1 + l_count other\<rparr>,
            other\<lparr>l_count := 0, l_head := None, l_tail := None\<rparr>))"

definition ll_insert_before :: "addr option \<Rightarrow> addr option \<Rightarrow> ll_state \<Rightarrow> ll_state" where
  "ll_insert_before existing item sl =
     (case (item, sl) of
        (None, _) \<Rightarrow> sl
      | (Some x, (st, l)) \<Rightarrow>
          (case existing of
             None \<Rightarrow> ll_push_back item sl
           | Some e \<Rightarrow>
               if l_head l = Some e then ll_push_front item sl
               else (node_insert_before e x st, l\<lparr>l_count := l_count l + 1\<rparr>)))"

definition ll_insert_after :: "addr option \<Rightarrow> addr option \<Rightarrow> ll_state \<Rightarrow> ll_state" where
  "ll_insert_after existing item sl =
     (case (item, sl) of
        (None, _) \<Rightarrow> sl
      | (Some x, (st, l)) \<Rightarrow>
          (case existing of
             None \<Rightarrow> ll_push_front item sl
           | Some e \<Rightarrow>
               if l_tail l = Some e then ll_push_back item sl
               else (node_insert_after e x st, l\<lparr>l_count := l_count l + 1\<rparr>)))"

text \<open>
  The search loop of \<open>sorted_insert\<close>: the first node whose item is not smaller. \<open>compare\<close>
  is the method of the item type.
\<close>

fun ll_seek :: "nat \<Rightarrow> nodes \<Rightarrow> (addr \<Rightarrow> addr \<Rightarrow> int) \<Rightarrow> addr \<Rightarrow> addr option \<Rightarrow> addr option option" where
  "ll_seek fuel st compare item None = Some None"
| "ll_seek 0 st compare item (Some cur) = None"
| "ll_seek (Suc fuel) st compare item (Some cur) =
     (if compare item cur > 0 then ll_seek fuel st compare item (n_next st cur) else Some (Some cur))"

definition ll_sorted_insert :: "nat \<Rightarrow> (addr \<Rightarrow> addr \<Rightarrow> int) \<Rightarrow> addr option \<Rightarrow> ll_state \<Rightarrow> ll_state option" where
  "ll_sorted_insert fuel compare item sl =
     (case item of
        None \<Rightarrow> Some sl
      | Some x \<Rightarrow> map_option (\<lambda>cur. ll_insert_before cur item sl)
          (ll_seek fuel (fst sl) compare x (l_head (snd sl))))"

section \<open>Abstraction\<close>

text \<open>\<open>dseg st p xs n\<close>: the nodes of \<open>xs\<close> are linked both ways, between \<open>p\<close> and \<open>n\<close>.\<close>

definition first_or :: "addr list \<Rightarrow> addr option \<Rightarrow> addr option" where
  "first_or xs n = (case xs of [] \<Rightarrow> n | y # _ \<Rightarrow> Some y)"

definition last_or :: "addr option \<Rightarrow> addr list \<Rightarrow> addr option" where
  "last_or p xs = (if xs = [] then p else Some (last xs))"

fun dseg :: "nodes \<Rightarrow> addr option \<Rightarrow> addr list \<Rightarrow> addr option \<Rightarrow> bool" where
  "dseg st p [] n = True"
| "dseg st p (x # xs) n = (n_prev st x = p \<and> n_next st x = first_or xs n \<and> dseg st (Some x) xs n)"

definition ll_rep :: "ll_state \<Rightarrow> addr list \<Rightarrow> bool" where
  "ll_rep sl xs \<longleftrightarrow> (case sl of (st, l) \<Rightarrow>
     distinct xs \<and> dseg st None xs None \<and> l_head l = first_or xs None \<and> l_tail l = last_or None xs \<and>
     l_count l = of_nat (length xs))"

section \<open>Segments\<close>

lemma first_or_simps [simp]: "first_or [] n = n" "first_or (x # xs) n = Some x"
  by (simp_all add: first_or_def)

lemma last_or_simps [simp]: "last_or p [] = p" "last_or p (xs @ [x]) = Some x"
  by (simp_all add: last_or_def)

lemma last_or_Cons [simp]: "last_or p (x # xs) = last_or (Some x) xs"
  by (simp add: last_or_def)

lemma last_or_append [simp]: "last_or p (xs @ ys) = last_or (last_or p xs) ys"
  by (induction xs arbitrary: p) simp_all

lemma first_or_append [simp]: "first_or (xs @ ys) n = first_or xs (first_or ys n)"
  by (cases xs) simp_all

lemma first_or_eq_None [simp]: "first_or xs None = None \<longleftrightarrow> xs = []"
  by (cases xs) simp_all

lemma last_or_eq_None [simp]: "last_or None xs = None \<longleftrightarrow> xs = []"
  by (simp add: last_or_def)

lemma first_or_ne: "xs \<noteq> [] \<Longrightarrow> first_or xs n = Some (hd xs)"
  by (cases xs) simp_all

lemma first_or_SomeD: "first_or xs None = Some x \<Longrightarrow> \<exists>ys. xs = x # ys"
  by (cases xs) simp_all

lemma last_or_SomeD: "last_or None xs = Some x \<Longrightarrow> \<exists>ys. xs = ys @ [x]"
  by (cases xs rule: rev_cases) simp_all

lemma dseg_append [simp]:
  "dseg st p (xs @ ys) n \<longleftrightarrow> dseg st p xs (first_or ys n) \<and> dseg st (last_or p xs) ys n"
  by (induction xs arbitrary: p) auto

lemma set_links [simp]:
  "n_next (set_next a p st) = (n_next st)(a := p)" "n_prev (set_next a p st) = n_prev st"
  "n_prev (set_prev a p st) = (n_prev st)(a := p)" "n_next (set_prev a p st) = n_next st"
  by (simp_all add: set_next_def set_prev_def)

lemma dseg_cong:
  assumes "\<And>x. x \<in> set xs \<Longrightarrow> n_next st' x = n_next st x" "\<And>x. x \<in> set xs \<Longrightarrow> n_prev st' x = n_prev st x"
  shows "dseg st' p xs n = dseg st p xs n"
  using assms by (induction xs arbitrary: p) auto

lemma dseg_set_outside [simp]:
  "a \<notin> set xs \<Longrightarrow> dseg (set_next a q st) p xs n = dseg st p xs n"
  "a \<notin> set xs \<Longrightarrow> dseg (set_prev a q st) p xs n = dseg st p xs n"
  by (intro dseg_cong; auto)+

text \<open>The links at the two ends of a segment can be changed.\<close>

lemma dseg_new_prev:
  assumes "dseg st p (x # xs) n" "distinct (x # xs)"
  shows "dseg (set_prev x q st) q (x # xs) n"
  using assms by simp

lemma dseg_new_next:
  assumes "dseg st p (xs @ [x]) n" "distinct (xs @ [x])"
  shows "dseg (set_next x m st) p (xs @ [x]) m"
  using assms by simp

lemma ll_rep_empty: "ll_rep (st, ll_new) []"
  by (simp add: ll_rep_def ll_new_def)

lemma ll_rep_push_front:
  assumes "ll_rep (st, l) xs" "x \<notin> set xs"
  shows "ll_rep (ll_push_front (Some x) (st, l)) (x # xs)"
proof (cases xs)
  case Nil
  then show ?thesis using assms by (simp add: ll_rep_def ll_push_front_def)
next
  case (Cons y ys)
  then show ?thesis using assms by (auto simp: ll_rep_def ll_push_front_def)
qed

lemma ll_rep_push_back:
  assumes "ll_rep (st, l) xs" "x \<notin> set xs"
  shows "ll_rep (ll_push_back (Some x) (st, l)) (xs @ [x])"
proof (cases xs rule: rev_cases)
  case Nil
  then show ?thesis using assms by (simp add: ll_rep_def ll_push_back_def)
next
  case (snoc ys y)
  then show ?thesis using assms by (auto simp: ll_rep_def ll_push_back_def)
qed

lemma ll_rep_remove:
  assumes "ll_rep (st, l) (ys @ x # zs)"
  shows "ll_rep (ll_remove (Some x) (st, l)) (ys @ zs)"
proof -
  have d: "distinct (ys @ x # zs)" and links: "n_prev st x = last_or None ys" "n_next st x = first_or zs None"
    "dseg st None ys (Some x)" "dseg st (Some x) zs None"
    and hdr: "l_head l = first_or ys (Some x)" "l_tail l = last_or (Some x) zs"
      "l_count l = of_nat (length ys + length zs) + 1"
    using assms by (auto simp: ll_rep_def)
  define st' where "st' = node_remove x st"
  have st': "dseg st' None (ys @ zs) None"
  proof -
    have "dseg st' None ys (first_or zs None)"
    proof (cases ys rule: rev_cases)
      case (snoc us u)
      then show ?thesis using d links
        by (cases zs) (auto simp: st'_def node_remove_def)
    qed simp
    moreover have "dseg st' (last_or None ys) zs None"
    proof (cases zs)
      case (Cons v vs)
      then show ?thesis using d links
        by (cases ys rule: rev_cases) (auto simp: st'_def node_remove_def)
    qed simp
    ultimately show ?thesis by simp
  qed
  have "l_head l = Some x \<longleftrightarrow> ys = []" using hdr(1) d by (cases ys) auto
  moreover have "l_tail l = Some x \<longleftrightarrow> zs = []" using hdr(2) d by (cases zs rule: rev_cases) auto
  ultimately show ?thesis
    using st' d links hdr by (auto simp: ll_rep_def ll_remove_def st'_def [symmetric] Let_def last_or_def first_or_ne)
qed


lemma ll_rep_pop_front:
  assumes "ll_rep sl xs"
  shows "ll_pop_front sl = (first_or xs None, ll_remove (first_or xs None) sl)"
    "ll_rep (snd (ll_pop_front sl)) (tl xs)"
proof -
  obtain st l where sl: "sl = (st, l)" by (cases sl)
  show 1: "ll_pop_front sl = (first_or xs None, ll_remove (first_or xs None) sl)"
    using assms by (simp add: sl ll_pop_front_def ll_rep_def Let_def)
  show "ll_rep (snd (ll_pop_front sl)) (tl xs)"
  proof (cases xs)
    case Nil
    then show ?thesis using assms 1 by (simp add: ll_remove_def)
  next
    case (Cons y ys)
    then show ?thesis using ll_rep_remove [of st l "[]" y ys] assms 1 by (simp add: sl)
  qed
qed

lemma ll_rep_pop_back:
  assumes "ll_rep sl xs"
  shows "ll_pop_back sl = (last_or None xs, ll_remove (last_or None xs) sl)"
    "ll_rep (snd (ll_pop_back sl)) (butlast xs)"
proof -
  obtain st l where sl: "sl = (st, l)" by (cases sl)
  show 1: "ll_pop_back sl = (last_or None xs, ll_remove (last_or None xs) sl)"
    using assms by (simp add: sl ll_pop_back_def ll_rep_def Let_def)
  show "ll_rep (snd (ll_pop_back sl)) (butlast xs)"
  proof (cases xs rule: rev_cases)
    case Nil
    then show ?thesis using assms 1 by (simp add: ll_remove_def)
  next
    case (snoc ys y)
    then show ?thesis using ll_rep_remove [of st l ys y "[]"] assms 1 by (simp add: sl)
  qed
qed

lemma ll_rep_insert_before:
  assumes "ll_rep (st, l) (ys @ zs)" "x \<notin> set (ys @ zs)"
  shows "ll_rep (ll_insert_before (first_or zs None) (Some x) (st, l)) (ys @ x # zs)"
proof (cases zs)
  case Nil
  then show ?thesis using assms ll_rep_push_back [of st l ys x] by (simp add: ll_insert_before_def)
next
  case (Cons e vs)
  show ?thesis
  proof (cases ys rule: rev_cases)
    case Nil
    then show ?thesis using assms ll_rep_push_front [of st l zs x] Cons
      by (simp add: ll_insert_before_def ll_rep_def)
  next
    case (snoc us u)
    then have "l_head l \<noteq> Some e" using assms(1) Cons by (cases us) (auto simp: ll_rep_def)
    then show ?thesis using assms Cons snoc
      by (auto simp: ll_insert_before_def ll_rep_def node_insert_before_def Let_def)
  qed
qed

lemma ll_rep_insert_after:
  assumes "ll_rep (st, l) (ys @ zs)" "x \<notin> set (ys @ zs)"
  shows "ll_rep (ll_insert_after (last_or None ys) (Some x) (st, l)) (ys @ x # zs)"
proof (cases ys rule: rev_cases)
  case Nil
  then show ?thesis using assms ll_rep_push_front [of st l zs x] by (simp add: ll_insert_after_def)
next
  case (snoc us e)
  show ?thesis
  proof (cases zs)
    case Nil
    then show ?thesis using assms ll_rep_push_back [of st l ys x] snoc
      by (simp add: ll_insert_after_def ll_rep_def)
  next
    case (Cons v vs)
    then have "l_tail l \<noteq> Some e" using assms(1) snoc by (auto simp: ll_rep_def last_or_def split: if_splits)
    then show ?thesis using assms Cons snoc
      by (auto simp: ll_insert_after_def ll_rep_def node_insert_after_def Let_def)
  qed
qed

lemma ll_seek_dropWhile:
  "dseg st p xs None \<Longrightarrow> length xs \<le> fuel \<Longrightarrow>
     ll_seek fuel st compare item (first_or xs None) =
       Some (first_or (dropWhile (\<lambda>c. compare item c > 0) xs) None)"
proof (induction xs arbitrary: p fuel)
  case (Cons a xs)
  then show ?case by (cases fuel) auto
qed simp

lemma ll_rep_sorted_insert:
  assumes "ll_rep (st, l) xs" "x \<notin> set xs" "length xs \<le> fuel"
  obtains sl' where "ll_sorted_insert fuel compare (Some x) (st, l) = Some sl'"
    "ll_rep sl' (takeWhile (\<lambda>c. compare x c > 0) xs @ x # dropWhile (\<lambda>c. compare x c > 0) xs)"
proof -
  have "l_head l = first_or xs None" "dseg st None xs None" using assms(1) by (simp_all add: ll_rep_def)
  with ll_seek_dropWhile [OF this(2) assms(3), of compare x] ll_rep_insert_before [of st l
      "takeWhile (\<lambda>c. compare x c > 0) xs" "dropWhile (\<lambda>c. compare x c > 0) xs" x] assms(1,2) that show thesis
    by (simp add: ll_sorted_insert_def)
qed

lemma ll_walk_rep: "dseg st p xs None \<Longrightarrow> length xs \<le> fuel \<Longrightarrow> ll_walk fuel st (first_or xs None) = Some xs"
proof (induction xs arbitrary: p fuel)
  case (Cons a xs)
  then show ?case by (cases fuel) auto
qed simp

lemma ll_count_length_rep:
  assumes "ll_rep (st, l) xs" "length xs \<le> fuel"
  shows "ll_count_length fuel (st, l) = Some (l_count l, st, l)"
  using assms ll_walk_rep [of st None xs fuel] by (simp add: ll_count_length_def ll_rep_def)

text \<open>Forward links only.\<close>

fun fseg :: "nodes \<Rightarrow> addr list \<Rightarrow> addr option \<Rightarrow> bool" where
  "fseg st [] n = True"
| "fseg st (x # xs) n = (n_next st x = first_or xs n \<and> fseg st xs n)"

lemma fseg_append [simp]: "fseg st (xs @ ys) n \<longleftrightarrow> fseg st xs (first_or ys n) \<and> fseg st ys n"
  by (induction xs) auto

lemma dseg_fseg: "dseg st p xs n \<Longrightarrow> fseg st xs n"
  by (induction xs arbitrary: p) auto

lemma fseg_set_next_outside [simp]: "a \<notin> set xs \<Longrightarrow> fseg (set_next a q st) xs n = fseg st xs n"
  by (induction xs) auto

lemma fseg_walk: "fseg st xs None \<Longrightarrow> length xs \<le> fuel \<Longrightarrow> ll_walk fuel st (first_or xs None) = Some xs"
proof (induction xs arbitrary: fuel)
  case (Cons a xs)
  then show ?case by (cases fuel) auto
qed simp

lemma ll_append_forward:
  assumes "ll_rep (st, l) xs" "ll_rep (st, other) ys" "set xs \<inter> set ys = {}" "xs \<noteq> []" "ys \<noteq> []"
    and "ll_append st l other = (st', l', other')"
  shows "fseg st' (xs @ ys) None" "l_head l' = Some (hd xs)" "l_tail l' = Some (last ys)"
    "l_count l' = of_nat (length (xs @ ys))" "ll_rep (st', other') []" "n_prev st' (hd ys) = None"
proof -
  obtain us u where xs: "xs = us @ [u]" using assms(4) by (cases xs rule: rev_cases) auto
  obtain v vs where ys: "ys = v # vs" using assms(5) by (cases ys) auto
  have st': "st' = set_next u (Some v) st" "l' = l\<lparr>l_tail := l_tail other, l_count := l_count l + l_count other\<rparr>"
    "other' = other\<lparr>l_count := 0, l_head := None, l_tail := None\<rparr>"
    using assms(1,2,6) by (auto simp: ll_append_def ll_rep_def xs ys)
  show "fseg st' (xs @ ys) None"
    using assms(1,2,3) by (auto simp: st' xs ys ll_rep_def dest!: dseg_fseg)
  show "l_head l' = Some (hd xs)" using assms(1,4) by (simp add: st' ll_rep_def first_or_ne)
  show "l_tail l' = Some (last ys)" using assms(2,5) by (simp add: st' ll_rep_def last_or_def)
  show "l_count l' = of_nat (length (xs @ ys))" using assms(1,2) by (simp add: st' ll_rep_def)
  show "ll_rep (st', other') []" by (simp add: st' ll_rep_def)
  show "n_prev st' (hd ys) = None" using assms(2) by (simp add: st' ys ll_rep_def)
qed

section \<open>Operations as list operations\<close>

lemma ll_rep_remove1:
  assumes "ll_rep (st, l) xs" "x \<in> set xs"
  shows "ll_rep (ll_remove (Some x) (st, l)) (remove1 x xs)"
proof -
  obtain ys zs where xs: "xs = ys @ x # zs" "x \<notin> set ys" using assms(2) by (metis split_list_first)
  then show ?thesis using ll_rep_remove [of st l ys x zs] assms(1) by (simp add: remove1_append)
qed

datatype list_op =
    Push_front addr
  | Push_back addr
  | Pop_front
  | Pop_back
  | Remove addr
  | Insert_before "addr option" addr
  | Insert_after "addr option" addr
  | Sorted_insert addr
  | Front
  | Back
  | Is_empty
  | Length
  | Count_length
  | Move

text \<open>What an operation returns. \<open>Move\<close> goes on with the list that was moved to, and returns whether the other one is empty.\<close>

datatype list_out = No_out | Item "addr option" | Flag bool | Number u64

fun ll_exec :: "nat \<Rightarrow> (addr \<Rightarrow> addr \<Rightarrow> int) \<Rightarrow> list_op \<Rightarrow> ll_state \<Rightarrow> (list_out \<times> ll_state) option" where
  "ll_exec fuel compare (Push_front x) sl = Some (No_out, ll_push_front (Some x) sl)"
| "ll_exec fuel compare (Push_back x) sl = Some (No_out, ll_push_back (Some x) sl)"
| "ll_exec fuel compare Pop_front sl = Some (Item (fst (ll_pop_front sl)), snd (ll_pop_front sl))"
| "ll_exec fuel compare Pop_back sl = Some (Item (fst (ll_pop_back sl)), snd (ll_pop_back sl))"
| "ll_exec fuel compare (Remove x) sl = Some (No_out, ll_remove (Some x) sl)"
| "ll_exec fuel compare (Insert_before e x) sl = Some (No_out, ll_insert_before e (Some x) sl)"
| "ll_exec fuel compare (Insert_after e x) sl = Some (No_out, ll_insert_after e (Some x) sl)"
| "ll_exec fuel compare (Sorted_insert x) sl = map_option (Pair No_out) (ll_sorted_insert fuel compare (Some x) sl)"
| "ll_exec fuel compare Front sl = Some (Item (ll_front (snd sl)), sl)"
| "ll_exec fuel compare Back sl = Some (Item (ll_back (snd sl)), sl)"
| "ll_exec fuel compare Is_empty sl = Some (Flag (ll_empty (snd sl)), sl)"
| "ll_exec fuel compare Length sl = Some (Number (ll_length (snd sl)), sl)"
| "ll_exec fuel compare Count_length sl = map_option (\<lambda>(n, sl). (Number n, sl)) (ll_count_length fuel sl)"
| "ll_exec fuel compare Move sl = (case ll_move (snd sl) of (l, other) \<Rightarrow> Some (Flag (ll_empty other), fst sl, l))"

fun list_spec :: "(addr \<Rightarrow> addr \<Rightarrow> int) \<Rightarrow> list_op \<Rightarrow> addr list \<Rightarrow> list_out \<times> addr list" where
  "list_spec compare (Push_front x) xs = (No_out, x # xs)"
| "list_spec compare (Push_back x) xs = (No_out, xs @ [x])"
| "list_spec compare Pop_front xs = (Item (if xs = [] then None else Some (hd xs)), tl xs)"
| "list_spec compare Pop_back xs = (Item (if xs = [] then None else Some (last xs)), butlast xs)"
| "list_spec compare (Remove x) xs = (No_out, remove1 x xs)"
| "list_spec compare (Insert_before None x) xs = (No_out, xs @ [x])"
| "list_spec compare (Insert_before (Some e) x) xs = (No_out, takeWhile (\<lambda>y. y \<noteq> e) xs @ x # dropWhile (\<lambda>y. y \<noteq> e) xs)"
| "list_spec compare (Insert_after None x) xs = (No_out, x # xs)"
| "list_spec compare (Insert_after (Some e) x) xs = (No_out, takeWhile (\<lambda>y. y \<noteq> e) xs @ e # x # tl (dropWhile (\<lambda>y. y \<noteq> e) xs))"
| "list_spec compare (Sorted_insert x) xs = (No_out, takeWhile (\<lambda>c. compare x c > 0) xs @ x # dropWhile (\<lambda>c. compare x c > 0) xs)"
| "list_spec compare Front xs = (Item (if xs = [] then None else Some (hd xs)), xs)"
| "list_spec compare Back xs = (Item (if xs = [] then None else Some (last xs)), xs)"
| "list_spec compare Is_empty xs = (Flag (xs = []), xs)"
| "list_spec compare Length xs = (Number (of_nat (length xs)), xs)"
| "list_spec compare Count_length xs = (Number (of_nat (length xs)), xs)"
| "list_spec compare Move xs = (Flag True, xs)"

text \<open>New items must not be in the list yet, items to remove or to insert at must be in it.\<close>

fun list_op_ok :: "list_op \<Rightarrow> addr list \<Rightarrow> bool" where
  "list_op_ok (Push_front x) xs \<longleftrightarrow> x \<notin> set xs"
| "list_op_ok (Push_back x) xs \<longleftrightarrow> x \<notin> set xs"
| "list_op_ok (Remove x) xs \<longleftrightarrow> x \<in> set xs"
| "list_op_ok (Insert_before e x) xs \<longleftrightarrow> x \<notin> set xs \<and> set_option e \<subseteq> set xs"
| "list_op_ok (Insert_after e x) xs \<longleftrightarrow> x \<notin> set xs \<and> set_option e \<subseteq> set xs"
| "list_op_ok (Sorted_insert x) xs \<longleftrightarrow> x \<notin> set xs"
| "list_op_ok _ xs \<longleftrightarrow> True"

fun ll_run :: "nat \<Rightarrow> (addr \<Rightarrow> addr \<Rightarrow> int) \<Rightarrow> list_op list \<Rightarrow> ll_state \<Rightarrow> (list_out list \<times> ll_state) option" where
  "ll_run fuel compare [] sl = Some ([], sl)"
| "ll_run fuel compare (c # cs) sl = (case ll_exec fuel compare c sl of None \<Rightarrow> None
     | Some (r, sl) \<Rightarrow> map_option (\<lambda>(rs, sl). (r # rs, sl)) (ll_run fuel compare cs sl))"

fun list_run :: "(addr \<Rightarrow> addr \<Rightarrow> int) \<Rightarrow> list_op list \<Rightarrow> addr list \<Rightarrow> list_out list \<times> addr list" where
  "list_run compare [] xs = ([], xs)"
| "list_run compare (c # cs) xs = (case list_spec compare c xs of (r, xs) \<Rightarrow> (case list_run compare cs xs of (rs, xs) \<Rightarrow> (r # rs, xs)))"

fun list_ops_ok :: "(addr \<Rightarrow> addr \<Rightarrow> int) \<Rightarrow> list_op list \<Rightarrow> addr list \<Rightarrow> bool" where
  "list_ops_ok compare [] xs \<longleftrightarrow> True"
| "list_ops_ok compare (c # cs) xs \<longleftrightarrow> list_op_ok c xs \<and> list_ops_ok compare cs (snd (list_spec compare c xs))"

lemma split_at:
  assumes "e \<in> set xs"
  shows "\<exists>vs. dropWhile (\<lambda>y. y \<noteq> e) xs = e # vs \<and> xs = takeWhile (\<lambda>y. y \<noteq> e) xs @ e # vs"
  using assms by (induction xs) auto

lemma split_length: "length (takeWhile P xs) + length (dropWhile P xs) = length xs"
  by (induction xs) auto

lemma list_spec_length:
  assumes "list_op_ok c xs"
  shows "length (snd (list_spec compare c xs)) \<le> Suc (length xs)"
proof (cases c)
  case (Insert_before e x)
  then show ?thesis using split_length [of "\<lambda>y. y \<noteq> the e" xs] by (cases e) auto
next
  case (Insert_after e x)
  then show ?thesis using split_length [of "\<lambda>y. y \<noteq> the e" xs] assms split_at [of "the e" xs] by (cases e) auto
next
  case (Sorted_insert x)
  then show ?thesis using split_length [of "\<lambda>c. compare x c > 0" xs] by auto
qed (auto simp: length_remove1)

lemma ll_exec_refines:
  assumes "ll_rep sl xs" "list_op_ok c xs" "length xs \<le> fuel"
  shows "\<exists>sl'. ll_exec fuel compare c sl = Some (fst (list_spec compare c xs), sl') \<and> ll_rep sl' (snd (list_spec compare c xs))"
proof -
  obtain st l where sl: "sl = (st, l)" by (cases sl)
  note rep = assms(1) [unfolded sl]
  have ends: "l_head l = first_or xs None" "l_tail l = last_or None xs" "l_count l = of_nat (length xs)" using rep by (simp_all add: ll_rep_def)
  show ?thesis
  proof (cases c)
    case (Insert_before e x)
    show ?thesis
    proof (cases e)
      case None
      then show ?thesis using assms(2) ll_rep_insert_before [of st l xs "[]" x] rep
        by (simp add: Insert_before sl)
    next
      case (Some a)
      then obtain vs where vs: "dropWhile (\<lambda>y. y \<noteq> a) xs = a # vs" "xs = takeWhile (\<lambda>y. y \<noteq> a) xs @ a # vs"
        using split_at [of a xs] assms(2) by (auto simp: Insert_before)
      then show ?thesis using Some assms(2) rep
          ll_rep_insert_before [of st l "takeWhile (\<lambda>y. y \<noteq> a) xs" "a # vs" x]
        by (simp add: Insert_before sl)
    qed
  next
    case (Insert_after e x)
    show ?thesis
    proof (cases e)
      case None
      then show ?thesis using assms(2) ll_rep_insert_after [of st l "[]" xs x] rep
        by (simp add: Insert_after sl)
    next
      case (Some a)
      then obtain vs where vs: "dropWhile (\<lambda>y. y \<noteq> a) xs = a # vs" "xs = takeWhile (\<lambda>y. y \<noteq> a) xs @ a # vs"
        using split_at [of a xs] assms(2) by (auto simp: Insert_after)
      then show ?thesis using Some assms(2) rep
          ll_rep_insert_after [of st l "takeWhile (\<lambda>y. y \<noteq> a) xs @ [a]" vs x]
        by (simp add: Insert_after sl)
    qed
  next
    case (Sorted_insert x)
    obtain sl' where "ll_sorted_insert fuel compare (Some x) (st, l) = Some sl'"
        "ll_rep sl' (takeWhile (\<lambda>c. compare x c > 0) xs @ x # dropWhile (\<lambda>c. compare x c > 0) xs)"
      using ll_rep_sorted_insert [OF rep _ assms(3), of x compare] assms(2) Sorted_insert by auto
    then show ?thesis by (simp add: Sorted_insert sl)
  next
    case Count_length
    then show ?thesis using ll_count_length_rep [OF rep assms(3)] rep ends(3) by (simp add: sl)
  next
    case Pop_front
    then show ?thesis using ll_rep_pop_front [OF rep] by (cases xs) (simp_all add: sl)
  next
    case Pop_back
    then show ?thesis using ll_rep_pop_back [OF rep] by (cases xs rule: rev_cases) (simp_all add: sl)
  next
    case Front
    then show ?thesis using rep ends by (cases xs) (simp_all add: sl ll_front_def)
  next
    case Back
    then show ?thesis using rep ends by (cases xs rule: rev_cases) (simp_all add: sl ll_back_def)
  next
    case Is_empty
    then show ?thesis using rep ends by (cases xs) (simp_all add: sl ll_empty_def)
  next
    case Move
    then show ?thesis using rep by (simp add: sl ll_move_def ll_empty_def ll_rep_def)
  qed (use assms(2) rep ends in \<open>simp_all add: sl ll_rep_push_front ll_rep_push_back ll_rep_remove1 ll_length_def\<close>)
qed

lemma ll_run_refines:
  "ll_rep sl xs \<Longrightarrow> list_ops_ok compare cs xs \<Longrightarrow> length xs + length cs \<le> fuel \<Longrightarrow>
   \<exists>sl'. ll_run fuel compare cs sl = Some (fst (list_run compare cs xs), sl') \<and> ll_rep sl' (snd (list_run compare cs xs))"
proof (induction cs arbitrary: sl xs)
  case (Cons c cs)
  obtain sl1 where s: "ll_exec fuel compare c sl = Some (fst (list_spec compare c xs), sl1)" "ll_rep sl1 (snd (list_spec compare c xs))"
    using ll_exec_refines [OF Cons.prems(1), of c fuel compare] Cons.prems(2,3) by auto
  have "length (snd (list_spec compare c xs)) + length cs \<le> fuel" using list_spec_length [of c xs compare] Cons.prems(2,3) by simp
  from Cons.IH [OF s(2) _ this] Cons.prems(2) s(1) show ?case by (auto split: prod.splits)
qed simp

section \<open>The interface of a queue of nodes\<close>

locale node_queue =
  fixes rep :: "'s \<Rightarrow> addr list \<Rightarrow> bool" and push_back :: "addr \<Rightarrow> 's \<Rightarrow> 's"
    and pop_front :: "'s \<Rightarrow> addr option \<times> 's" and remove :: "addr \<Rightarrow> 's \<Rightarrow> 's"
  assumes push_back_law: "rep s xs \<Longrightarrow> x \<notin> set xs \<Longrightarrow> rep (push_back x s) (xs @ [x])"
    and pop_front_law: "rep s xs \<Longrightarrow> fst (pop_front s) = (if xs = [] then None else Some (hd xs)) \<and>
      rep (snd (pop_front s)) (tl xs)"
    and remove_law: "rep s xs \<Longrightarrow> x \<in> set xs \<Longrightarrow> rep (remove x s) (remove1 x xs)"
    and rep_distinct: "rep s xs \<Longrightarrow> distinct xs"
begin

lemma push_all: "rep s xs \<Longrightarrow> distinct (xs @ ys) \<Longrightarrow> rep (fold push_back ys s) (xs @ ys)"
proof (induction ys arbitrary: s xs)
  case (Cons y ys)
  then have "rep (push_back y s) (xs @ [y])" by (intro push_back_law) auto
  from Cons.IH [OF this] Cons.prems(2) show ?case by simp
qed simp

text \<open>Moving the head of the queue to its end rotates the queue.\<close>

lemma requeue:
  assumes "rep s (x # xs)"
  shows "rep (push_back x (snd (pop_front s))) (xs @ [x])"
proof -
  have "rep (snd (pop_front s)) xs" using pop_front_law [OF assms] by simp
  moreover have "x \<notin> set xs" using rep_distinct [OF assms] by simp
  ultimately show ?thesis by (rule push_back_law)
qed

lemma requeue_round: "rep s (xs @ ys) \<Longrightarrow> rep (fold (\<lambda>x s. push_back x (snd (pop_front s))) xs s) (ys @ xs)"
proof (induction xs arbitrary: s ys)
  case (Cons x xs)
  then have "rep (push_back x (snd (pop_front s))) (xs @ ys @ [x])" using requeue [of s x "xs @ ys"] by simp
  from Cons.IH [OF this] show ?case by simp
qed simp

end

interpretation ll: node_queue ll_rep "\<lambda>x. ll_push_back (Some x)" ll_pop_front "\<lambda>x. ll_remove (Some x)"
proof unfold_locales
  fix s :: ll_state and xs x
  obtain st l where sl: "s = (st, l)" by (cases s)
  show "ll_rep (ll_push_back (Some x) s) (xs @ [x])" if "ll_rep s xs" "x \<notin> set xs"
    using that ll_rep_push_back by (simp add: sl)
  show "fst (ll_pop_front s) = (if xs = [] then None else Some (hd xs)) \<and> ll_rep (snd (ll_pop_front s)) (tl xs)"
    if "ll_rep s xs" using ll_rep_pop_front [OF that] by (cases xs) simp_all
  show "ll_rep (ll_remove (Some x) s) (remove1 x xs)" if "ll_rep s xs" "x \<in> set xs"
    using that ll_rep_remove1 by (simp add: sl)
  show "distinct xs" if "ll_rep s xs" using that by (simp add: sl ll_rep_def)
qed

definition ll_example :: ll_state where
  "ll_example = fold (\<lambda>x. ll_push_back (Some x)) [1, 2, 3] (\<lparr>n_next = (\<lambda>_. Some 9), n_prev = (\<lambda>_. Some 9)\<rparr>, ll_new)"

lemma ll_example_rep: "ll_rep ll_example [1, 2, 3]"
  unfolding ll_example_def using ll.push_all [OF ll_rep_empty, of "[1, 2, 3]"] by simp

section \<open>Properties\<close>

text \<open>C34. Refinement: on the nodes of any well-formed list, every sequence of list operations other than \<open>append\<close> (whose arguments are in
  or out of the list as the operation needs) returns what the same operations on the mathematical list return, terminates within as many
  steps as there can be nodes, and leaves the linked nodes standing for the resulting list: all next and previous pointers, the head, the
  tail and the count.\<close>

theorem linked_list_refines:
  assumes "ll_rep sl xs" "list_ops_ok compare cs xs" "length xs + length cs \<le> fuel"
  shows "\<exists>sl'. ll_run fuel compare cs sl = Some (fst (list_run compare cs xs), sl') \<and> ll_rep sl' (snd (list_run compare cs xs))"
  using assms by (rule ll_run_refines)

theorem linked_list_refines_witness:
  "\<exists>sl'. ll_run 20 (\<lambda>a b. int a - int b) [Insert_before (Some 2) 7, Remove 1, Push_front 8, Pop_back, Move, Sorted_insert 5, Length] ll_example =
     Some ([No_out, No_out, No_out, Item (Some 3), Flag True, No_out, Number 4], sl') \<and> ll_rep sl' [5, 8, 7, 2]"
  using linked_list_refines [OF ll_example_rep, of "\<lambda>a b. int a - int b"
      "[Insert_before (Some 2) 7, Remove 1, Push_front 8, Pop_back, Move, Sorted_insert 5, Length]" 20]
  by simp

text \<open>C35. \<open>sorted_insert\<close> terminates on every well-formed list, and when \<open>compare\<close> is the comparison
  of a key, inserting into a sorted list gives the sorted list with the item in it, in front of items
  with the same key.\<close>

theorem linked_list_sorted_insert:
  fixes key :: "addr \<Rightarrow> 'k::linorder"
  assumes "ll_rep sl xs" "x \<notin> set xs" "sorted (map key xs)" "\<And>a b. compare a b > 0 \<longleftrightarrow> key a > key b"
    and "length xs \<le> fuel"
  shows "\<exists>sl' ys zs. ll_sorted_insert fuel compare (Some x) sl = Some sl' \<and> xs = ys @ zs \<and>
     ll_rep sl' (ys @ x # zs) \<and> sorted (map key (ys @ x # zs)) \<and> (\<forall>y\<in>set ys. key y < key x)"
proof -
  obtain st l where sl: "sl = (st, l)" by (cases sl)
  let ?ys = "takeWhile (\<lambda>c. compare x c > 0) xs" and ?zs = "dropWhile (\<lambda>c. compare x c > 0) xs"
  obtain sl' where "ll_sorted_insert fuel compare (Some x) (st, l) = Some sl'" "ll_rep sl' (?ys @ x # ?zs)"
    using ll_rep_sorted_insert [OF assms(1) [unfolded sl] assms(2,5)] by blast
  moreover have ys: "\<forall>y\<in>set ?ys. key y < key x" using assms(4) by (auto dest: set_takeWhileD)
  moreover have "sorted (map key (?ys @ x # ?zs))"
  proof -
    have s: "sorted (map key ?ys @ map key ?zs)" using assms(3) by (simp flip: map_append)
    have "\<forall>z\<in>set ?zs. key x \<le> key z"
    proof (cases ?zs)
      case Nil
      then show ?thesis by (simp only: list.set empty_iff ball_simps)
    next
      case (Cons z zs)
      then have "\<not> compare x z > 0" by (metis hd_dropWhile list.distinct(1) list.sel(1))
      then have "key x \<le> key z" using assms(4) by (simp add: not_less)
      moreover have "sorted (map key (z # zs))" using s unfolding Cons by (simp add: sorted_append)
      ultimately show ?thesis unfolding Cons by auto
    qed
    with s ys show ?thesis by (fastforce simp: sorted_append)
  qed
  ultimately show ?thesis using sl takeWhile_dropWhile_id [of _ xs] by metis
qed

theorem linked_list_sorted_insert_witness:
  "\<exists>sl'. ll_sorted_insert 3 (\<lambda>a b. int (a mod 7) - int (b mod 7)) (Some 9) ll_example = Some sl' \<and> ll_rep sl' [1, 9, 2, 3]"
proof -
  obtain sl' ys zs where s: "ll_sorted_insert 3 (\<lambda>a b. int (a mod 7) - int (b mod 7)) (Some 9) ll_example = Some sl'"
      "[1, 2, 3] = ys @ zs" "ll_rep sl' (ys @ 9 # zs)" "sorted (map (\<lambda>a. a mod 7) (ys @ 9 # zs))"
      "\<forall>y\<in>set ys. y mod 7 < 9 mod 7"
    using linked_list_sorted_insert [OF ll_example_rep, of 9 "\<lambda>a. a mod 7" "\<lambda>a b. int (a mod 7) - int (b mod 7)" 3] by auto
  then have "ys = [1]" by (auto simp: Cons_eq_append_conv)
  with s show ?thesis by auto
qed

text \<open>\<open>append\<close> links the two lists in the forward direction and adds up the counts, but leaves
  the previous pointer of the first appended node null. Removing that node then does not unlink
  it: the node before it still points to it.\<close>

theorem linked_list_append_forward_only:
  assumes "ll_rep (st, l) xs" "ll_rep (st, other) ys" "set xs \<inter> set ys = {}" "xs \<noteq> []" "ys \<noteq> []"
    and "ll_append st l other = (st', l', other')"
  shows "ll_walk (length xs + length ys) st' (l_head l') = Some (xs @ ys) \<and>
     l_count l' = of_nat (length (xs @ ys)) \<and> ll_rep (st', other') [] \<and> n_prev st' (hd ys) = None \<and>
     n_next (fst (ll_remove (Some (hd ys)) (st', l'))) (last xs) = Some (hd ys)"
proof -
  note a = ll_append_forward [OF assms]
  have "n_next st' (last xs) = Some (hd ys)" using assms(4,5) a(1)
    by (cases xs rule: rev_cases) (auto simp: first_or_ne)
  moreover have "last xs \<noteq> hd ys" using assms(3,4,5) by (metis IntI emptyE hd_in_set last_in_set)
  ultimately have "n_next (fst (ll_remove (Some (hd ys)) (st', l'))) (last xs) = Some (hd ys)"
    using a(6) by (simp add: ll_remove_def node_remove_def Let_def split: option.splits)
  moreover have "ll_walk (length xs + length ys) st' (l_head l') = Some (xs @ ys)"
    using fseg_walk [OF a(1)] a(2) assms(4) by (simp add: first_or_ne)
  ultimately show ?thesis using a by blast
qed

theorem linked_list_append_forward_only_witness:
  "let st = set_next 5 None (set_prev 5 None (fst ll_example));
       other = \<lparr>l_head = Some 5, l_tail = Some 5, l_count = 1\<rparr>;
       (st', l', other') = ll_append st (snd ll_example) other
   in ll_walk 4 st' (l_head l') = Some [1, 2, 3, 5] \<and> n_prev st' 5 = None"
proof -
  define st where "st = set_next 5 None (set_prev 5 None (fst ll_example))"
  define other where "other = \<lparr>l_head = Some 5, l_tail = Some 5, l_count = (1 :: u64)\<rparr>"
  have 1: "ll_rep (st, snd ll_example) [1, 2, 3]"
    using ll_example_rep by (simp add: ll_rep_def st_def split_beta)
  have 2: "ll_rep (st, other) [5]" by (simp add: ll_rep_def st_def other_def)
  obtain st' l' other' where a: "ll_append st (snd ll_example) other = (st', l', other')" by (metis prod_cases3)
  have "ll_walk 4 st' (l_head l') = Some [1, 2, 3, 5] \<and> n_prev st' 5 = None"
    using linked_list_append_forward_only [OF 1 2 _ _ _ a] by (simp add: numeral_eq_Suc del: ll_walk.simps)
  then show ?thesis using a by (simp add: st_def other_def Let_def del: ll_walk.simps)
qed

end
