(* ===== verification/Util_Basics.thy ===== *)
theory Util_Basics
  imports J6_Prelude
begin

text \<open>
  The arithmetic helpers of \<open>src/src/libraries/util\<close>: powers of two and logarithms
  (\<open>util.h\<close>), byte order and checksums (\<open>misc.h\<close>), hashes (\<open>hash.h\<close>), the random
  number generator (\<open>xoroshiro.cpp\<close>), bit sets (\<open>bitset.h\<close>) and counted pointers
  (\<open>counted.h\<close>).
\<close>

section \<open>Logarithms and byte order\<close>

function const_log2 :: "nat \<Rightarrow> nat" where
  "const_log2 n = (if n < 2 then 0 else 1 + const_log2 (n div 2))"
  by auto
termination by (relation "measure id") auto

declare const_log2.simps [simp del]

definition is_pow2 :: "u64 \<Rightarrow> bool" where
  "is_pow2 n \<longleftrightarrow> n AND (n - 1) = 0"

definition log2 :: "u64 \<Rightarrow> nat" where
  "log2 i = (if i < 2 then 0 else 64 - clz (i - 1))"

definition byteswap32 :: "u32 \<Rightarrow> u32" where
  "byteswap32 x =
     (drop_bit 24 x AND 0x000000ff) OR (drop_bit 8 x AND 0x0000ff00) OR
     (push_bit 8 x AND 0x00ff0000) OR (push_bit 24 x AND 0xff000000)"

text \<open>The bytes summed are those at the indices \<open>off\<close> to \<open>len - 1\<close>, which have to exist.\<close>

definition checksum :: "u8 list \<Rightarrow> nat \<Rightarrow> nat \<Rightarrow> u8 res" where
  "checksum p len off =
     (if off < len \<and> length p < len then Inl Out_of_bounds
      else Inr (foldl (\<lambda>sum i. sum + p ! i) 0 [off..<len]))"

section \<open>Hashes\<close>

text \<open>
  A C string is the list of its bytes, up to the first zero byte if there is one. \<open>char\<close> is
  signed on amd64, so its conversion to an unsigned type extends the sign.
\<close>

definition fnv1a_val_32 :: u32 where "fnv1a_val_32 = 0x811c9dc5"
definition fnv1a_prime_32 :: u32 where "fnv1a_prime_32 = 0x1000193"
definition fnv1a_val_64 :: u64 where "fnv1a_val_64 = 0xcbf29ce484222325"
definition fnv1a_prime_64 :: u64 where "fnv1a_prime_64 = 0x100000001b3"

fun hash32_const :: "u8 list \<Rightarrow> u32 \<Rightarrow> u32" where
  "hash32_const [] v = v"
| "hash32_const (c # str) v =
     (if c = 0 then v else hash32_const str ((v XOR scast c) * fnv1a_prime_32))"

fun hash64_const :: "u8 list \<Rightarrow> u64 \<Rightarrow> u64" where
  "hash64_const [] v = v"
| "hash64_const (c # str) v =
     (if c = 0 then v else hash64_const str ((v XOR scast c) * fnv1a_prime_64))"

definition hash64_string :: "u8 list option \<Rightarrow> u64 \<Rightarrow> u64" where
  "hash64_string s v =
     (case s of None \<Rightarrow> v
      | Some str \<Rightarrow> foldl (\<lambda>v c. (v XOR scast c) * fnv1a_prime_64) v (takeWhile (\<lambda>c. c \<noteq> 0) str))"

definition hash64 :: "u8 list \<Rightarrow> u64 \<Rightarrow> u64" where
  "hash64 buf v = foldl (\<lambda>v c. (v XOR ucast c) * fnv1a_prime_64) v buf"

definition hash_fold16_32 :: "u32 \<Rightarrow> u16" where
  "hash_fold16_32 v = ucast (drop_bit 16 v XOR (v AND 0xffff))"

definition hash_fold8_32 :: "u32 \<Rightarrow> u8" where
  "hash_fold8_32 v = (let v2 = hash_fold16_32 v in ucast (drop_bit 8 v2 XOR (v2 AND 0xff)))"

definition splitmix64 :: "u64 \<Rightarrow> u64" where
  "splitmix64 v =
     (let v1 = (v XOR drop_bit 30 v) * 0xbf58476d1ce4e5b9;
          v2 = (v1 XOR drop_bit 27 v1) * 0x94d049bb133111eb
      in v2 XOR drop_bit 31 v2)"

definition inthash32 :: "u32 \<Rightarrow> u32" where
  "inthash32 v =
     (let v1 = (drop_bit 16 v XOR v) * 0x45d9f3b;
          v2 = (drop_bit 16 v1 XOR v1) * 0x45d9f3b
      in drop_bit 16 v2 XOR v2)"

section \<open>The random number generator\<close>

record xoroshiro256pp =
  xo0 :: u64
  xo1 :: u64
  xo2 :: u64
  xo3 :: u64

definition rotl :: "u64 \<Rightarrow> nat \<Rightarrow> u64" where
  "rotl x k = push_bit k x OR drop_bit (64 - k) x"

definition xo_seed :: "u64 \<Rightarrow> xoroshiro256pp" where
  "xo_seed seed =
     (let s1 = splitmix64 seed; s2 = splitmix64 s1; s3 = splitmix64 s2 in
      \<lparr>xo0 = seed, xo1 = s1, xo2 = s2, xo3 = s3\<rparr>)"

definition xo_next :: "xoroshiro256pp \<Rightarrow> u64 \<times> xoroshiro256pp" where
  "xo_next x =
     (let result = rotl (xo0 x + xo3 x) 23 + xo0 x;
          t = push_bit 17 (xo1 x);
          x1 = x\<lparr>xo2 := xo2 x XOR xo0 x\<rparr>;
          x2 = x1\<lparr>xo3 := xo3 x1 XOR xo1 x1\<rparr>;
          x3 = x2\<lparr>xo1 := xo1 x2 XOR xo2 x2\<rparr>;
          x4 = x3\<lparr>xo0 := xo0 x3 XOR xo3 x3\<rparr>;
          x5 = x4\<lparr>xo2 := xo2 x4 XOR t\<rparr>
      in (result, x5\<lparr>xo3 := rotl (xo3 x5) 45\<rparr>))"

definition xo_xor :: "xoroshiro256pp \<Rightarrow> xoroshiro256pp \<Rightarrow> xoroshiro256pp" where
  "xo_xor a b = \<lparr>xo0 = xo0 a XOR xo0 b, xo1 = xo1 a XOR xo1 b, xo2 = xo2 a XOR xo2 b, xo3 = xo3 a XOR xo3 b\<rparr>"

definition xo_zero :: xoroshiro256pp where
  "xo_zero = \<lparr>xo0 = 0, xo1 = 0, xo2 = 0, xo3 = 0\<rparr>"

text \<open>The body of the two loops of \<open>do_jump\<close>, for one bit of the polynomial.\<close>

definition xo_jump_bit :: "xoroshiro256pp \<times> xoroshiro256pp \<Rightarrow> bool \<Rightarrow> xoroshiro256pp \<times> xoroshiro256pp" where
  "xo_jump_bit sx on = (case sx of (s, x) \<Rightarrow>
     (if on then xo_xor s x else s, snd (xo_next x)))"

definition xo_do_jump :: "u64 list \<Rightarrow> xoroshiro256pp \<Rightarrow> xoroshiro256pp" where
  "xo_do_jump poly x = fst (foldl xo_jump_bit (xo_zero, x) (concat (map (\<lambda>p. map (bit p) [0..<64]) poly)))"

definition xo_jump_poly :: "u64 list" where
  "xo_jump_poly = [0x180ec6d33cfd0aba, 0xd5a61266f0c9392c, 0xa9582618e03fc9aa, 0x39abdc4529b1661c]"

definition xo_longjump_poly :: "u64 list" where
  "xo_longjump_poly = [0x76e15d3efefdcbbf, 0xc5004e441c522fb3, 0x77710069854ee241, 0x39109bb02acbe635]"

definition xo_jump :: "xoroshiro256pp \<Rightarrow> xoroshiro256pp" where
  "xo_jump = xo_do_jump xo_jump_poly"

definition xo_long_jump :: "xoroshiro256pp \<Rightarrow> xoroshiro256pp" where
  "xo_long_jump = xo_do_jump xo_longjump_poly"

section \<open>Bit sets\<close>

text \<open>
  \<open>bitset<I>\<close> is a single word of its storage type. The member indices the source uses are
  below the width of the storage. The masks of \<open>range\<close> and \<open>set_range\<close> are computed in
  \<open>int\<close> and sign-extended to the storage type.
\<close>

definition bs_bit :: "nat \<Rightarrow> 'a::len word" where
  "bs_bit i = push_bit i 1"

definition bs_get :: "'a::len word \<Rightarrow> nat \<Rightarrow> bool" where
  "bs_get m i \<longleftrightarrow> m AND bs_bit i \<noteq> 0"

definition bs_set :: "'a::len word \<Rightarrow> nat \<Rightarrow> 'a word" where
  "bs_set m i = m OR bs_bit i"

definition bs_clear :: "'a::len word \<Rightarrow> nat \<Rightarrow> 'a word" where
  "bs_clear m i = m AND NOT (bs_bit i)"

definition bs_set_to :: "'a::len word \<Rightarrow> nat \<Rightarrow> bool \<Rightarrow> 'a word" where
  "bs_set_to m i v = (if v then bs_set m i else bs_clear m i)"

fun bs_of :: "nat list \<Rightarrow> 'a::len word" where
  "bs_of [] = 0"
| "bs_of (b # bs) = push_bit b 1 OR bs_of bs"

definition bs_range_mask :: "nat \<Rightarrow> u64" where
  "bs_range_mask count = scast (NOT (push_bit count 1 - 1 :: u32))"

definition bs_range :: "u64 \<Rightarrow> nat \<Rightarrow> nat \<Rightarrow> u64" where
  "bs_range m start count = drop_bit start m AND bs_range_mask count"

definition bs_set_range :: "u64 \<Rightarrow> nat \<Rightarrow> nat \<Rightarrow> u64 \<Rightarrow> u64" where
  "bs_set_range m start count val =
     (let mask = push_bit start (bs_range_mask count) in
      (m AND NOT mask) OR (push_bit start val AND mask))"

text \<open>\<open>sized_bitset<N>\<close> is an array of \<open>(N + 63) / 64\<close> words.\<close>

definition sbs_new :: "nat \<Rightarrow> u64 list" where
  "sbs_new n = replicate ((n + 63) div 64) 0"

definition sbs_bit :: "nat \<Rightarrow> u64" where
  "sbs_bit i = push_bit (i mod 64) 1"

definition sbs_get :: "u64 list \<Rightarrow> nat \<Rightarrow> bool res" where
  "sbs_get m i = bindE (array_get m (i div 64)) (\<lambda>w. Inr (w AND sbs_bit i \<noteq> 0))"

definition sbs_set :: "u64 list \<Rightarrow> nat \<Rightarrow> u64 list res" where
  "sbs_set m i = bindE (array_get m (i div 64)) (\<lambda>w. array_set m (i div 64) (w OR sbs_bit i))"

definition sbs_clear :: "u64 list \<Rightarrow> nat \<Rightarrow> u64 list res" where
  "sbs_clear m i = bindE (array_get m (i div 64)) (\<lambda>w. array_set m (i div 64) (w AND NOT (sbs_bit i)))"

fun sbs_empty :: "u64 list \<Rightarrow> bool" where
  "sbs_empty [] = True"
| "sbs_empty (w # ws) = (if w \<noteq> 0 then False else sbs_empty ws)"

section \<open>Counted pointers\<close>

record counted =
  ct_pointer :: u64
  ct_count :: u64

definition counted_advance :: "u64 \<Rightarrow> counted \<Rightarrow> u64 \<Rightarrow> counted" where
  "counted_advance elem_size c i =
     (let i = (if i > ct_count c then ct_count c else i) in
      c\<lparr>ct_pointer := ct_pointer c + i * elem_size, ct_count := ct_count c - i\<rparr>)"

text \<open>\<open>counted<void>::operator+=\<close> takes an \<open>unsigned\<close>; \<open>operator+\<close> takes a \<open>size_t\<close> and
  passes it on.\<close>

definition buffer_advance :: "counted \<Rightarrow> u32 \<Rightarrow> counted" where
  "buffer_advance c i =
     (let i = (if ucast i > ct_count c then ucast (ct_count c) else i) in
      c\<lparr>ct_pointer := ct_pointer c + ucast i, ct_count := ct_count c - ucast i\<rparr>)"

definition buffer_plus :: "counted \<Rightarrow> u64 \<Rightarrow> counted" where
  "buffer_plus c i = buffer_advance c (ucast i)"

definition buffer_read :: "u32 \<Rightarrow> counted \<Rightarrow> u64 \<times> counted" where
  "buffer_read size_of_T b = (ct_pointer b, buffer_advance b size_of_T)"

section \<open>Facts on logarithms and checksums\<close>

lemma log2_bounds:
  assumes "2 \<le> i"
  shows "2 ^ (log2 i - 1) < unat i" "unat i \<le> 2 ^ log2 i" "0 < log2 i" "log2 i \<le> 64"
proof -
  have i: "2 \<le> unat i" using assms by (simp add: word_le_nat_alt)
  then have u: "unat (i - 1) = unat i - 1" by (simp add: unat_sub_no_wrap)
  with i have nz: "i - 1 \<noteq> 0" by (metis diff_is_0_eq not_less_eq_eq numeral_2_eq_2 One_nat_def unat_eq_0_iff)
  have l: "log2 i = 64 - clz (i - 1)" using assms by (simp add: log2_def)
  have l': "log2 i - 1 = 63 - clz (i - 1)" using clz_bit(1) [OF nz] l by simp
  show "2 ^ (log2 i - 1) < unat i" using clz_bounds(1) [OF nz] u i unfolding l' by linarith
  show "unat i \<le> 2 ^ log2 i" using clz_bounds(2) [OF nz] u unfolding l by linarith
  show "0 < log2 i" "log2 i \<le> 64" using clz_bit(1) [OF nz] l by simp_all
qed

lemma log2_pow2: "n < 64 \<Longrightarrow> log2 (2 ^ n) = n"
proof (cases "n = 0")
  case False
  assume n: "n < 64"
  then have u: "unat (2 ^ n :: u64) = 2 ^ n" by (rule unat_exp_u64)
  have "2 ^ 1 \<le> (2::nat) ^ n" using False by (intro power_increasing) auto
  then have "2 \<le> (2 ^ n :: u64)" using u by (simp add: word_le_nat_alt)
  from log2_bounds [OF this] u have "2 ^ (log2 (2 ^ n) - 1) < (2::nat) ^ n" "2 ^ n \<le> (2::nat) ^ log2 (2 ^ n)"
    by simp_all
  then have "log2 (2 ^ n) - 1 < n" "n \<le> log2 (2 ^ n)" by simp_all
  then show ?thesis by simp
qed (simp add: log2_def)

lemma log2_le: "i \<le> 2 ^ k \<Longrightarrow> k < 64 \<Longrightarrow> log2 i \<le> k"
proof (cases "2 \<le> i")
  case True
  assume "i \<le> 2 ^ k" "k < 64"
  then have "unat i \<le> 2 ^ k" by (simp add: word_le_nat_alt unat_exp_u64)
  with log2_bounds(1) [OF True] have "2 ^ (log2 i - 1) < (2::nat) ^ k" by linarith
  then have "log2 i - 1 < k" by simp
  then show ?thesis by simp
qed (simp add: log2_def)

lemma const_log2_bounds: "0 < n \<Longrightarrow> 2 ^ const_log2 n \<le> n \<and> n < 2 ^ (const_log2 n + 1)"
proof (induction n rule: const_log2.induct)
  case (1 n)
  show ?case
  proof (cases "n < 2")
    case True
    with 1(2) show ?thesis by (simp add: const_log2.simps [of n])
  next
    case False
    then have "2 ^ const_log2 (n div 2) \<le> n div 2 \<and> n div 2 < 2 ^ (const_log2 (n div 2) + 1)"
      using 1(1) by simp
    with False show ?thesis by (simp add: const_log2.simps [of n]) linarith
  qed
qed

lemma is_pow2_iff: "is_pow2 n \<longleftrightarrow> n = 0 \<or> (\<exists>k<64. n = 2 ^ k)"
proof
  assume p: "is_pow2 n"
  show "n = 0 \<or> (\<exists>k<64. n = 2 ^ k)"
  proof (rule ccontr)
    assume c: "\<not> (n = 0 \<or> (\<exists>k<64. n = 2 ^ k))"
    define k where "k = 63 - clz n"
    have "64 - clz n = Suc k" using c clz_bit(1) [of n] by (simp add: k_def)
    then have k: "k < 64" "bit n k" "2 ^ k \<le> unat n" "unat n < 2 ^ Suc k"
      using c clz_bit(1,2) [of n] clz_bounds [of n] by (simp_all add: k_def)
    with c have "unat n \<noteq> 2 ^ k" by (metis unat_exp_u64 word_eq_unat)
    with k have u: "2 ^ k \<le> unat n - 1" by simp
    have n1: "unat (n - 1) = unat n - 1" using c by (simp add: unat_sub_no_wrap Suc_leI unat_gt_0)
    have nz: "n - 1 \<noteq> 0" using u n1 by (metis unat_0 le_zero_eq power_not_zero zero_neq_numeral)
    have "63 - clz (n - 1) = k"
    proof (rule le_antisym)
      have "2 ^ (63 - clz (n - 1)) < (2::nat) ^ Suc k" using clz_bounds(1) [OF nz] n1 k by linarith
      then have "63 - clz (n - 1) < Suc k" by (rule power_less_imp_less_exp [rotated]) simp
      then show "63 - clz (n - 1) \<le> k" by simp
      have "2 ^ k < (2::nat) ^ (64 - clz (n - 1))" using clz_bounds(2) [OF nz] n1 u by linarith
      then show "k \<le> 63 - clz (n - 1)" using clz_bit(1) [OF nz] by simp
    qed
    with clz_bit(2) [OF nz] k(2) have "bit (n AND (n - 1)) k" by (simp add: bit_and_iff)
    with p show False by (simp add: is_pow2_def)
  qed
next
  have "is_pow2 (2 ^ k)" for k
    unfolding is_pow2_def
    by (rule u64_eqI) (auto simp: bit_and_iff bit_mask_iff simp flip: mask_eq_exp_minus_1)
  then show "n = 0 \<or> (\<exists>k<64. n = 2 ^ k) \<Longrightarrow> is_pow2 n" by (auto simp: is_pow2_def)
qed

lemma checksum_sum:
  assumes "off \<le> len" "len \<le> length p"
  shows "checksum p len off = Inr (sum_list (take (len - off) (drop off p)))"
proof -
  have f: "foldl (\<lambda>sum i. sum + p ! i) a is = a + sum_list (map ((!) p) is)" for a "is"
    by (induction "is" arbitrary: a) (simp_all add: add.assoc)
  have "map ((!) p) [off..<len] = take (len - off) (drop off p)"
    using assms by (intro nth_equalityI) auto
  then show ?thesis using assms by (simp add: checksum_def f)
qed

section \<open>Facts on hashes\<close>

lemma hash64_const_string: "hash64_string (Some str) v = hash64_const str v"
  by (induction str v rule: hash64_const.induct) (simp_all add: hash64_string_def)

lemma scast_ascii: "unat c < 128 \<Longrightarrow> (scast (c :: u8) :: u64) = ucast c"
proof (rule u64_eqI)
  fix n :: nat assume c: "unat c < 128" and n: "n < 64"
  have "\<not> bit c 7" using bit_imp_exp_le [of c 7] c by auto
  moreover have "\<not> bit c n" if "7 < n" using that bit_imp_le_length [of c n] by auto
  ultimately show "bit (scast c :: u64) n = bit (ucast c :: u64) n"
    using n by (cases n "7::nat" rule: linorder_cases) (auto simp: bit_signed_iff bit_unsigned_iff min_def)
qed

lemma hash64_string_ascii:
  assumes "\<forall>c\<in>set str. c \<noteq> 0 \<and> unat c < 128"
  shows "hash64_string (Some str) v = hash64 str v"
proof -
  have "takeWhile (\<lambda>c. c \<noteq> 0) str = str" using assms by (simp add: takeWhile_eq_all_conv)
  moreover have "foldl (\<lambda>v c. (v XOR scast c) * fnv1a_prime_64) v str =
      foldl (\<lambda>v c. (v XOR ucast c) * fnv1a_prime_64) v str" for v
    using assms by (induction str arbitrary: v) (simp_all add: scast_ascii)
  ultimately show ?thesis by (simp only: hash64_string_def hash64_def option.case)
qed

lemma splitmix64_inj: "inj splitmix64"
proof (rule injI)
  fix x y assume e: "splitmix64 x = splitmix64 y"
  define f where "f v = (v XOR drop_bit 30 v) * (0xbf58476d1ce4e5b9 :: u64)" for v
  define g where "g v = (v XOR drop_bit 27 v) * (0x94d049bb133111eb :: u64)" for v
  have s: "splitmix64 v = g (f v) XOR drop_bit 31 (g (f v))" for v
    by (simp only: splitmix64_def f_def g_def Let_def)
  have "g (f x) = g (f y)" using e unfolding s by (rule xorshift_inj [of 31, rotated]) simp
  then have "f x XOR drop_bit 27 (f x) = f y XOR drop_bit 27 (f y)" unfolding g_def
    by (rule mult_inverse_inj [where d = "0x319642b2d24d8ec3"]) simp
  then have "f x = f y" by (rule xorshift_inj [of 27, rotated]) simp
  then have "x XOR drop_bit 30 x = y XOR drop_bit 30 y" unfolding f_def
    by (rule mult_inverse_inj [where d = "0x96de1b173f119089"]) simp
  then show "x = y" by (rule xorshift_inj [of 30, rotated]) simp
qed

lemma inthash32_inj: "inj inthash32"
proof (rule injI)
  fix x y assume e: "inthash32 x = inthash32 y"
  define f where "f v = (drop_bit 16 v XOR v) * (0x45d9f3b :: u32)" for v
  have s: "inthash32 v = f (f v) XOR drop_bit 16 (f (f v))" for v
    by (simp only: inthash32_def f_def Let_def xor.commute)
  have f: "a = b" if "f a = f b" for a b
  proof -
    from that have "drop_bit 16 a XOR a = drop_bit 16 b XOR b" unfolding f_def
      by (rule mult_inverse_inj [where d = "0x119de1f3"]) simp
    then show "a = b" unfolding xor.commute [of "drop_bit 16 _"] by (rule xorshift_inj [of 16, rotated]) simp
  qed
  have "f (f x) = f (f y)" using e unfolding s by (rule xorshift_inj [of 16, rotated]) simp
  from f [OF f [OF this]] show "x = y" .
qed

section \<open>Facts on the generator\<close>

lemma bit_rotl: "0 < k \<Longrightarrow> k < 64 \<Longrightarrow> bit (rotl x k) n \<longleftrightarrow> n < 64 \<and> bit x (if k \<le> n then n - k else n + 64 - k)"
  by (auto simp: rotl_def bit_or_iff bit_push_bit_iff bit_drop_bit_eq add.commute dest: bit_u64_less)

lemma rotl_xor: "0 < k \<Longrightarrow> k < 64 \<Longrightarrow> rotl (x XOR y) k = rotl x k XOR rotl y k"
  by (rule u64_eqI) (simp add: bit_rotl bit_xor_iff)

lemma rotl_0 [simp]: "rotl 0 k = 0"
  by (simp add: rotl_def)

lemma rotl_inj:
  assumes "0 < k" "k < 64" "rotl x k = rotl y k"
  shows "x = y"
proof (rule u64_eqI)
  fix n :: nat assume n: "n < 64"
  let ?m = "if n + k < 64 then n + k else n + k - 64"
  have "bit (rotl x k) ?m = bit (rotl y k) ?m" using assms(3) by simp
  with n assms(1,2) show "bit x n = bit y n" by (auto simp: bit_rotl split: if_splits)
qed

lemma xorshl_inj:
  fixes a b :: u64
  assumes "0 < k" "a XOR push_bit k a = b XOR push_bit k b"
  shows "a = b"
proof (rule bit_eqI)
  fix n
  have e: "bit (a XOR push_bit k a) m \<longleftrightarrow> bit (b XOR push_bit k b) m" for m using assms(2) by simp
  show "bit a n = bit b n"
  proof (induction n rule: less_induct)
    case (less n)
    show ?case
    proof (cases "k \<le> n")
      case True
      have "bit a (n - k) = bit b (n - k)" using True assms(1) by (intro less) simp
      with e [of n] True show ?thesis by (auto simp: bit_xor_iff bit_push_bit_iff dest: bit_u64_less)
    next
      case False
      with e [of n] show ?thesis by (auto simp: bit_xor_iff bit_push_bit_iff)
    qed
  qed
qed

lemma xo_next_state:
  "snd (xo_next x) = \<lparr>xo0 = xo0 x XOR xo3 x XOR xo1 x, xo1 = xo1 x XOR xo2 x XOR xo0 x,
     xo2 = xo2 x XOR xo0 x XOR push_bit 17 (xo1 x), xo3 = rotl (xo3 x XOR xo1 x) 45\<rparr>"
  by (cases x) (simp add: xo_next_def Let_def xor.assoc)

lemma xo_next_inj:
  assumes "snd (xo_next x) = snd (xo_next y)"
  shows "x = y"
proof -
  have e0: "xo0 x XOR (xo3 x XOR xo1 x) = xo0 y XOR (xo3 y XOR xo1 y)"
    and e1: "xo1 x XOR (xo2 x XOR xo0 x) = xo1 y XOR (xo2 y XOR xo0 y)"
    and e2: "(xo2 x XOR xo0 x) XOR push_bit 17 (xo1 x) = (xo2 y XOR xo0 y) XOR push_bit 17 (xo1 y)"
    and e3: "rotl (xo3 x XOR xo1 x) 45 = rotl (xo3 y XOR xo1 y) 45"
    using assms unfolding xo_next_state by (simp_all add: xor.assoc xoroshiro256pp.ext_inject)
  have p: "xo3 x XOR xo1 x = xo3 y XOR xo1 y" by (rule rotl_inj [OF _ _ e3]) simp_all
  have x0: "xo0 x = xo0 y" using e0 unfolding p by (rule xor_cancel_right)
  have "xo1 x XOR push_bit 17 (xo1 x) =
      (xo1 x XOR (xo2 x XOR xo0 x)) XOR ((xo2 x XOR xo0 x) XOR push_bit 17 (xo1 x))" for x
    by (simp add: xor.assoc xor.left_commute)
  then have "xo1 x XOR push_bit 17 (xo1 x) = xo1 y XOR push_bit 17 (xo1 y)" using e1 e2 by metis
  then have x1: "xo1 x = xo1 y" by (rule xorshl_inj [of 17, rotated]) simp
  have x3: "xo3 x = xo3 y" using p unfolding x1 by (rule xor_cancel_right)
  have "xo2 x = xo2 y" using e1 unfolding x0 x1 by (metis xor.commute xor_cancel_right)
  with x0 x1 x3 show ?thesis by (simp add: xoroshiro256pp.equality)
qed

lemma xo_next_linear: "snd (xo_next (xo_xor a b)) = xo_xor (snd (xo_next a)) (snd (xo_next b))"
  unfolding xo_next_state by (simp add: xo_xor_def rotl_xor xor.assoc xor.left_commute push_bit_xor)


lemma xo_next_zero: "snd (xo_next xo_zero) = xo_zero"
  by (simp add: xo_next_state xo_zero_def)

lemma xo_next_nonzero: "x \<noteq> xo_zero \<Longrightarrow> snd (xo_next x) \<noteq> xo_zero"
  using xo_next_inj [of x xo_zero] xo_next_zero by auto

lemma xo_xor_zero [simp]: "xo_xor xo_zero x = x"
  by (simp add: xo_xor_def xo_zero_def)

lemma xo_jump_bit_next:
  "foldl xo_jump_bit (snd (xo_next s), snd (xo_next x)) bs =
     map_prod (\<lambda>s. snd (xo_next s)) (\<lambda>s. snd (xo_next s)) (foldl xo_jump_bit (s, x) bs)"
proof (induction bs arbitrary: s x)
  case (Cons b bs)
  have "xo_jump_bit (snd (xo_next s), snd (xo_next x)) b =
      (snd (xo_next (fst (xo_jump_bit (s, x) b))), snd (xo_next (snd (xo_jump_bit (s, x) b))))"
    by (simp add: xo_jump_bit_def xo_next_linear)
  then show ?case using Cons.IH by (simp del: split_paired_all)
qed simp

lemma xo_do_jump_next: "xo_do_jump poly (snd (xo_next x)) = snd (xo_next (xo_do_jump poly x))"
  using xo_jump_bit_next [of xo_zero x] by (simp add: xo_do_jump_def xo_next_zero)

section \<open>Facts on bit sets\<close>

lemma bs_get_iff: "bs_get (m :: 'a::len word) i \<longleftrightarrow> bit m i"
  by (simp add: bs_get_def bs_bit_def and_exp_eq_0_iff_not_bit)

lemma bs_set_get:
  assumes "i < LENGTH('a::len)"
  shows "bs_get (bs_set (m :: 'a word) i) j \<longleftrightarrow> j = i \<or> bs_get m j"
  using assms by (auto simp: bs_get_iff bs_set_def bs_bit_def bit_or_iff bit_exp_iff)

lemma bs_clear_get: "bs_get (bs_clear (m :: 'a::len word) i) j \<longleftrightarrow> j \<noteq> i \<and> bs_get m j"
  using bit_imp_le_length [of m j]
  by (auto simp: bs_get_iff bs_clear_def bs_bit_def bit_and_iff bit_not_iff bit_exp_iff)

lemma bs_range_mask_bit:
  assumes "count < 31"
  shows "bit (bs_range_mask count) k \<longleftrightarrow> count \<le> k \<and> k < 64"
  using assms unfolding bs_range_mask_def push_bit_of_1 mask_eq_exp_minus_1 [symmetric]
  by (auto simp: bit_signed_iff bit_not_iff bit_mask_iff min_def)

lemma bs_range_bit:
  assumes "count < 31"
  shows "bit (bs_range m start count) k \<longleftrightarrow> count \<le> k \<and> bit m (start + k)"
  using bs_range_mask_bit [OF assms, of k] bit_u64_less [of m "start + k"]
  by (auto simp: bs_range_def bit_and_iff bit_drop_bit_eq)

lemma sbs_get_eq: "i div 64 < length m \<Longrightarrow> sbs_get m i = Inr (bit (m ! (i div 64)) (i mod 64))"
  by (simp add: sbs_get_def sbs_bit_def and_exp_eq_0_iff_not_bit)

lemma div_mod_64_eq: "i div 64 = j div 64 \<Longrightarrow> i mod 64 = j mod 64 \<Longrightarrow> (i::nat) = j"
  by (metis div_mult_mod_eq)

lemma sbs_get_set:
  assumes "sbs_set m i = Inr m'" "j div 64 < length m"
  shows "sbs_get m' j = (if j = i then Inr True else sbs_get m j)"
proof -
  have i: "i div 64 < length m" and m': "m' = m[i div 64 := m ! (i div 64) OR sbs_bit i]"
    using assms(1) by (auto simp: sbs_set_def bindE_Inr_iff array_get_Inr_iff array_set_Inr_iff)
  have g: "sbs_get m' j = Inr (bit (m' ! (j div 64)) (j mod 64))" "sbs_get m j = Inr (bit (m ! (j div 64)) (j mod 64))"
    using assms(2) by (simp_all add: sbs_get_eq m')
  show ?thesis
  proof (cases "j div 64 = i div 64")
    case True
    then have "j mod 64 = i mod 64 \<longleftrightarrow> j = i" using div_mod_64_eq [of j i] by blast
    with True i show ?thesis unfolding g by (simp add: m' bit_or_iff sbs_bit_def)
  next
    case False
    then show ?thesis unfolding g by (auto simp: m')
  qed
qed

lemma sbs_get_clear:
  assumes "sbs_clear m i = Inr m'" "j div 64 < length m"
  shows "sbs_get m' j = (if j = i then Inr False else sbs_get m j)"
proof -
  have i: "i div 64 < length m" and m': "m' = m[i div 64 := m ! (i div 64) AND NOT (sbs_bit i)]"
    using assms(1) by (auto simp: sbs_clear_def bindE_Inr_iff array_get_Inr_iff array_set_Inr_iff)
  have g: "sbs_get m' j = Inr (bit (m' ! (j div 64)) (j mod 64))" "sbs_get m j = Inr (bit (m ! (j div 64)) (j mod 64))"
    using assms(2) by (simp_all add: sbs_get_eq m')
  show ?thesis
  proof (cases "j div 64 = i div 64")
    case True
    then have "j mod 64 = i mod 64 \<longleftrightarrow> j = i" using div_mod_64_eq [of j i] by blast
    with True i show ?thesis unfolding g by (simp add: m' bit_and_iff sbs_bit_def)
  next
    case False
    then show ?thesis unfolding g by (auto simp: m')
  qed
qed

lemma sbs_new_get: "i < n \<Longrightarrow> sbs_get (sbs_new n) i = Inr False"
  by (simp add: sbs_get_eq sbs_new_def less_mult_imp_div_less)

lemma sbs_empty_iff: "sbs_empty m \<longleftrightarrow> (\<forall>i. i div 64 < length m \<longrightarrow> sbs_get m i = Inr False)"
proof
  assume "sbs_empty m"
  then have "\<forall>k<length m. m ! k = 0"
    by (induction m) (auto simp: nth_Cons split: nat.splits if_splits)
  then show "\<forall>i. i div 64 < length m \<longrightarrow> sbs_get m i = Inr False" by (simp add: sbs_get_eq)
next
  assume a: "\<forall>i. i div 64 < length m \<longrightarrow> sbs_get m i = Inr False"
  have "m ! k = 0" if "k < length m" for k
  proof (rule u64_eqI)
    fix n :: nat assume "n < 64"
    then show "bit (m ! k) n = bit 0 n"
      using a [rule_format, of "k * 64 + n"] that by (simp add: sbs_get_eq)
  qed
  then have "\<forall>w\<in>set m. w = 0" by (metis in_set_conv_nth)
  then show "sbs_empty m" by (induction m) auto
qed

section \<open>Facts on counted pointers\<close>

lemma counted_advance_end:
  assumes "unat (ct_pointer c) + unat (ct_count c) * unat sz < 2 ^ 64"
  shows "ct_pointer (counted_advance sz c i) + ct_count (counted_advance sz c i) * sz =
     ct_pointer c + ct_count c * sz"
  by (simp add: counted_advance_def Let_def algebra_simps)

lemma buffer_plus_truncates: "buffer_plus c (2 ^ 32) = c"
  by (simp add: buffer_plus_def buffer_advance_def)

section \<open>Properties\<close>

text \<open>The hashes of integer keys have no collisions: \<open>splitmix64\<close> and \<open>inthash32\<close> are
  injective, so distinct handles or addresses have distinct 64 bit hashes.\<close>

theorem integer_hashes_injective: "inj splitmix64 \<and> inj inthash32"
  using splitmix64_inj inthash32_inj by simp

text \<open>A generator seeded with a value other than zero never reaches the all-zero state, the
  fixed point of the generator, and jumping ahead commutes with drawing numbers.\<close>

theorem xo_never_stuck:
  assumes "seed \<noteq> 0"
  shows "((\<lambda>x. snd (xo_next x)) ^^ n) (xo_seed seed) \<noteq> xo_zero \<and>
     xo_jump (((\<lambda>x. snd (xo_next x)) ^^ n) (xo_seed seed)) =
       ((\<lambda>x. snd (xo_next x)) ^^ n) (xo_jump (xo_seed seed))"
proof -
  have "xo_seed seed \<noteq> xo_zero" using assms by (simp add: xo_seed_def xo_zero_def Let_def)
  then have "((\<lambda>x. snd (xo_next x)) ^^ n) (xo_seed seed) \<noteq> xo_zero"
    by (induction n) (simp_all add: xo_next_nonzero)
  moreover have "xo_jump (((\<lambda>x. snd (xo_next x)) ^^ n) s) = ((\<lambda>x. snd (xo_next x)) ^^ n) (xo_jump s)" for s
    by (induction n) (simp_all add: xo_jump_def xo_do_jump_next)
  ultimately show ?thesis by simp
qed

theorem xo_never_stuck_witness: "((\<lambda>x. snd (xo_next x)) ^^ 1000) (xo_seed 0x123456) \<noteq> xo_zero"
  using xo_never_stuck [of "0x123456" 1000] by simp

end
