(* ===== verification/Page_Table.thy ===== *)
theory Page_Table
  imports Frame_Allocator
begin

text \<open>
  Page tables, \<open>src/src/kernel/page_table.cpp\<close> and \<open>page_table.h\<close>. Memory is the function from the address
  of a page in the linear area to its 512 words; a free page in the cache of table pages holds the address
  of the next one in its first word, as in the source. The levels are their numbers, since the source computes
  with them: 0 is the PML4, 3 the page table and 4 the page. The pages of new tables come from the frame
  allocator of theory \<open>Frame_Allocator\<close>.
\<close>

section \<open>State\<close>

definition linear_offset :: u64 where "linear_offset = 0xffffc00000000000"
definition kernel_root_index :: nat where "kernel_root_index = 256"

definition page_present :: u64 where "page_present = 0x1"
definition page_write :: u64 where "page_write = 0x2"
definition page_user :: u64 where "page_user = 0x4"
definition page_accessed :: u64 where "page_accessed = 0x20"
definition page_wc :: u64 where "page_wc = 0x8 OR 0x10 OR 0x80"

definition table_flags :: u64 where "table_flags = page_present OR page_write"

type_synonym memory = "u64 \<Rightarrow> u64 list"

record pages =
  pg_mem :: memory
  pg_cache :: u64
  pg_blocks :: "frame_block list"

definition pg_read :: "memory \<Rightarrow> u64 \<Rightarrow> nat \<Rightarrow> u64 res" where
  "pg_read m p i = (if p = 0 then Inl Null_deref else array_get (m p) i)"

definition pg_write :: "u64 \<Rightarrow> nat \<Rightarrow> u64 \<Rightarrow> pages \<Rightarrow> pages res" where
  "pg_write p i v s =
     (if p = 0 then Inl Null_deref
      else bindE (array_set (pg_mem s p) i v) (\<lambda>es. Inr (s\<lparr>pg_mem := (pg_mem s)(p := es)\<rparr>)))"

section \<open>The cache of table pages\<close>

text \<open>The loop of \<open>fill_table_page_cache\<close>: the first \<open>k\<close> of the pages from \<open>p\<close> on are linked to their successors.\<close>

fun link_pages :: "nat \<Rightarrow> u64 \<Rightarrow> pages \<Rightarrow> pages res" where
  "link_pages 0 p s = Inr s"
| "link_pages (Suc k) p s = bindE (pg_write p 0 (p + frame_size) s) (link_pages k (p + frame_size))"

definition fill_table_page_cache :: "pages \<Rightarrow> pages res" where
  "fill_table_page_cache s =
     bindE (fa_allocate (pg_blocks s) 32) (\<lambda>(n, phys, bs).
     if n = 0 then Inl Out_of_bounds
     else let s = s\<lparr>pg_blocks := bs\<rparr>; pages = phys OR linear_offset
          in bindE (link_pages (n - 1) pages s) (\<lambda>s.
             bindE (pg_write (pages + of_nat (n - 1) * frame_size) 0 (pg_cache s) s) (\<lambda>s.
             Inr (s\<lparr>pg_cache := pages\<rparr>))))"

definition get_table_page :: "pages \<Rightarrow> (u64 \<times> pages) res" where
  "get_table_page s =
     bindE (if pg_cache s = 0 then fill_table_page_cache s else Inr s) (\<lambda>s.
     if pg_cache s = 0 then Inl Assert_failed
     else let page = pg_cache s
          in bindE (pg_read (pg_mem s) page 0) (\<lambda>following.
             Inr (page, s\<lparr>pg_cache := following, pg_mem := (pg_mem s)(page := replicate 512 0)\<rparr>)))"

definition free_table_page :: "u64 \<Rightarrow> pages \<Rightarrow> pages res" where
  "free_table_page p s = bindE (pg_write p 0 (pg_cache s) s) (\<lambda>s. Inr (s\<lparr>pg_cache := p\<rparr>))"

section \<open>Iterators\<close>

record iterator =
  it_table :: "u64 list"
  it_index :: "nat list"

definition it_shift :: "nat \<Rightarrow> nat" where
  "it_shift i = 12 + 9 * (3 - i)"

definition it_new :: "u64 \<Rightarrow> u64 \<Rightarrow> iterator" where
  "it_new virt pml4 = \<lparr>it_table = [pml4, 0, 0, 0], it_index = map (\<lambda>i. unat (drop_bit (it_shift i) virt AND 0x1ff)) [0..<4]\<rparr>"

definition canonical :: "u64 \<Rightarrow> u64" where
  "canonical a = (if bit a 47 then a OR push_bit 48 0xffff else a)"

definition it_start :: "nat \<Rightarrow> iterator \<Rightarrow> u64 res" where
  "it_start l it =
     (if l < 4 then Inr (canonical (fold (\<lambda>i a. a OR push_bit (it_shift i) (of_nat (it_index it ! i))) [0..<Suc l] 0))
      else Inl Out_of_bounds)"

text \<open>The loop runs over the levels above \<open>l\<close>, so the test for the level itself in its body never holds.\<close>

definition it_end :: "nat \<Rightarrow> iterator \<Rightarrow> u64 res" where
  "it_end l it =
     (if l = 0 then Inl Assert_failed
      else if l \<le> 4 then Inr (canonical (fold (\<lambda>i a. a OR push_bit (it_shift i) (of_nat (it_index it ! i + (if i = l then 1 else 0)))) [0..<l] 0))
      else Inl Out_of_bounds)"

definition it_vaddress :: "iterator \<Rightarrow> u64 res" where
  "it_vaddress it = it_start 3 it"

fun it_align_loop :: "nat \<Rightarrow> nat list \<Rightarrow> nat" where
  "it_align_loop 0 index = 0"
| "it_align_loop (Suc i) index = (if index ! i \<noteq> 0 then Suc i else it_align_loop i index)"

definition it_align :: "iterator \<Rightarrow> nat" where
  "it_align it = it_align_loop 4 (it_index it)"

text \<open>\<open>next\<close>: the indices from level \<open>l\<close> on are reset, then the one above is incremented, with carry.\<close>

fun it_carry :: "nat \<Rightarrow> nat list \<Rightarrow> nat list res" where
  "it_carry 0 index = Inl Out_of_bounds"
| "it_carry (Suc l) index =
     (let v = index ! l + 1
      in if v = 512 then if l = 0 then Inl Assert_failed else it_carry l (index[l := 0])
         else Inr (index[l := v]))"

definition it_next :: "nat \<Rightarrow> iterator \<Rightarrow> iterator res" where
  "it_next l it =
     (if l = 0 \<or> 4 < l then Inl Assert_failed
      else bindE (it_carry l (take l (it_index it) @ replicate (4 - l) 0)) (\<lambda>index. Inr (it\<lparr>it_index := index\<rparr>)))"

definition it_differs :: "iterator \<Rightarrow> iterator \<Rightarrow> bool" where
  "it_differs it other \<longleftrightarrow> it_index other \<noteq> it_index it \<or> it_table other ! 0 \<noteq> it_table it ! 0"

section \<open>Entries\<close>

definition table_of :: "u64 \<Rightarrow> u64" where
  "table_of e = linear_offset OR (e AND NOT 0xfff)"

text \<open>\<open>check_table\<close> and the constant version of \<open>entry\<close>, which call each other, on a memory \<open>m\<close>.\<close>

function check_table :: "memory \<Rightarrow> nat \<Rightarrow> iterator \<Rightarrow> (bool \<times> iterator) res"
  and entry_read :: "memory \<Rightarrow> nat \<Rightarrow> iterator \<Rightarrow> (u64 \<times> iterator) res"
  and entry_read_from :: "memory \<Rightarrow> nat \<Rightarrow> nat \<Rightarrow> iterator \<Rightarrow> (u64 \<times> iterator) res" where
  "check_table m l it =
     (if l = 0 \<or> 3 < l then Inr (l = 0, it)
      else bindE (entry_read m (l - 1) it) (\<lambda>(parent, it).
           if parent AND 1 \<noteq> 0 then Inr (True, it\<lparr>it_table := (it_table it)[l := table_of parent]\<rparr>) else Inr (False, it)))"
| "entry_read m l it = entry_read_from m 1 l it"
| "entry_read_from m i l it =
     (if i \<le> l
      then bindE (check_table m i it) (\<lambda>(ok, it). if ok then entry_read_from m (i + 1) l it else Inr (0, it))
      else bindE (array_get (it_table it) l) (\<lambda>p.
           bindE (array_get (it_index it) l) (\<lambda>i. bindE (pg_read m p i) (\<lambda>e. Inr (e, it)))))"
  by pat_completeness auto

termination
  by (relation "measures [\<lambda>x. case x of Inl (m, l, it) \<Rightarrow> 2 * l | Inr (Inl (m, l, it)) \<Rightarrow> 2 * l + 1 | Inr (Inr (m, i, l, it)) \<Rightarrow> 2 * l + 1,
      \<lambda>x. case x of Inl _ \<Rightarrow> 0 | Inr (Inl (m, l, it)) \<Rightarrow> l + 2 | Inr (Inr (m, i, l, it)) \<Rightarrow> l + 1 - i]") auto

declare check_table.simps [simp del] entry_read.simps [simp del] entry_read_from.simps [simp del]

text \<open>\<open>ensure_table\<close>, and the version of \<open>entry\<close> that returns a reference: the table, whose entry at the index of the
  iterator is the one referred to.\<close>

function ensure_table :: "nat \<Rightarrow> iterator \<Rightarrow> pages \<Rightarrow> (iterator \<times> pages) res"
  and entry_ref :: "nat \<Rightarrow> iterator \<Rightarrow> pages \<Rightarrow> (u64 \<times> iterator \<times> pages) res"
  and entry_ref_from :: "nat \<Rightarrow> nat \<Rightarrow> iterator \<Rightarrow> pages \<Rightarrow> (u64 \<times> iterator \<times> pages) res" where
  "ensure_table l it s =
     (if l = 0 \<or> 3 < l then Inr (it, s)
      else bindE (check_table (pg_mem s) l it) (\<lambda>(ok, it).
           if ok then Inr (it, s)
           else bindE (get_table_page s) (\<lambda>(table, s).
                bindE (entry_ref (l - 1) it s) (\<lambda>(parent, it, s).
                let phys = table AND NOT linear_offset;
                    flags = table_flags OR (if it_index it ! 0 < kernel_root_index then page_user else 0)
                in bindE (pg_write parent (it_index it ! (l - 1)) ((phys AND NOT 0xfff) OR flags) s) (\<lambda>s.
                   Inr (it\<lparr>it_table := (it_table it)[l := table]\<rparr>, s))))))"
| "entry_ref l it s = entry_ref_from 1 l it s"
| "entry_ref_from i l it s =
     (if i \<le> l
      then bindE (ensure_table i it s) (\<lambda>(it, s). entry_ref_from (i + 1) l it s)
      else bindE (array_get (it_table it) l) (\<lambda>p. Inr (p, it, s)))"
  by pat_completeness auto

termination
  by (relation "measures [\<lambda>x. case x of Inl (l, it, s) \<Rightarrow> 2 * l | Inr (Inl (l, it, s)) \<Rightarrow> 2 * l + 1 | Inr (Inr (i, l, it, s)) \<Rightarrow> 2 * l + 1,
      \<lambda>x. case x of Inl _ \<Rightarrow> 0 | Inr (Inl (l, it, s)) \<Rightarrow> l + 2 | Inr (Inr (i, l, it, s)) \<Rightarrow> l + 1 - i]") auto

declare ensure_table.simps [simp del] entry_ref.simps [simp del] entry_ref_from.simps [simp del]

fun it_depth_loop :: "nat \<Rightarrow> memory \<Rightarrow> nat \<Rightarrow> iterator \<Rightarrow> nat res" where
  "it_depth_loop 0 m i it = Inr 3"
| "it_depth_loop (Suc k) m i it =
     bindE (entry_read m i it) (\<lambda>(e, it). if e AND 1 = 0 then Inr i else it_depth_loop k m (i + 1) it)"

definition it_depth :: "memory \<Rightarrow> iterator \<Rightarrow> nat res" where
  "it_depth m it = it_depth_loop 4 m 0 it"

section \<open>Tables\<close>

definition pt_get :: "memory \<Rightarrow> u64 \<Rightarrow> nat \<Rightarrow> (u64 \<times> u64) option res" where
  "pt_get m p i = bindE (pg_read m p i) (\<lambda>e. Inr (if e AND 1 = 0 then None else Some ((e AND NOT 0xfff) + linear_offset, e AND 0xfff)))"

definition pt_set :: "u64 \<Rightarrow> nat \<Rightarrow> u64 \<Rightarrow> u64 \<Rightarrow> pages \<Rightarrow> pages res" where
  "pt_set p i q flags s = pg_write p i ((q - linear_offset) OR (flags AND 0xfff)) s"

definition is_present :: "u64 \<Rightarrow> bool" where
  "is_present e \<longleftrightarrow> e AND 0x1 = 0x1"

definition is_large_page :: "nat \<Rightarrow> u64 \<Rightarrow> bool" where
  "is_large_page l e \<longleftrightarrow> (l = 1 \<or> l = 2) \<and> e AND 0x80 = 0x80"

definition is_page :: "nat \<Rightarrow> u64 \<Rightarrow> bool" where
  "is_page l e \<longleftrightarrow> l = 3 \<or> is_large_page l e"

definition entry_sizes :: "u64 list" where
  "entry_sizes = [0x8000000000, 0x40000000, 0x200000, 0x1000]"

definition page_count :: "u64 \<Rightarrow> u64" where
  "page_count bytes = drop_bit 12 (bytes - 1) + 1"

text \<open>\<open>free\<close>, for the levels the tables have.\<close>

function pt_free :: "nat \<Rightarrow> u64 \<Rightarrow> pages \<Rightarrow> pages res"
  and pt_free_loop :: "nat \<Rightarrow> nat \<Rightarrow> nat \<Rightarrow> u64 \<Rightarrow> pages \<Rightarrow> pages res" where
  "pt_free l p s =
     (if 3 < l then Inl Out_of_bounds
      else bindE (pt_free_loop l 0 (if l = 0 then kernel_root_index else 512) p s) (free_table_page p))"
| "pt_free_loop l i bound p s =
     (if 3 < l \<or> bound \<le> i then Inr s
      else bindE (bindE (pg_read (pg_mem s) p i) (\<lambda>e.
             if \<not> is_present e then Inr s
             else if is_page l e
             then bindE (fa_free (pg_blocks s) (e AND NOT 0xfff) (page_count (entry_sizes ! l))) (\<lambda>bs. Inr (s\<lparr>pg_blocks := bs\<rparr>))
             else pt_free (l + 1) ((e AND NOT 0xfff) + linear_offset) s)) (\<lambda>s. pt_free_loop l (i + 1) bound p s))"
  by pat_completeness auto

termination
  by (relation "measures [\<lambda>x. case x of Inl (l, p, s) \<Rightarrow> 2 * (4 - l) + 1 | Inr (l, i, bound, p, s) \<Rightarrow> 2 * (4 - l),
      \<lambda>x. case x of Inl _ \<Rightarrow> 0 | Inr (l, i, bound, p, s) \<Rightarrow> bound - i]") auto

declare pt_free.simps [simp del] pt_free_loop.simps [simp del]

section \<open>The tree of tables\<close>

text \<open>The table a path of indices leads to, and the entry at the last index of a path of four.\<close>

fun walk :: "memory \<Rightarrow> u64 \<Rightarrow> nat list \<Rightarrow> u64 option" where
  "walk m p [] = Some p"
| "walk m p (i # is) = (if m p ! i AND 1 = 0 then None else walk m (table_of (m p ! i)) is)"

definition pte :: "memory \<Rightarrow> u64 \<Rightarrow> nat list \<Rightarrow> u64" where
  "pte m root path = (case walk m root (take 3 path) of None \<Rightarrow> 0 | Some p \<Rightarrow> m p ! (path ! 3))"

definition valid_path :: "nat list \<Rightarrow> bool" where
  "valid_path path \<longleftrightarrow> length path \<le> 3 \<and> (\<forall>i \<in> set path. i < 512)"

definition valid_index :: "nat list \<Rightarrow> bool" where
  "valid_index idx \<longleftrightarrow> length idx = 4 \<and> (\<forall>i \<in> set idx. i < 512)"

definition tables :: "memory \<Rightarrow> u64 \<Rightarrow> u64 set" where
  "tables m root = {q. \<exists>path. valid_path path \<and> walk m root path = Some q}"

definition page_like :: "u64 \<Rightarrow> bool" where
  "page_like p \<longleftrightarrow> table_of p = p"

text \<open>No table is reached on two paths, and the tables are pages of the linear area.\<close>

definition tree_ok :: "memory \<Rightarrow> u64 \<Rightarrow> bool" where
  "tree_ok m root \<longleftrightarrow> page_like root \<and>
     (\<forall>xs ys q. valid_path xs \<longrightarrow> valid_path ys \<longrightarrow> walk m root xs = Some q \<longrightarrow> walk m root ys = Some q \<longrightarrow> xs = ys)"

lemma tree_okD: "tree_ok m root \<Longrightarrow> valid_path xs \<Longrightarrow> valid_path ys \<Longrightarrow> walk m root xs = Some q \<Longrightarrow> walk m root ys = Some q \<Longrightarrow> xs = ys"
  unfolding tree_ok_def by blast

lemma walk_append: "walk m p (xs @ ys) = Option.bind (walk m p xs) (\<lambda>q. walk m q ys)"
  by (induction m p xs rule: walk.induct) auto

lemma walk_snoc: "walk m p (xs @ [i]) = (case walk m p xs of None \<Rightarrow> None | Some q \<Rightarrow> if m q ! i AND 1 = 0 then None else Some (table_of (m q ! i)))"
  by (simp add: walk_append split: option.splits)

lemma valid_path_snoc [simp]: "valid_path (xs @ [i]) \<longleftrightarrow> length xs \<le> 2 \<and> valid_path xs \<and> i < 512"
  by (auto simp: valid_path_def)

lemma valid_path_Nil [simp]: "valid_path []" by (simp add: valid_path_def)

lemma valid_index_take: "valid_index idx \<Longrightarrow> j \<le> 3 \<Longrightarrow> valid_path (take j idx)"
  by (auto simp: valid_index_def valid_path_def dest: in_set_takeD)

lemma valid_index_nth: "valid_index idx \<Longrightarrow> j < 4 \<Longrightarrow> idx ! j < 512"
  by (simp add: valid_index_def)

lemma take_Suc_idx: "valid_index idx \<Longrightarrow> j < 4 \<Longrightarrow> take (Suc j) idx = take j idx @ [idx ! j]"
  by (simp add: valid_index_def take_Suc_conv_app_nth)

lemma valid_index_eq: "valid_index xs \<Longrightarrow> valid_index ys \<Longrightarrow> take 3 xs = take 3 ys \<Longrightarrow> xs ! 3 = ys ! 3 \<Longrightarrow> xs = ys"
proof -
  assume a: "valid_index xs" "valid_index ys" "take 3 xs = take 3 ys" "xs ! 3 = ys ! 3"
  then have "take (Suc 3) xs = take (Suc 3) ys" using take_Suc_idx [of xs 3] take_Suc_idx [of ys 3] by (simp del: take_Suc)
  with a show ?thesis by (simp add: valid_index_def)
qed

lemma table_in_tables: "valid_path xs \<Longrightarrow> walk m root xs = Some q \<Longrightarrow> q \<in> tables m root"
  by (auto simp: tables_def)

lemma root_in_tables [simp]: "root \<in> tables m root"
  by (rule table_in_tables [of "[]"]) simp_all

lemma bit_4095 [simp]: "bit (0xfff :: u64) n \<longleftrightarrow> n < 12"
proof -
  have "(0xfff :: u64) = mask 12" by (simp add: mask_eq_exp_minus_1)
  then show ?thesis by (simp only: bit_mask_iff) auto
qed

lemma bit_page_mask [simp]: "bit (- 4096 :: int) n \<longleftrightarrow> 12 \<le> n"
proof -
  have e: "(- 4096 :: int) = push_bit 12 (- 1)" by (simp add: push_bit_eq_mult)
  show ?thesis unfolding e by (simp only: bit_push_bit_iff) auto
qed

lemma bit_linear [simp]: "bit linear_offset n \<longleftrightarrow> 46 \<le> n \<and> n < 64"
proof -
  have e: "linear_offset = push_bit 46 (mask 18)" by (simp add: linear_offset_def mask_eq_exp_minus_1)
  show ?thesis unfolding e by (auto simp: bit_push_bit_iff bit_mask_iff)
qed

lemma bit_table_of: "bit (table_of e) n \<longleftrightarrow> n < 64 \<and> (46 \<le> n \<or> 12 \<le> n \<and> bit e n)"
  by (auto simp: table_of_def bit_or_iff bit_and_iff dest: bit_u64_less)

lemma page_like_table_of [simp]: "page_like (table_of e)"
  unfolding page_like_def by (rule u64_eqI) (auto simp: bit_table_of)

lemma page_like_nonzero: "page_like p \<Longrightarrow> p \<noteq> 0"
  using bit_table_of [of p 46] by (auto simp: page_like_def)

lemma walk_page_like: "page_like root \<Longrightarrow> walk m root xs = Some q \<Longrightarrow> page_like q"
  by (induction xs arbitrary: q rule: rev_induct) (auto simp: walk_snoc split: option.splits if_splits)

subsection \<open>Changes to the memory\<close>

lemma walk_cong:
  assumes "\<And>q. q \<in> tables m root \<Longrightarrow> m' q = m q" "valid_path xs"
  shows "walk m' root xs = walk m root xs"
  using assms(2)
proof (induction xs rule: rev_induct)
  case (snoc i xs)
  then have IH: "walk m' root xs = walk m root xs" by simp
  show ?case using assms(1) [OF table_in_tables, of xs] snoc.prems by (auto simp: walk_snoc IH split: option.splits)
qed simp

lemma pte_cong:
  assumes "\<And>q. q \<in> tables m root \<Longrightarrow> m' q = m q" "valid_index idx"
  shows "pte m' root idx = pte m root idx"
proof -
  have v: "valid_path (take 3 idx)" using assms(2) by (simp add: valid_index_take)
  show ?thesis using assms(1) table_in_tables [OF v, of m root] by (auto simp: pte_def walk_cong [OF assms(1) v] split: option.splits)
qed

lemma tables_cong: "(\<And>q. q \<in> tables m root \<Longrightarrow> m' q = m q) \<Longrightarrow> tables m' root = tables m root"
  unfolding tables_def by (rule Collect_cong) (metis walk_cong tables_def)

lemma tree_ok_cong: "(\<And>q. q \<in> tables m root \<Longrightarrow> m' q = m q) \<Longrightarrow> tree_ok m root \<Longrightarrow> tree_ok m' root"
  by (simp add: tree_ok_def walk_cong [of m root m'])

text \<open>An entry of a table of the last level is written.\<close>

lemma walk_write_leaf:
  assumes ok: "tree_ok m root" and q: "walk m root path = Some q" "valid_path path" "length path = 3" and v: "valid_path xs"
    and m': "\<And>r. r \<noteq> q \<Longrightarrow> m' r = m r"
  shows "walk m' root xs = walk m root xs"
  using v
proof (induction xs rule: rev_induct)
  case (snoc i xs)
  then have IH: "walk m' root xs = walk m root xs" by simp
  have "walk m root xs \<noteq> Some q" using tree_okD [OF ok, of xs path q] q snoc.prems by auto
  then show ?case using m' by (auto simp: walk_snoc IH split: option.splits)
qed simp

lemma pte_write_leaf:
  assumes ok: "tree_ok m root" and q: "walk m root (take 3 idx) = Some q" "valid_index idx" and xs: "valid_index xs" and len: "length (m q) = 512"
  shows "pte (m(q := (m q)[idx ! 3 := v])) root xs = (if xs = idx then v else pte m root xs)"
proof -
  have v: "valid_path (take 3 xs)" "valid_path (take 3 idx)" "length (take 3 idx) = 3"
    using xs q(2) valid_index_take by (auto simp: valid_index_def)
  have w: "walk (m(q := (m q)[idx ! 3 := v])) root (take 3 xs) = walk m root (take 3 xs)" by (rule walk_write_leaf [OF ok q(1) v(2,3,1)]) simp
  show ?thesis
  proof (cases "walk m root (take 3 xs) = Some q")
    case True
    then have t: "take 3 xs = take 3 idx" using tree_okD [OF ok v(1,2) True q(1)] by simp
    show ?thesis
    proof (cases "xs ! 3 = idx ! 3")
      case True
      then have "xs = idx" using valid_index_eq [OF xs q(2) t] by simp
      then show ?thesis using q valid_index_nth [OF q(2), of 3] len w by (simp add: pte_def)
    next
      case False
      then have "xs \<noteq> idx" by auto
      then show ?thesis using False True by (simp add: pte_def w)
    qed
  next
    case False
    then have "xs \<noteq> idx" using q by auto
    then show ?thesis using False by (auto simp: pte_def w split: option.splits)
  qed
qed

text \<open>A new table is linked to a table above the last level.\<close>

lemma walk_link_aux:
  assumes ok: "tree_ok m root" and q: "walk m root path = Some q" "valid_path path" "length path \<le> 2" and i: "i < 512" "length (m q) = 512"
    and absent: "m q ! i AND 1 = 0" and e: "e AND 1 \<noteq> 0" "table_of e = t" and t: "t \<notin> tables m root" "m t = replicate 512 0" and v: "valid_path xs"
    and m': "\<And>r. r \<noteq> q \<Longrightarrow> m' r = m r" "m' q = (m q)[i := e]"
  shows "walk m' root xs = (if xs = path @ [i] then Some t else walk m root xs)"
  using v
proof (induction xs rule: rev_induct)
  case (snoc j xs)
  have IH: "walk m' root xs = (if xs = path @ [i] then Some t else walk m root xs)" using snoc by simp
  have tq: "t \<noteq> q" using t(1) table_in_tables [OF q(2,1)] by auto
  have j: "j < 512" "valid_path xs" using snoc.prems by simp_all
  consider "xs = path @ [i]" | "xs = path" | "xs \<noteq> path" "xs \<noteq> path @ [i]" by blast
  then show ?case
  proof cases
    case 1
    then have n: "walk m root xs = None" "xs @ [j] \<noteq> path @ [i]" "walk m' root xs = Some t" using IH q absent by (simp_all add: walk_snoc)
    have "m' t = replicate 512 0" using tq t(2) m' by simp
    then show ?thesis using n j by (simp add: walk_snoc)
  next
    case 2
    then show ?thesis using q absent e i j m' IH by (cases "j = i") (simp_all add: walk_snoc)
  next
    case 3
    then have "walk m root xs \<noteq> Some q" using tree_okD [OF ok j(2) q(2) _ q(1)] by auto
    then show ?thesis using 3 m' by (auto simp: walk_snoc IH split: option.splits)
  qed
qed simp

lemma walk_link:
  assumes "tree_ok m root" "walk m root path = Some q" "valid_path path" "length path \<le> 2" "i < 512" "length (m q) = 512"
    "m q ! i AND 1 = 0" "e AND 1 \<noteq> 0" "table_of e = t" "t \<notin> tables m root" "m t = replicate 512 0" "valid_path xs"
  shows "walk (m(q := (m q)[i := e])) root xs = (if xs = path @ [i] then Some t else walk m root xs)"
  by (rule walk_link_aux [OF assms]) simp_all

lemma pte_link:
  assumes link: "tree_ok m root" "walk m root path = Some q" "valid_path path" "length path \<le> 2" "i < 512" "length (m q) = 512"
    "m q ! i AND 1 = 0" "e AND 1 \<noteq> 0" "table_of e = t" "t \<notin> tables m root" "m t = replicate 512 0" and xs: "valid_index xs"
  shows "pte (m(q := (m q)[i := e])) root xs = pte m root xs"
proof -
  have v: "valid_path (take 3 xs)" "length (take 3 xs) = 3" "xs ! 3 < 512" using xs valid_index_take by (auto simp: valid_index_def)
  note w = walk_link [OF link v(1)]
  have tq: "t \<noteq> q" using link(10) table_in_tables [OF link(3,2)] by auto
  have n: "walk m root (path @ [i]) = None" using link(2,7) by (simp add: walk_snoc)
  have "walk m root (take 3 xs) \<noteq> Some q" using tree_okD [OF link(1) v(1) link(3) _ link(2)] v(2) link(4) by auto
  then show ?thesis using n tq link(11) v(3) by (auto simp: pte_def w split: option.splits)
qed

lemma tables_link:
  assumes link: "tree_ok m root" "walk m root path = Some q" "valid_path path" "length path \<le> 2" "i < 512" "length (m q) = 512"
    "m q ! i AND 1 = 0" "e AND 1 \<noteq> 0" "table_of e = t" "t \<notin> tables m root" "m t = replicate 512 0"
  shows "tables (m(q := (m q)[i := e])) root = insert t (tables m root)"
proof -
  have n: "walk m root (path @ [i]) = None" using link(2,7) by (simp add: walk_snoc)
  let ?m = "m(q := (m q)[i := e])"
  have "walk ?m root (path @ [i]) = Some t" "valid_path (path @ [i])" using link(3-5) walk_link [OF link, of "path @ [i]"] by simp_all
  moreover have "walk ?m root xs = Some x" if "valid_path xs" "walk m root xs = Some x" for xs x using that n walk_link [OF link that(1)] by auto
  moreover have "x = t \<or> walk m root xs = Some x" if "valid_path xs" "walk ?m root xs = Some x" for xs x
    using that walk_link [OF link that(1)] by (auto split: if_splits)
  ultimately show ?thesis unfolding tables_def by blast
qed

lemma tree_ok_link:
  assumes link: "tree_ok m root" "walk m root path = Some q" "valid_path path" "length path \<le> 2" "i < 512" "length (m q) = 512"
    "m q ! i AND 1 = 0" "e AND 1 \<noteq> 0" "table_of e = t" "t \<notin> tables m root" "m t = replicate 512 0"
  shows "tree_ok (m(q := (m q)[i := e])) root"
proof -
  have "walk m root ys \<noteq> Some t" if "valid_path ys" for ys using link(10) table_in_tables [OF that] by auto
  then show ?thesis using link(1) unfolding tree_ok_def by (auto simp: walk_link [OF link] split: if_splits)
qed

section \<open>Reading entries\<close>

definition sized :: "memory \<Rightarrow> bool" where
  "sized m \<longleftrightarrow> (\<forall>p. length (m p) = 512)"

definition it_ok :: "u64 \<Rightarrow> iterator \<Rightarrow> bool" where
  "it_ok root it \<longleftrightarrow> valid_index (it_index it) \<and> length (it_table it) = 4 \<and> it_table it ! 0 = root"

text \<open>The tables of the iterator up to level \<open>n\<close> are those on its path.\<close>

definition it_at :: "memory \<Rightarrow> u64 \<Rightarrow> nat \<Rightarrow> iterator \<Rightarrow> bool" where
  "it_at m root n it \<longleftrightarrow> it_ok root it \<and> (\<forall>j \<le> n. \<forall>p. walk m root (take j (it_index it)) = Some p \<longrightarrow> it_table it ! j = p)"

lemma it_at_ok: "it_at m root n it \<Longrightarrow> it_ok root it"
  by (simp add: it_at_def)

lemma it_okD: "it_ok root it \<Longrightarrow> valid_index (it_index it)"
  by (simp add: it_ok_def)

lemma walk_take_None: "i \<le> l \<Longrightarrow> walk m root (take i idx) = None \<Longrightarrow> walk m root (take l idx) = None"
proof -
  assume a: "i \<le> l" "walk m root (take i idx) = None"
  have "take l idx = take i idx @ drop i (take l idx)" using a(1) by (metis append_take_drop_id min.absorb1 take_take)
  then show ?thesis using a(2) by (metis walk_append Option.bind.bind_lzero)
qed

lemma walk_take_Some: "i \<le> l \<Longrightarrow> walk m root (take l idx) = Some p \<Longrightarrow> \<exists>q. walk m root (take i idx) = Some q"
  using walk_take_None [of i l m root idx] by fastforce

definition entry_value :: "memory \<Rightarrow> u64 \<Rightarrow> nat \<Rightarrow> nat list \<Rightarrow> u64" where
  "entry_value m root l idx = (case walk m root (take l idx) of None \<Rightarrow> 0 | Some p \<Rightarrow> m p ! (idx ! l))"

definition check_correct :: "memory \<Rightarrow> u64 \<Rightarrow> nat \<Rightarrow> bool" where
  "check_correct m root l \<longleftrightarrow> (\<forall>it. it_ok root it \<longrightarrow> (\<exists>it'. check_table m l it = Inr (walk m root (take l (it_index it)) \<noteq> None, it') \<and>
     it_index it' = it_index it \<and> it_at m root l it'))"

lemma it_at_beyond: "it_at m root n it \<Longrightarrow> walk m root (take n (it_index it)) = None \<Longrightarrow> it_at m root l it"
  unfolding it_at_def by (metis nle_le option.distinct(1) walk_take_None)

lemma it_at_extend: "it_at m root n it \<Longrightarrow> walk m root (take (Suc n) (it_index it)) = None \<Longrightarrow> it_at m root (Suc n) it"
  by (auto simp: it_at_def le_Suc_eq)

lemma entry_read_from_correct:
  assumes "page_like root" "sized m" "\<And>i. 1 \<le> i \<Longrightarrow> i \<le> l \<Longrightarrow> check_correct m root i" "l \<le> 3"
    "it_at m root (i - 1) it" "1 \<le> i" "i \<le> l + 1" "walk m root (take (i - 1) (it_index it)) \<noteq> None"
  shows "\<exists>it'. entry_read_from m i l it = Inr (entry_value m root l (it_index it), it') \<and> it_index it' = it_index it \<and> it_at m root l it'"
  using assms(5-)
proof (induction "l + 1 - i" arbitrary: i it)
  case 0
  then have i: "i = l + 1" by simp
  obtain p where p: "walk m root (take l (it_index it)) = Some p" using 0 i by auto
  then have "it_table it ! l = p" using 0(2) i by (simp add: it_at_def)
  moreover have "p \<noteq> 0" using walk_page_like [OF assms(1) p] by (rule page_like_nonzero)
  moreover have "length (it_table it) = 4" "valid_index (it_index it)" using 0(2) by (simp_all add: it_at_def it_ok_def)
  moreover have "it_index it ! l < 512" "length (it_index it) = 4" using calculation assms(4) by (simp_all add: valid_index_def)
  ultimately have "entry_read_from m i l it = Inr (m p ! (it_index it ! l), it)" using i assms(2,4) by (simp add: entry_read_from.simps pg_read_def sized_def)
  then show ?case using 0(2) i p by (simp add: entry_value_def)
next
  case (Suc k)
  then have i: "i \<le> l" by simp
  obtain it1 where c: "check_table m i it = Inr (walk m root (take i (it_index it)) \<noteq> None, it1)" "it_index it1 = it_index it" "it_at m root i it1"
    using assms(3) [OF Suc.prems(2) i] it_at_ok [OF Suc.prems(1)] by (auto simp: check_correct_def)
  show ?case
  proof (cases "walk m root (take i (it_index it))")
    case None
    then have "walk m root (take l (it_index it)) = None" using walk_take_None i by blast
    then show ?thesis using None c i it_at_beyond [OF c(3)] by (subst entry_read_from.simps) (simp add: entry_value_def)
  next
    case (Some q)
    have "\<exists>it'. entry_read_from m (i + 1) l it1 = Inr (entry_value m root l (it_index it1), it') \<and> it_index it' = it_index it1 \<and> it_at m root l it'"
      using Suc.hyps(2) i c Some by (intro Suc.hyps(1)) auto
    then show ?thesis using Some c i by (subst entry_read_from.simps) simp
  qed
qed

lemma check_table_correct:
  assumes "page_like root" "sized m" "1 \<le> l" "l \<le> 3"
  shows "check_correct m root l"
  using assms(3,4)
proof (induction l rule: less_induct)
  case (less l)
  show ?case unfolding check_correct_def
  proof (intro allI impI)
    fix it assume it: "it_ok root it"
    then have "it_at m root 0 it" by (simp add: it_at_def it_ok_def)
    moreover have "l - 1 \<le> 3" using less.prems by simp
    ultimately obtain it1 where r: "entry_read m (l - 1) it = Inr (entry_value m root (l - 1) (it_index it), it1)" "it_index it1 = it_index it" "it_at m root (l - 1) it1"
      using entry_read_from_correct [where l = "l - 1" and i = 1 and it = it, OF assms(1,2)] less by (auto simp: entry_read.simps)
    have t: "take l (it_index it) = take (l - 1) (it_index it) @ [it_index it ! (l - 1)]"
      using take_Suc_idx [OF it_okD [OF it], of "l - 1"] less.prems by simp
    have w: "walk m root (take l (it_index it)) = (let e = entry_value m root (l - 1) (it_index it) in if e AND 1 = 0 then None else Some (table_of e))"
      unfolding t walk_snoc by (simp add: entry_value_def split: option.splits)
    show "\<exists>it'. check_table m l it = Inr (walk m root (take l (it_index it)) \<noteq> None, it') \<and> it_index it' = it_index it \<and> it_at m root l it'"
    proof (cases "entry_value m root (l - 1) (it_index it) AND 1 = 0")
      case True
      moreover have "it_at m root l it1" using it_at_extend [OF r(3)] r(2) w True less.prems(1) by simp
      ultimately show ?thesis using r w less.prems by (subst check_table.simps) simp
    next
      case False
      let ?it = "it1\<lparr>it_table := (it_table it1)[l := table_of (entry_value m root (l - 1) (it_index it))]\<rparr>"
      have "it_at m root l ?it" using r(2,3) w False less.prems by (auto simp: it_at_def it_ok_def nth_list_update)
      then show ?thesis using False r w less.prems by (subst check_table.simps) simp
    qed
  qed
qed

lemma entry_read_correct:
  assumes "page_like root" "sized m" "l \<le> 3" "it_ok root it"
  shows "\<exists>it'. entry_read m l it = Inr (entry_value m root l (it_index it), it') \<and> it_index it' = it_index it \<and> it_at m root l it'"
proof -
  have "it_at m root 0 it" using assms(4) by (simp add: it_at_def it_ok_def)
  then show ?thesis
    using entry_read_from_correct [where l = l and i = 1 and it = it, OF assms(1,2)] check_table_correct [OF assms(1,2)] assms(3) by (auto simp: entry_read.simps)
qed

section \<open>Pages for new tables\<close>

definition frame_addr :: "frame_block \<Rightarrow> nat \<Rightarrow> u64" where
  "frame_addr b f = fb_base b + of_nat f * frame_size"

text \<open>All frames are in the part of memory that the linear area maps.\<close>

definition blocks_linear :: "frame_block list \<Rightarrow> bool" where
  "blocks_linear bs \<longleftrightarrow> (\<forall>b \<in> set bs. unat (fb_base b) + unat (fb_count b) * 4096 \<le> 2 ^ 46)"

definition free_pages :: "frame_block list \<Rightarrow> u64 set" where
  "free_pages bs = {frame_addr b f + linear_offset |b f. b \<in> set bs \<and> f \<in> fb_free b}"

definition frames_left :: "frame_block list \<Rightarrow> nat" where
  "frames_left bs = (\<Sum>b \<leftarrow> bs. card (fb_free b))"

definition run_of :: "u64 \<Rightarrow> nat \<Rightarrow> u64 list" where
  "run_of p n = map (\<lambda>k. p + of_nat k * frame_size) [0..<n]"

fun chain :: "memory \<Rightarrow> u64 \<Rightarrow> u64 list \<Rightarrow> bool" where
  "chain m p [] \<longleftrightarrow> p = 0"
| "chain m p (q # qs) \<longleftrightarrow> p = q \<and> chain m (m q ! 0) qs"

lemma free_pagesI: "b \<in> set bs \<Longrightarrow> f \<in> fb_free b \<Longrightarrow> frame_addr b f + linear_offset \<in> free_pages bs"
  by (auto simp: free_pages_def)

lemma fb_free_finite: "finite (fb_free b)"
proof -
  have "fb_free b \<subseteq> {..< 64 * length (fb_bitmap b)}" by (auto simp: fb_free_def)
  then show ?thesis by (rule finite_subset) simp
qed

lemma unat_frame_addr:
  assumes "fb_wf b" "f < unat (fb_count b)"
  shows "unat (frame_addr b f) = unat (fb_base b) + f * 4096"
proof -
  have f: "f < 262144" using assms by (simp add: fb_wf_def)
  then have "unat (of_nat f * frame_size :: u64) = f * 4096" by (simp add: unat_word_ariths unat_of_nat take_bit_nat_def)
  then show ?thesis using assms by (simp add: frame_addr_def unat_add_no_wrap fb_wf_def)
qed

lemma fb_free_count: "fb_wf b \<Longrightarrow> f \<in> fb_free b \<Longrightarrow> f < unat (fb_count b)"
  by (auto simp: fb_wf_def)

lemma frame_addr_contained: "fb_wf b \<Longrightarrow> f \<in> fb_free b \<Longrightarrow> fb_contains b (frame_addr b f)"
  using fb_frame_contained(1) [OF _ fb_free_count] by (simp add: frame_addr_def)

lemma frame_addr_inj:
  assumes wf: "fa_wf bs" and i: "i < length bs" "f \<in> fb_free (bs ! i)" and j: "j < length bs" "g \<in> fb_free (bs ! j)" and eq: "frame_addr (bs ! i) f = frame_addr (bs ! j) g"
  shows "i = j \<and> f = g"
proof -
  have w: "fb_wf (bs ! i)" "fb_wf (bs ! j)" using wf i j by (simp_all add: fa_wf_def)
  have c: "fb_contains (bs ! i) (frame_addr (bs ! i) f)" "fb_contains (bs ! j) (frame_addr (bs ! i) f)"
    using frame_addr_contained [OF w(1) i(2)] frame_addr_contained [OF w(2) j(2)] eq by simp_all
  have "i = j"
  proof (rule ccontr)
    assume "i \<noteq> j"
    then have "fb_end (bs ! i) \<le> fb_base (bs ! j) \<or> fb_end (bs ! j) \<le> fb_base (bs ! i)" using wf i j by (simp add: fa_wf_def)
    then show False using c by (auto simp: fb_contains_def)
  qed
  moreover have "unat (frame_addr (bs ! i) f) = unat (frame_addr (bs ! i) g)" using eq calculation by simp
  ultimately show ?thesis using unat_frame_addr [OF w(1) fb_free_count [OF w(1) i(2)]] unat_frame_addr [OF w(1) fb_free_count [OF w(1)], of g] j(2) by simp
qed

lemma or_linear: "unat a < 2 ^ 46 \<Longrightarrow> a OR linear_offset = a + linear_offset"
proof -
  assume a: "unat a < 2 ^ 46"
  have "\<not> bit a n" if "46 \<le> n" for n using a bit_imp_exp_le [of a n] power_increasing [OF that, of "2 :: nat"] by auto
  then have "a AND linear_offset = 0" by (intro u64_eqI) (auto simp: bit_and_iff)
  then show ?thesis using word_plus_and_or [of a linear_offset] by simp
qed

lemma page_like_frame:
  assumes "unat a < 2 ^ 46" "a mod frame_size = 0"
  shows "page_like (a + linear_offset)"
proof -
  have low: "12 \<le> n" if "bit a n" for n
  proof (rule ccontr)
    assume "\<not> 12 \<le> n"
    have "a mod 2 ^ 12 = 0" using assms(2) by simp
    then have "take_bit 12 a = 0" by (simp add: take_bit_eq_mod)
    with \<open>\<not> 12 \<le> n\<close> show False using that bit_take_bit_iff [of 12 a n] by simp
  qed
  have "table_of (a OR linear_offset) = a OR linear_offset"
    by (rule u64_eqI) (auto simp: bit_table_of bit_or_iff dest: low)
  then show ?thesis using or_linear [OF assms(1)] by (simp add: page_like_def)
qed

lemma sum_list_update_nat: "i < length xs \<Longrightarrow> (\<Sum>x \<leftarrow> xs[i := y]. f x) + f (xs ! i) = (\<Sum>x \<leftarrow> xs. f x) + (f y :: nat)"
  by (induction xs arbitrary: i) (auto split: nat.splits simp: nth_Cons list_update.simps)

lemma frames_left_pos: "0 < frames_left bs \<Longrightarrow> \<exists>b \<in> set bs. fb_free b \<noteq> {}"
proof (rule ccontr)
  assume "0 < frames_left bs" "\<not> (\<exists>b \<in> set bs. fb_free b \<noteq> {})"
  moreover from this(2) have "map (\<lambda>b. card (fb_free b)) bs = map (\<lambda>_. 0) bs" by simp
  ultimately show False by (simp add: frames_left_def)
qed

lemma allocate_pages:
  assumes wf: "fa_wf bs" "blocks_linear bs" and left: "0 < frames_left bs"
  obtains n phys bs' where "fa_allocate bs 32 = Inr (n, phys, bs')" "0 < n" "fa_wf bs'" "blocks_linear bs'" "frames_left bs' + n = frames_left bs"
    "set (run_of (phys OR linear_offset) n) \<subseteq> free_pages bs" "free_pages bs' \<subseteq> free_pages bs - set (run_of (phys OR linear_offset) n)"
    "distinct (run_of (phys OR linear_offset) n)" "\<forall>p \<in> set (run_of (phys OR linear_offset) n). page_like p"
proof -
  obtain n phys bs' i f where a: "fa_allocate bs 32 = Inr (n, phys, bs')" "fa_allocated bs 32 n phys bs' i f" "fa_wf bs'"
    using fa_allocate_spec [OF wf(1) _ _ frames_left_pos [OF left], of 32] unfolding unat_numeral by (simp; blast)
  then obtain b where b: "i < length bs" "0 < n" "phys = frame_addr (bs ! i) f" "{f ..< f + n} \<subseteq> fb_free (bs ! i)" "bs' = bs[i := b]" "fb_same (bs ! i) b"
      "fb_free b = fb_free (bs ! i) - {f ..< f + n}"
    by (auto simp: fa_allocated_def frame_addr_def)
  have bi: "fb_wf (bs ! i)" "bs ! i \<in> set bs" using wf(1) b(1) by (simp_all add: fa_wf_def)
  have lin: "unat (frame_addr (bs ! j) g) < 2 ^ 46" if "j < length bs" "g \<in> fb_free (bs ! j)" for j g
  proof -
    have w: "fb_wf (bs ! j)" using wf(1) that by (simp add: fa_wf_def)
    have "unat (fb_base (bs ! j)) + unat (fb_count (bs ! j)) * 4096 \<le> 2 ^ 46" using wf(2) that(1) by (simp add: blocks_linear_def)
    then show ?thesis using unat_frame_addr [OF w fb_free_count [OF w that(2)]] fb_free_count [OF w that(2)] by simp
  qed
  have step: "frame_addr (bs ! i) (f + k) = phys + of_nat k * frame_size" for k by (simp add: b(3) frame_addr_def algebra_simps)
  have mem: "f + k \<in> fb_free (bs ! i)" if "k < n" for k using b(4) that by auto
  have "phys OR linear_offset = phys + linear_offset" using or_linear [OF lin [OF b(1) mem [OF b(2)]]] step [of 0] by simp
  then have run: "run_of (phys OR linear_offset) n = map (\<lambda>k. frame_addr (bs ! i) (f + k) + linear_offset) [0..<n]"
    unfolding run_of_def step by (simp add: ac_simps)
  show thesis
  proof (rule that [OF a(1) b(2) a(3)])
    show "blocks_linear bs'" using wf(2) b(1,5,6) by (auto simp: blocks_linear_def fb_same_def dest!: set_update_subset_insert [THEN subsetD])
    have "card (fb_free b) + n = card (fb_free (bs ! i))" using b(4,7) card_mono [OF fb_free_finite b(4)] by (simp add: card_Diff_subset)
    then show "frames_left bs' + n = frames_left bs" using sum_list_update_nat [OF b(1), of "\<lambda>b. card (fb_free b)" b] by (simp add: frames_left_def b(5))
    show "set (run_of (phys OR linear_offset) n) \<subseteq> free_pages bs" unfolding run using free_pagesI [OF bi(2) mem] by auto
    show "distinct (run_of (phys OR linear_offset) n)"
      unfolding run distinct_map using frame_addr_inj [OF wf(1) b(1) mem b(1) mem] by (auto simp: inj_on_def)
    have "page_like (frame_addr (bs ! i) (f + k) + linear_offset)" if "k < n" for k
      using page_like_frame [OF lin [OF b(1) mem [OF that]]] fb_frame_contained(2) [OF bi(1) fb_free_count [OF bi(1) mem [OF that]]] by (simp add: frame_addr_def)
    then show "\<forall>p \<in> set (run_of (phys OR linear_offset) n). page_like p" unfolding run by auto
    show "free_pages bs' \<subseteq> free_pages bs - set (run_of (phys OR linear_offset) n)"
    proof
      fix p assume "p \<in> free_pages bs'"
      then obtain j g where j: "j < length bs" "g \<in> fb_free (bs' ! j)" "p = frame_addr (bs' ! j) g + linear_offset"
        by (auto simp: free_pages_def in_set_conv_nth b(5))
      have g: "frame_addr (bs' ! j) g = frame_addr (bs ! j) g" "g \<in> fb_free (bs ! j)" "j = i \<Longrightarrow> g \<notin> {f ..< f + n}"
        using j b(1,5,6,7) by (cases "j = i"; auto simp: frame_addr_def fb_same_def)+
      have "p \<notin> set (run_of (phys OR linear_offset) n)" unfolding run using frame_addr_inj [OF wf(1) j(1) g(2) b(1) mem] g j(3) by auto
      then show "p \<in> free_pages bs - set (run_of (phys OR linear_offset) n)" using j g free_pagesI [of "bs ! j" bs g] by simp
    qed
  qed
qed

text \<open>The cache holds the pages \<open>ps\<close>; no page of \<open>A\<close> is in the cache or free.\<close>

definition cache_ok :: "pages \<Rightarrow> u64 set \<Rightarrow> u64 list \<Rightarrow> bool" where
  "cache_ok s A ps \<longleftrightarrow> fa_wf (pg_blocks s) \<and> blocks_linear (pg_blocks s) \<and> sized (pg_mem s) \<and> chain (pg_mem s) (pg_cache s) ps \<and> distinct ps \<and>
     (\<forall>p \<in> set ps. page_like p) \<and> set ps \<inter> A = {} \<and> free_pages (pg_blocks s) \<inter> (set ps \<union> A) = {}"

lemma chain_cong: "(\<And>q. q \<in> set ps \<Longrightarrow> m' q ! 0 = m q ! 0) \<Longrightarrow> chain m' p ps = chain m p ps"
  by (induction ps arbitrary: p) auto

lemma run_of_Suc: "run_of p (Suc n) = p # run_of (p + frame_size) n"
  by (rule nth_equalityI) (auto simp: run_of_def nth_Cons algebra_simps split: nat.splits simp del: upt_Suc)

lemma run_of_snoc: "run_of p (Suc n) = run_of p n @ [p + of_nat n * frame_size]"
  by (simp add: run_of_def)

lemma sized_upd: "sized m \<Longrightarrow> length es = 512 \<Longrightarrow> sized (m(p := es))"
  by (simp add: sized_def)

lemma pg_write_ok: "sized (pg_mem s) \<Longrightarrow> p \<noteq> 0 \<Longrightarrow> i < 512 \<Longrightarrow> pg_write p i v s = Inr (s\<lparr>pg_mem := (pg_mem s)(p := (pg_mem s p)[i := v])\<rparr>)"
  by (simp add: pg_write_def sized_def)

text \<open>Linking a run of pages, and the last of them to what the cache held.\<close>

lemma link_pages_ok:
  assumes "sized (pg_mem s)" "distinct (run_of p (Suc k))" "\<forall>q \<in> set (run_of p (Suc k)). page_like q"
  obtains m where "link_pages k p s = Inr (s\<lparr>pg_mem := m\<rparr>)" "sized m" "\<And>q. q \<notin> set (run_of p k) \<Longrightarrow> m q = pg_mem s q"
    "\<And>m'. (\<And>q. q \<in> set (run_of p k) \<Longrightarrow> m' q ! 0 = m q ! 0) \<Longrightarrow> chain m' p (run_of p (Suc k)) = (m' (p + of_nat k * frame_size) ! 0 = 0)"
  using assms
proof (induction k arbitrary: p s thesis)
  case 0
  show ?case by (rule "0.prems"(1) [of "pg_mem s"]) (use "0.prems" in \<open>simp_all add: run_of_def\<close>)
next
  case (Suc k)
  let ?p = "p + frame_size" and ?s = "s\<lparr>pg_mem := (pg_mem s)(p := (pg_mem s p)[0 := p + frame_size])\<rparr>"
  have p: "p \<noteq> 0" "p \<notin> set (run_of ?p (Suc k))" using Suc.prems(3,4) by (auto simp: run_of_Suc [of p "Suc k"] dest: page_like_nonzero)
  have w: "pg_write p 0 ?p s = Inr ?s" using Suc.prems(2) p(1) by (simp add: pg_write_ok)
  have sz: "sized (pg_mem ?s)" "length (pg_mem s p) = 512" using Suc.prems(2) by (auto simp: sized_def)
  obtain m where m: "link_pages k ?p ?s = Inr (?s\<lparr>pg_mem := m\<rparr>)" "sized m" "\<And>q. q \<notin> set (run_of ?p k) \<Longrightarrow> m q = pg_mem ?s q"
    "\<And>m'. (\<And>q. q \<in> set (run_of ?p k) \<Longrightarrow> m' q ! 0 = m q ! 0) \<Longrightarrow> chain m' ?p (run_of ?p (Suc k)) = (m' (?p + of_nat k * frame_size) ! 0 = 0)"
    using Suc.IH [OF _ sz(1), of ?p] Suc.prems(3,4) by (auto simp: run_of_Suc [of p "Suc k"])
  have mp: "m p = pg_mem ?s p" using m(3) p(2) by (simp add: run_of_snoc)
  show ?case
  proof (rule Suc.prems(1) [of m])
    show "link_pages (Suc k) p s = Inr (s\<lparr>pg_mem := m\<rparr>)" using w m(1) by simp
    show "m q = pg_mem s q" if "q \<notin> set (run_of p (Suc k))" for q using that m(3) [of q] by (simp add: run_of_Suc)
    show "chain m' p (run_of p (Suc (Suc k))) = (m' (p + of_nat (Suc k) * frame_size) ! 0 = 0)"
      if "\<And>q. q \<in> set (run_of p (Suc k)) \<Longrightarrow> m' q ! 0 = m q ! 0" for m'
    proof -
      have "m' p ! 0 = ?p" using that [of p] mp sz(2) by (simp add: run_of_Suc)
      moreover have "chain m' ?p (run_of ?p (Suc k)) = (m' (?p + of_nat k * frame_size) ! 0 = 0)" using that by (intro m(4)) (simp_all add: run_of_Suc [of p k])
      ultimately show ?thesis by (simp add: run_of_Suc [of p "Suc k"] algebra_simps)
    qed
  qed (rule m(2))
qed

lemma fill_cache_ok:
  assumes c: "cache_ok s A []" and left: "0 < frames_left (pg_blocks s)"
  obtains s' ps where "fill_table_page_cache s = Inr s'" "cache_ok s' A ps" "ps \<noteq> []" "length ps + frames_left (pg_blocks s') = frames_left (pg_blocks s)"
    "\<And>q. q \<in> A \<Longrightarrow> pg_mem s' q = pg_mem s q"
proof -
  have C: "fa_wf (pg_blocks s)" "blocks_linear (pg_blocks s)" "sized (pg_mem s)" "pg_cache s = 0" "free_pages (pg_blocks s) \<inter> A = {}"
    using c by (auto simp: cache_ok_def)
  obtain n phys bs where a: "fa_allocate (pg_blocks s) 32 = Inr (n, phys, bs)" "0 < n" "fa_wf bs" "blocks_linear bs" "frames_left bs + n = frames_left (pg_blocks s)"
    "set (run_of (phys OR linear_offset) n) \<subseteq> free_pages (pg_blocks s)" "free_pages bs \<subseteq> free_pages (pg_blocks s) - set (run_of (phys OR linear_offset) n)"
    "distinct (run_of (phys OR linear_offset) n)" "\<forall>p \<in> set (run_of (phys OR linear_offset) n). page_like p"
    by (rule allocate_pages [OF C(1,2) left])
  define p k where "p = phys OR linear_offset" and "k = n - 1"
  have n: "n = Suc k" using a(2) by (simp add: k_def)
  note A = a(6-9) [folded p_def, unfolded n]
  let ?s = "s\<lparr>pg_blocks := bs\<rparr>" and ?z = "p + of_nat k * frame_size"
  have z: "?z \<noteq> 0" "?z \<notin> set (run_of p k)" "?z \<in> set (run_of p (Suc k))" using A(3,4) by (auto simp: run_of_snoc dest: page_like_nonzero)
  obtain m where m: "link_pages k p ?s = Inr (?s\<lparr>pg_mem := m\<rparr>)" "sized m" "\<And>q. q \<notin> set (run_of p k) \<Longrightarrow> m q = pg_mem ?s q"
    "\<And>m'. (\<And>q. q \<in> set (run_of p k) \<Longrightarrow> m' q ! 0 = m q ! 0) \<Longrightarrow> chain m' p (run_of p (Suc k)) = (m' ?z ! 0 = 0)"
    by (rule link_pages_ok [of ?s p k]) (use C(3) A(3,4) in simp_all)
  let ?m = "m(?z := (m ?z)[0 := 0])"
  let ?s' = "?s\<lparr>pg_mem := ?m, pg_cache := p\<rparr>"
  have "pg_write ?z 0 0 (?s\<lparr>pg_mem := m\<rparr>) = Inr (?s\<lparr>pg_mem := ?m\<rparr>)" using m(2) z(1) by (simp add: pg_write_ok)
  then have fill: "fill_table_page_cache s = Inr ?s'" using a(1,2) m(1) C(4) by (simp add: fill_table_page_cache_def Let_def p_def k_def)
  have len: "length (m ?z) = 512" using m(2) by (simp add: sized_def)
  have "chain ?m p (run_of p (Suc k)) = (?m ?z ! 0 = 0)" by (rule m(4)) (use z(2) in auto)
  then have ch: "chain ?m p (run_of p (Suc k))" using len by simp
  have keep: "?m q = pg_mem s q" if "q \<in> A" for q
    using that A(1) C(5) z(3) m(3) [of q] by (auto simp: run_of_snoc)
  show thesis
  proof (rule that [OF fill])
    show "cache_ok ?s' A (run_of p (Suc k))"
      using a(3,4) A C(5) ch sized_upd [OF m(2)] len unfolding cache_ok_def by (simp del: chain.simps) blast
    show "length (run_of p (Suc k)) + frames_left (pg_blocks ?s') = frames_left (pg_blocks s)" using a(5) n by (simp add: run_of_def)
  qed (use keep in \<open>simp_all add: run_of_def\<close>)
qed

lemma get_cached_page:
  assumes c: "cache_ok s A (t # ps)"
  shows "get_table_page s = Inr (t, s\<lparr>pg_cache := pg_mem s t ! 0, pg_mem := (pg_mem s)(t := replicate 512 0)\<rparr>)"
    "cache_ok (s\<lparr>pg_cache := pg_mem s t ! 0, pg_mem := (pg_mem s)(t := replicate 512 0)\<rparr>) (insert t A) ps" "t \<notin> A" "page_like t"
proof -
  have C: "sized (pg_mem s)" "pg_cache s = t" "chain (pg_mem s) (pg_mem s t ! 0) ps" "t \<notin> set ps" "page_like t" "t \<notin> A" using c by (auto simp: cache_ok_def)
  have "length (pg_mem s t) = 512" "t \<noteq> 0" using C(1) page_like_nonzero [OF C(5)] by (auto simp: sized_def)
  then show "get_table_page s = Inr (t, s\<lparr>pg_cache := pg_mem s t ! 0, pg_mem := (pg_mem s)(t := replicate 512 0)\<rparr>)"
    using C(2) by (simp add: get_table_page_def pg_read_def Let_def)
  have "chain ((pg_mem s)(t := replicate 512 0)) (pg_mem s t ! 0) ps" using C(3,4) by (subst chain_cong) auto
  then show "cache_ok (s\<lparr>pg_cache := pg_mem s t ! 0, pg_mem := (pg_mem s)(t := replicate 512 0)\<rparr>) (insert t A) ps"
    using c C(4) by (auto simp: cache_ok_def sized_def)
qed (use c in \<open>auto simp: cache_ok_def\<close>)

lemma get_table_page_ok:
  assumes c: "cache_ok s A ps" and left: "0 < length ps + frames_left (pg_blocks s)"
  obtains t s' ps' where "get_table_page s = Inr (t, s')" "cache_ok s' (insert t A) ps'" "Suc (length ps' + frames_left (pg_blocks s')) = length ps + frames_left (pg_blocks s)"
    "t \<notin> A" "page_like t" "pg_mem s' t = replicate 512 0" "\<And>q. q \<in> A \<Longrightarrow> pg_mem s' q = pg_mem s q"
proof (cases ps)
  case (Cons t qs)
  note g = get_cached_page [OF c [unfolded Cons]]
  show thesis by (rule that [OF g(1,2)]) (use g(3,4) Cons in auto)
next
  case Nil
  then obtain s1 ps1 where f: "fill_table_page_cache s = Inr s1" "cache_ok s1 A ps1" "ps1 \<noteq> []" "length ps1 + frames_left (pg_blocks s1) = frames_left (pg_blocks s)"
    "\<And>q. q \<in> A \<Longrightarrow> pg_mem s1 q = pg_mem s q"
    using fill_cache_ok [of s A] c left by auto
  obtain t qs where ps1: "ps1 = t # qs" using f(3) by (cases ps1) auto
  note g = get_cached_page [OF f(2) [unfolded ps1]]
  have "pg_cache s = 0" "pg_cache s1 = t" "t \<noteq> 0" using c Nil f(2) ps1 g(4) by (auto simp: cache_ok_def dest: page_like_nonzero)
  then have "get_table_page s = get_table_page s1" using f(1) by (simp add: get_table_page_def)
  then show thesis by (intro that [OF _ g(2)]) (use g f ps1 Nil in auto)
qed

section \<open>References to entries\<close>

text \<open>The tables under \<open>root\<close> form a tree, none of them is in the cache or free, and there are pages for \<open>k\<close> more tables. The pages of
  \<open>R\<close> belong to others.\<close>

definition pages_wf :: "pages \<Rightarrow> u64 \<Rightarrow> u64 set \<Rightarrow> nat \<Rightarrow> bool" where
  "pages_wf s root R k \<longleftrightarrow> tree_ok (pg_mem s) root \<and> tables (pg_mem s) root \<inter> R = {} \<and>
     (\<exists>ps. cache_ok s (tables (pg_mem s) root \<union> R) ps \<and> k \<le> length ps + frames_left (pg_blocks s))"

text \<open>Tables may be added, but nothing that is mapped changes.\<close>

definition grows :: "u64 \<Rightarrow> u64 set \<Rightarrow> memory \<Rightarrow> memory \<Rightarrow> bool" where
  "grows root R m m' \<longleftrightarrow> (\<forall>xs q. valid_path xs \<longrightarrow> walk m root xs = Some q \<longrightarrow> walk m' root xs = Some q) \<and>
     (\<forall>xs. valid_index xs \<longrightarrow> pte m' root xs = pte m root xs) \<and> (\<forall>q \<in> R. m' q = m q)"

lemma grows_refl [simp]: "grows root R m m"
  by (simp add: grows_def)

lemma grows_trans: "grows root R m m' \<Longrightarrow> grows root R m' m'' \<Longrightarrow> grows root R m m''"
  by (simp add: grows_def)

lemma pages_wfD:
  assumes "pages_wf s root R k"
  shows "tree_ok (pg_mem s) root" "page_like root" "sized (pg_mem s)" "tables (pg_mem s) root \<inter> R = {}"
  using assms by (auto simp: pages_wf_def tree_ok_def cache_ok_def)

lemma pages_wf_mono: "pages_wf s root R k \<Longrightarrow> j \<le> k \<Longrightarrow> pages_wf s root R j"
  unfolding pages_wf_def by (meson le_trans)

lemma and_1_iff: "(e :: u64) AND 1 = 0 \<longleftrightarrow> \<not> bit e 0"
  by (simp add: and_one_eq bit_0 mod_2_eq_odd)

lemma bit_table_flags:
  "bit (table_flags OR (if b then page_user else 0)) n \<longleftrightarrow> n < 2 \<or> b \<and> n = 2"
proof -
  have e: "table_flags = mask 2" "page_user = 2 ^ 2"
    by (simp_all add: table_flags_def page_present_def page_write_def page_user_def mask_eq_exp_minus_1)
  have "bit page_user n \<longleftrightarrow> n = 2" unfolding e by (simp only: bit_exp_u64) auto
  moreover have "bit table_flags n \<longleftrightarrow> n < 2" unfolding e by (simp only: bit_mask_iff) auto
  ultimately show ?thesis by (simp add: bit_or_iff)
qed

lemma new_entry:
  fixes b :: bool
  assumes "page_like t"
  defines "e \<equiv> ((t AND NOT linear_offset) AND NOT 0xfff) OR (table_flags OR (if b then page_user else 0))"
  shows "table_of e = t" "e AND 1 \<noteq> 0"
proof -
  have t: "bit t n \<longleftrightarrow> n < 64 \<and> (46 \<le> n \<or> 12 \<le> n \<and> bit t n)" for n using assms(1) bit_table_of [of t n] by (simp add: page_like_def)
  have bits: "bit e n \<longleftrightarrow> bit t n \<and> \<not> 46 \<le> n \<and> 12 \<le> n \<and> n < 64 \<or> n < 2 \<or> b \<and> n = 2" for n
  proof -
    define f where "f = table_flags OR (if b then page_user else 0)"
    have "bit f n \<longleftrightarrow> n < 2 \<or> b \<and> n = 2" unfolding f_def by (rule bit_table_flags)
    then show ?thesis unfolding e_def f_def [symmetric] by (auto simp: bit_or_iff bit_and_iff dest: bit_u64_less)
  qed
  show "table_of e = t" by (rule u64_eqI; subst t) (auto simp: bit_table_of bits)
  show "e AND 1 \<noteq> 0" by (simp add: and_1_iff bits)
qed

lemma ensure_present:
  assumes "page_like root" "sized (pg_mem s)" "1 \<le> l" "l \<le> 3" "it_ok root it" "walk (pg_mem s) root (take l (it_index it)) \<noteq> None"
  shows "\<exists>it'. ensure_table l it s = Inr (it', s) \<and> it_index it' = it_index it \<and> it_at (pg_mem s) root l it'"
  using check_table_correct [OF assms(1-4)] assms(3-6) by (subst ensure_table.simps) (auto simp: check_correct_def)

lemma entry_ref_from_present:
  assumes "page_like root" "sized (pg_mem s)" "l \<le> 3" "it_at (pg_mem s) root (i - 1) it" "1 \<le> i" "i \<le> l + 1" "walk (pg_mem s) root (take l (it_index it)) = Some p"
  shows "\<exists>it'. entry_ref_from i l it s = Inr (p, it', s) \<and> it_index it' = it_index it \<and> it_at (pg_mem s) root l it'"
  using assms(4-)
proof (induction "l + 1 - i" arbitrary: i it)
  case 0
  then have "i = l + 1" by simp
  moreover have "it_table it ! l = p" "length (it_table it) = 4" using 0 calculation by (simp_all add: it_at_def it_ok_def)
  ultimately show ?case using 0 assms(3) by (subst entry_ref_from.simps) simp
next
  case (Suc j)
  then have i: "i \<le> l" by simp
  have "walk (pg_mem s) root (take i (it_index it)) \<noteq> None" using walk_take_Some [OF i Suc.prems(4)] by auto
  then obtain it1 where e: "ensure_table i it s = Inr (it1, s)" "it_index it1 = it_index it" "it_at (pg_mem s) root i it1"
    using ensure_present [OF assms(1,2) Suc.prems(2) _ it_at_ok [OF Suc.prems(1)]] i assms(3) by auto
  have "\<exists>it'. entry_ref_from (i + 1) l it1 s = Inr (p, it', s) \<and> it_index it' = it_index it1 \<and> it_at (pg_mem s) root l it'"
    using Suc e i by (intro Suc.hyps(1)) auto
  then show ?case using e i by (subst entry_ref_from.simps) simp
qed

lemma entry_ref_present:
  assumes "page_like root" "sized (pg_mem s)" "l \<le> 3" "it_ok root it" "walk (pg_mem s) root (take l (it_index it)) = Some p"
  shows "\<exists>it'. entry_ref l it s = Inr (p, it', s) \<and> it_index it' = it_index it \<and> it_at (pg_mem s) root l it'"
proof -
  have "it_at (pg_mem s) root 0 it" using assms(4) by (simp add: it_at_def it_ok_def)
  then show ?thesis using entry_ref_from_present [OF assms(1-3), of 1 it p] assms(5) by (simp add: entry_ref.simps)
qed

lemma cache_ok_write:
  assumes "cache_ok s A ps" "p \<in> A" "length es = 512"
  shows "cache_ok (s\<lparr>pg_mem := (pg_mem s)(p := es)\<rparr>) A ps"
proof -
  have "p \<notin> set ps" using assms by (auto simp: cache_ok_def)
  then have "chain ((pg_mem s)(p := es)) (pg_cache s) ps = chain (pg_mem s) (pg_cache s) ps" by (intro chain_cong) auto
  then show ?thesis using assms by (simp add: cache_ok_def sized_def)
qed

lemma ensure_missing:
  assumes wf: "pages_wf s root R (Suc k)" and l: "1 \<le> l" "l \<le> 3" and it: "it_ok root it"
    and p: "walk (pg_mem s) root (take (l - 1) (it_index it)) = Some p" and absent: "walk (pg_mem s) root (take l (it_index it)) = None"
  obtains it' s' where "ensure_table l it s = Inr (it', s')" "it_index it' = it_index it" "it_at (pg_mem s') root l it'"
    "walk (pg_mem s') root (take l (it_index it)) \<noteq> None" "pages_wf s' root R k" "grows root R (pg_mem s) (pg_mem s')"
proof -
  let ?m = "pg_mem s" and ?idx = "it_index it" and ?A = "tables (pg_mem s) root \<union> R"
  note D = pages_wfD [OF wf]
  obtain ps where ps: "cache_ok s ?A ps" "Suc k \<le> length ps + frames_left (pg_blocks s)" using wf by (auto simp: pages_wf_def)
  obtain it1 where c: "check_table ?m l it = Inr (False, it1)" "it_index it1 = ?idx" "it_ok root it1"
    using check_table_correct [OF D(2,3) l] it absent by (auto simp: check_correct_def it_at_def)
  obtain t s1 ps1 where g: "get_table_page s = Inr (t, s1)" "cache_ok s1 (insert t ?A) ps1" "Suc (length ps1 + frames_left (pg_blocks s1)) = length ps + frames_left (pg_blocks s)"
    "t \<notin> ?A" "page_like t" "pg_mem s1 t = replicate 512 0" "\<And>q. q \<in> ?A \<Longrightarrow> pg_mem s1 q = pg_mem s q"
    by (rule get_table_page_ok [OF ps(1)]) (use ps(2) in auto)
  let ?m1 = "pg_mem s1"
  have eq: "\<And>q. q \<in> tables ?m root \<Longrightarrow> ?m1 q = ?m q" using g(7) by simp
  have v: "valid_index ?idx" "valid_path (take (l - 1) ?idx)" "valid_path (take l ?idx)" using it l valid_index_take by (auto simp: it_ok_def)
  have p1: "walk ?m1 root (take (l - 1) ?idx) = Some p" "walk ?m1 root (take l ?idx) = None" using p absent walk_cong [OF eq v(2)] walk_cong [OF eq v(3)] by simp_all
  have t1: "tree_ok ?m1 root" "tables ?m1 root = tables ?m root" using tree_ok_cong [OF eq D(1)] tables_cong [OF eq] by simp_all
  have sz: "sized ?m1" using g(2) by (simp add: cache_ok_def)
  have "l - 1 \<le> 3" using l by simp
  then obtain it2 where r: "entry_ref (l - 1) it1 s1 = Inr (p, it2, s1)" "it_index it2 = ?idx" "it_at ?m1 root (l - 1) it2"
    using entry_ref_present [OF D(2) sz _ c(3), of "l - 1" p] p1(1) c(2) by auto
  define i where "i = ?idx ! (l - 1)"
  define e where "e = ((t AND NOT linear_offset) AND NOT 0xfff) OR (table_flags OR (if ?idx ! 0 < kernel_root_index then page_user else 0))"
  note new = new_entry [OF g(5), where b = "?idx ! 0 < kernel_root_index", folded e_def]
  let ?m2 = "?m1(p := (?m1 p)[i := e])" and ?s2 = "s1\<lparr>pg_mem := (pg_mem s1)(p := (pg_mem s1 p)[i := e])\<rparr>" and ?it = "it2\<lparr>it_table := (it_table it2)[l := t]\<rparr>"
  have tk: "take l ?idx = take (l - 1) ?idx @ [i]" using take_Suc_idx [OF v(1), of "l - 1"] l by (simp add: i_def)
  have i: "i < 512" "length (?m1 p) = 512" "p \<noteq> 0" "p \<in> tables ?m root"
    using v l sz valid_index_nth walk_page_like [OF D(2) p] table_in_tables [OF v(2) p] by (auto simp: i_def sized_def dest: page_like_nonzero)
  have ab: "?m1 p ! i AND 1 = 0" using p1 by (auto simp: tk walk_snoc split: if_splits)
  have len: "length (take (l - 1) ?idx) \<le> 2" using l by simp
  have tt: "t \<notin> tables ?m1 root" using g(4) t1(2) by simp
  note L = t1(1) p1(1) v(2) len i(1,2) ab new(2,1) tt g(6)
  have ens: "ensure_table l it s = Inr (?it, ?s2)"
    using c g(1) r l i(1,3) sz by (subst ensure_table.simps) (simp add: pg_write_ok e_def i_def Let_def)
  have w2: "walk ?m2 root xs = (if xs = take l ?idx then Some t else walk ?m1 root xs)" if "valid_path xs" for xs using walk_link [OF L that] tk by simp
  show thesis
  proof (rule that [OF ens])
    have sh: "walk ?m2 root (take j ?idx) = walk ?m1 root (take j ?idx)" if "j < l" for j
      using w2 [of "take j ?idx"] that l v(1) valid_index_take [OF v(1), of j] by (auto simp: valid_index_def dest: arg_cong [of _ _ length])
    have "it_table ?it ! j = q" if "j \<le> l" "walk ?m2 root (take j ?idx) = Some q" for j q
      using that sh [of j] w2 [OF v(3)] r(2,3) l by (cases "j = l") (auto simp: it_at_def it_ok_def)
    then show "it_at (pg_mem ?s2) root l ?it" using r(2,3) l by (auto simp: it_at_def it_ok_def)
    show "walk (pg_mem ?s2) root (take l ?idx) \<noteq> None" using w2 [OF v(3)] by simp
    have "cache_ok ?s2 (insert t ?A) ps1" using cache_ok_write [OF g(2), of p] i by simp
    then show "pages_wf ?s2 root R k" using tree_ok_link [OF L] tables_link [OF L] t1(2) D(4) g(3,4) ps(2) by (auto simp: pages_wf_def)
    have "walk ?m2 root xs = Some q" if "valid_path xs" "walk ?m root xs = Some q" for xs q
      using that w2 [OF that(1)] walk_cong [OF eq that(1)] absent by auto
    moreover have "?m2 q = ?m q" if "q \<in> R" for q using that g(7) i(4) D(4) by auto
    ultimately show "grows root R ?m (pg_mem ?s2)" using pte_link [OF L] pte_cong [OF eq] by (simp add: grows_def)
  qed (use r(2) in simp)
qed

lemma entry_ref_from_ok:
  assumes "pages_wf s root R (k + (l + 1 - i))" "l \<le> 3" "it_at (pg_mem s) root (i - 1) it" "1 \<le> i" "i \<le> l + 1"
    "walk (pg_mem s) root (take (i - 1) (it_index it)) \<noteq> None"
  shows "\<exists>p it' s'. entry_ref_from i l it s = Inr (p, it', s') \<and> it_index it' = it_index it \<and> it_at (pg_mem s') root l it' \<and>
     walk (pg_mem s') root (take l (it_index it)) = Some p \<and> pages_wf s' root R k \<and> grows root R (pg_mem s) (pg_mem s')"
  using assms
proof (induction "l + 1 - i" arbitrary: i it s)
  case 0
  then have i: "i = l + 1" by simp
  obtain p where p: "walk (pg_mem s) root (take l (it_index it)) = Some p" using 0 i by auto
  then have "it_table it ! l = p" "length (it_table it) = 4" using 0(4) i by (simp_all add: it_at_def it_ok_def)
  then have "entry_ref_from i l it s = Inr (p, it, s)" using i 0(3) by (subst entry_ref_from.simps) simp
  then show ?case using 0 i p by auto
next
  case (Suc j)
  then have i: "i \<le> l" "i \<le> 3" and k: "k + (l + 1 - i) = Suc (k + (l + 1 - (i + 1)))" by auto
  note D = pages_wfD [OF Suc.prems(1)]
  have it: "it_ok root it" using Suc.prems(3) by (rule it_at_ok)
  have "\<exists>it1 s1. ensure_table i it s = Inr (it1, s1) \<and> it_index it1 = it_index it \<and> it_at (pg_mem s1) root i it1 \<and>
     walk (pg_mem s1) root (take i (it_index it)) \<noteq> None \<and> pages_wf s1 root R (k + (l + 1 - (i + 1))) \<and> grows root R (pg_mem s) (pg_mem s1)"
  proof (cases "walk (pg_mem s) root (take i (it_index it))")
    case None
    obtain p where p: "walk (pg_mem s) root (take (i - 1) (it_index it)) = Some p" using Suc.prems(6) by auto
    show ?thesis by (rule ensure_missing [OF Suc.prems(1) [unfolded k] Suc.prems(4) i(2) it p None]) blast
  next
    case (Some q)
    then show ?thesis using ensure_present [OF D(2,3) Suc.prems(4) i(2) it] pages_wf_mono [OF Suc.prems(1), of "k + (l + 1 - (i + 1))"] by auto
  qed
  then obtain it1 s1 where e: "ensure_table i it s = Inr (it1, s1)" "it_index it1 = it_index it" "it_at (pg_mem s1) root i it1"
     "walk (pg_mem s1) root (take i (it_index it)) \<noteq> None" "pages_wf s1 root R (k + (l + 1 - (i + 1)))" "grows root R (pg_mem s) (pg_mem s1)" by blast
  have "\<exists>p it' s'. entry_ref_from (i + 1) l it1 s1 = Inr (p, it', s') \<and> it_index it' = it_index it1 \<and> it_at (pg_mem s') root l it' \<and>
     walk (pg_mem s') root (take l (it_index it1)) = Some p \<and> pages_wf s' root R k \<and> grows root R (pg_mem s1) (pg_mem s')"
    using Suc.hyps(2) Suc.prems(2) e i by (intro Suc.hyps(1)) auto
  then show ?case using e(1,2) i(1) grows_trans [OF e(6)] by (subst entry_ref_from.simps) auto
qed

text \<open>A reference to the entry of a page, and writing through it.\<close>

lemma entry_ref_ok:
  assumes wf: "pages_wf s root R (k + 3)" and it: "it_ok root it"
  obtains p it' s' where "entry_ref 3 it s = Inr (p, it', s')" "it_index it' = it_index it" "it_ok root it'" "pages_wf s' root R k" "grows root R (pg_mem s) (pg_mem s')"
    "p \<noteq> 0" "walk (pg_mem s') root (take 3 (it_index it)) = Some p" "pg_mem s' p ! (it_index it ! 3) = pte (pg_mem s) root (it_index it)"
proof -
  have "it_at (pg_mem s) root 0 it" using it by (simp add: it_at_def it_ok_def)
  then obtain p it' s' where r: "entry_ref 3 it s = Inr (p, it', s')" "it_index it' = it_index it" "it_at (pg_mem s') root 3 it'"
     "walk (pg_mem s') root (take 3 (it_index it)) = Some p" "pages_wf s' root R k" "grows root R (pg_mem s) (pg_mem s')"
    using entry_ref_from_ok [of s root R k 3 1 it] wf by (auto simp: entry_ref.simps)
  have "pte (pg_mem s') root (it_index it) = pte (pg_mem s) root (it_index it)" using r(6) it by (simp add: grows_def it_ok_def)
  then have v: "pg_mem s' p ! (it_index it ! 3) = pte (pg_mem s) root (it_index it)" using r(4) by (simp add: pte_def)
  have "p \<noteq> 0" using walk_page_like [OF pages_wfD(2) [OF wf] r(4)] by (rule page_like_nonzero)
  then show thesis by (intro that [OF r(1,2) it_at_ok [OF r(3)] r(5,6) _ r(4) v])
qed

lemma write_entry_ok:
  assumes wf: "pages_wf s root R k" and idx: "valid_index idx" and p: "walk (pg_mem s) root (take 3 idx) = Some p" "p \<noteq> 0"
  obtains s' where "pg_write p (idx ! 3) v s = Inr s'" "pages_wf s' root R k" "\<And>xs. valid_index xs \<Longrightarrow> pte (pg_mem s') root xs = (if xs = idx then v else pte (pg_mem s) root xs)"
    "\<And>q. q \<in> R \<Longrightarrow> pg_mem s' q = pg_mem s q" "pg_blocks s' = pg_blocks s"
proof -
  note D = pages_wfD [OF wf]
  let ?m = "(pg_mem s)(p := (pg_mem s p)[idx ! 3 := v])"
  let ?s = "s\<lparr>pg_mem := ?m\<rparr>"
  have v: "valid_path (take 3 idx)" "length (take 3 idx) = 3" using valid_index_take [OF idx, of 3] idx by (auto simp: valid_index_def)
  have t: "p \<in> tables (pg_mem s) root" using table_in_tables [OF v(1) p(1)] .
  have len: "length (pg_mem s p) = 512" using D(3) by (simp add: sized_def)
  have w: "walk ?m root xs = walk (pg_mem s) root xs" if "valid_path xs" for xs by (rule walk_write_leaf [OF D(1) p(1) v that]) simp
  have ok: "tree_ok ?m root" "tables ?m root = tables (pg_mem s) root" using D(1) w unfolding tree_ok_def tables_def by (simp, metis (mono_tags, lifting) Collect_cong w)
  have "pages_wf ?s root R k" using wf ok cache_ok_write [of s _ _ p] t len by (fastforce simp: pages_wf_def)
  moreover have "pg_write p (idx ! 3) v s = Inr ?s" using D(3) p(2) valid_index_nth [OF idx, of 3] by (simp add: pg_write_ok)
  ultimately show thesis using pte_write_leaf [OF D(1) p(1) idx _ len] t D(4) by (intro that [of ?s]) auto
qed

section \<open>Addresses and indices\<close>

text \<open>The number of the page of an address, in the 48 bits that are mapped, and the indices of a page.\<close>

definition vpn :: "u64 \<Rightarrow> nat" where
  "vpn a = unat a div 4096 mod 2 ^ 36"

definition path_of :: "nat \<Rightarrow> nat list" where
  "path_of n = [n div 512 ^ 3 mod 512, n div 512 ^ 2 mod 512, n div 512 mod 512, n mod 512]"

lemma valid_path_of [simp]: "valid_index (path_of n)"
  by (simp add: path_of_def valid_index_def)

lemma path_of_div: "path_of n = [n div 512 div 512 div 512 mod 512, n div 512 div 512 mod 512, n div 512 mod 512, n mod 512]"
  by (simp add: path_of_def div_mult2_eq [symmetric])

definition number_of :: "nat list \<Rightarrow> nat" where
  "number_of idx = ((idx ! 0 * 512 + idx ! 1) * 512 + idx ! 2) * 512 + idx ! 3"

lemma number_of_path: "n < 2 ^ 36 \<Longrightarrow> number_of (path_of n) = n"
proof -
  assume n: "n < 2 ^ 36"
  have "n div 512 div 512 div 512 < 512" using n by (simp add: div_mult2_eq [symmetric] less_mult_imp_div_less)
  then show ?thesis by (simp add: number_of_def path_of_div)
qed

lemma path_of_inj: "n < 2 ^ 36 \<Longrightarrow> n' < 2 ^ 36 \<Longrightarrow> path_of n = path_of n' \<longleftrightarrow> n = n'"
  by (metis number_of_path)

lemma mod_div_mod: "(x :: nat) mod (b * (512 * c)) div b mod 512 = x div b mod 512"
proof (cases "b = 0")
  case False
  then have "x mod (b * (512 * c)) div b = x div b mod (512 * c)" by (simp add: mod_mult2_eq)
  then show ?thesis by (simp add: mod_mod_cancel)
qed simp

lemma it_new_index: "it_index (it_new a root) = path_of (vpn a)"
proof -
  have i: "unat (drop_bit n a AND 0x1ff) = unat a div 2 ^ n mod 512" for n
  proof -
    have "drop_bit n a AND 0x1ff = take_bit 9 (drop_bit n a)" by (simp add: take_bit_eq_mask mask_eq_exp_minus_1)
    then show ?thesis by (simp add: unsigned_take_bit_eq take_bit_nat_def unat_drop_bit_u64)
  qed
  show ?thesis
    using mod_div_mod [of "unat a div 4096" 1 "2 ^ 27"] mod_div_mod [of "unat a div 4096" 512 "2 ^ 18"] mod_div_mod [of "unat a div 4096" "512 * 512" "2 ^ 9"]
      mod_div_mod [of "unat a div 4096" "512 * 512 * 512" 1]
    by (simp add: it_new_def path_of_def vpn_def it_shift_def i upt_rec div_mult2_eq [symmetric])
qed

lemma it_new_ok: "it_ok root (it_new a root)"
  using it_new_index [of a root] by (simp add: it_ok_def it_new_def)

lemma it_carry_4:
  "it_carry 4 [a, b, c, d] = (if d \<noteq> 511 then Inr [a, b, c, Suc d] else if c \<noteq> 511 then Inr [a, b, Suc c, 0]
     else if b \<noteq> 511 then Inr [a, Suc b, 0, 0] else if a \<noteq> 511 then Inr [Suc a, 0, 0, 0] else Inl Assert_failed)"
proof -
  have e: "(4 :: nat) = Suc (Suc (Suc (Suc 0)))" by simp
  show ?thesis unfolding e by (simp add: Let_def)
qed

lemma it_next_ok:
  assumes "it_ok root it" "it_index it = path_of n" "n < 2 ^ 36"
  shows "it_next 4 it = (if Suc n = 2 ^ 36 then Inl Assert_failed else Inr (it\<lparr>it_index := path_of (Suc n)\<rparr>))"
proof -
  have lt: "n div 512 div 512 div 512 < 512" using assms(3) by (simp add: div_mult2_eq [symmetric] less_mult_imp_div_less)
  have s: "Suc x div 512 = (if x mod 512 = 511 then Suc (x div 512) else x div 512)" "Suc x mod 512 = (if x mod 512 = 511 then 0 else Suc (x mod 512))" for x :: nat
    by (simp_all add: div_Suc mod_Suc)
  have "Suc n = 2 ^ 36 \<longleftrightarrow> path_of n = [511, 511, 511, 511]"
  proof
    assume "Suc n = 2 ^ 36"
    then have "n = 68719476735" by simp
    then show "path_of n = [511, 511, 511, 511]" by (simp add: path_of_def)
  next
    assume "path_of n = [511, 511, 511, 511]"
    then show "Suc n = 2 ^ 36" using number_of_path [OF assms(3)] by (simp add: number_of_def)
  qed
  then have e: "Suc n = 2 ^ 36 \<longleftrightarrow> n mod 512 = 511 \<and> n div 512 mod 512 = 511 \<and> n div 512 div 512 mod 512 = 511 \<and> n div 512 div 512 div 512 mod 512 = 511"
    by (auto simp: path_of_div)
  have p: "path_of (Suc n) = (if n mod 512 \<noteq> 511 then [n div 512 div 512 div 512 mod 512, n div 512 div 512 mod 512, n div 512 mod 512, Suc (n mod 512)]
     else if n div 512 mod 512 \<noteq> 511 then [n div 512 div 512 div 512 mod 512, n div 512 div 512 mod 512, Suc (n div 512 mod 512), 0]
     else if n div 512 div 512 mod 512 \<noteq> 511 then [n div 512 div 512 div 512 mod 512, Suc (n div 512 div 512 mod 512), 0, 0]
     else [Suc (n div 512 div 512 div 512) mod 512, 0, 0, 0])" 
    by (cases "n mod 512 = 511"; cases "n div 512 mod 512 = 511"; cases "n div 512 div 512 mod 512 = 511") (simp_all add: path_of_div s)
  show ?thesis unfolding e p using lt by (auto simp: it_next_def assms(2) path_of_div it_carry_4)
qed

lemma bit_index:
  assumes "s \<le> 55"
  shows "bit (push_bit s (of_nat (unat (drop_bit s a AND 0x1ff))) :: u64) n \<longleftrightarrow> s \<le> n \<and> n < s + 9 \<and> bit (a :: u64) n"
proof -
  have e: "(0x1ff :: u64) = mask 9" by (simp add: mask_eq_exp_minus_1)
  define w where "w = drop_bit s a AND mask 9"
  have w: "bit w k \<longleftrightarrow> k < 9 \<and> bit a (s + k)" for k unfolding w_def by (auto simp: bit_and_iff bit_mask_iff bit_drop_bit_eq)
  have "bit (push_bit s w) n \<longleftrightarrow> s \<le> n \<and> n < 64 \<and> n - s < 9 \<and> bit a n" by (auto simp: bit_push_bit_iff w)
  then show ?thesis unfolding e w_def [symmetric] using assms bit_u64_less [of a n] by auto
qed

lemma bit_canonical: "bit (canonical a) n \<longleftrightarrow> bit a n \<or> bit a 47 \<and> 48 \<le> n \<and> n < 64"
proof -
  have e: "(0xffff :: u64) = mask 16" by (simp add: mask_eq_exp_minus_1)
  show ?thesis unfolding canonical_def e by (auto simp: bit_or_iff bit_push_bit_iff bit_mask_iff)
qed

text \<open>The iterator of the page tables turns addresses into indices and back: the address of the entry that an iterator for a
  canonical address starts at is the address of its page. The end of the range of a table, however, comes out as the start of the
  table above, because the increment of the index is in a branch that the loop never reaches.\<close>

theorem iterator_addresses:
  assumes "signed_take_bit 47 a = a"
  shows "it_vaddress (it_new a root) = Inr (a AND NOT 0xfff) \<and> it_end 1 it = it_start 0 it \<and> it_end 2 it = it_start 1 it \<and> it_end 3 it = it_start 2 it"
proof -
  have sign: "bit a n = bit a 47" if "48 \<le> n" "n < 64" for n using that assms bit_signed_take_bit_iff [of 47 a n] by (simp add: min_def)
  define f where "f = (\<lambda>i. push_bit (it_shift i) (of_nat (unat (drop_bit (it_shift i) a AND 0x1ff))) :: u64)"
  have b: "bit (f i) n \<longleftrightarrow> it_shift i \<le> n \<and> n < it_shift i + 9 \<and> bit a n" for i n unfolding f_def by (rule bit_index) (simp add: it_shift_def)
  have "it_vaddress (it_new a root) = Inr (canonical (f 0 OR f 1 OR f 2 OR f 3))"
  proof -
    have u: "[0..<Suc 3] = [0, 1, 2, 3]" by (simp add: upt_rec)
    have "push_bit (it_shift i) (of_nat (it_index (it_new a root) ! i)) = f i" if "i < 4" for i using that by (simp add: it_new_def f_def)
    then show ?thesis unfolding it_vaddress_def it_start_def u by (simp add: or.assoc)
  qed
  moreover have "canonical (f 0 OR f 1 OR f 2 OR f 3) = a AND NOT 0xfff"
  proof (rule u64_eqI)
    fix n :: nat assume n: "n < 64"
    have f: "bit (f 0 OR f 1 OR f 2 OR f 3) k \<longleftrightarrow> 12 \<le> k \<and> k < 48 \<and> bit a k" for k
      unfolding bit_or_iff b by (auto simp: it_shift_def)
    show "bit (canonical (f 0 OR f 1 OR f 2 OR f 3)) n = bit (a AND NOT 0xfff) n"
      unfolding bit_canonical f using n sign [of n] by (cases "48 \<le> n") (auto simp: bit_and_iff)
  qed
  moreover have "it_end (Suc l) it = it_start l it" if "l < 3" for l it
  proof -
    have "fold (\<lambda>i a. a OR push_bit (it_shift i) (of_nat (it_index it ! i + (if i = Suc l then 1 else 0)))) [0..<Suc l] (0 :: u64) =
        fold (\<lambda>i a. a OR push_bit (it_shift i) (of_nat (it_index it ! i))) [0..<Suc l] 0" by (rule fold_cong) auto
    then show ?thesis using that by (simp add: it_end_def it_start_def del: upt_Suc)
  qed
  ultimately show ?thesis by (metis One_nat_def numeral_2_eq_2 numeral_3_eq_3 lessI less_SucI)
qed

theorem iterator_addresses_witness:
  "it_vaddress (it_new 0xffff800000123456 0xffffc00000001000) = Inr 0xffff800000123000"
  using iterator_addresses [where a = "0xffff800000123456" and root = "0xffffc00000001000"] by (simp add: signed_take_bit_eq_if_negative)

end
