(* ===== verification/Page_Tree.thy ===== *)
theory Page_Tree
  imports Page_Table
begin

text \<open>
  Radix trees, \<open>src/src/libraries/util/include/util/radix_tree.h\<close>, in the instance that tracks the pages of a
  memory area, \<open>src/src/kernel/page_tree.cpp\<close>: 64 entries in a node, six levels, keys in bytes. Each node
  is owned by its parent, so a tree is a value; a node of level 0 holds entries and the others hold
  nodes. Finding an entry to write to is split into making its leaf and setting the entry.
\<close>

section \<open>Radix trees\<close>

datatype rnode = Rleaf u64 "u64 list" | Rnode u64 nat "rnode option list"

fun m_base :: "rnode \<Rightarrow> u64" where
  "m_base (Rleaf b es) = b"
| "m_base (Rnode b l cs) = b"

fun m_level :: "rnode \<Rightarrow> nat" where
  "m_level (Rleaf b es) = 0"
| "m_level (Rnode b l cs) = l"

definition level_shift :: "nat \<Rightarrow> nat" where
  "level_shift l = l * 6 + 12"

definition level_mask :: "nat \<Rightarrow> u64" where
  "level_mask l = push_bit (level_shift l) (- 1)"

definition index_for :: "u64 \<Rightarrow> nat \<Rightarrow> nat" where
  "index_for key l = unat (drop_bit (level_shift l) key AND 63)"

definition new_leaf :: "u64 \<Rightarrow> rnode" where
  "new_leaf key = Rleaf (key AND level_mask 1) (replicate 64 0)"

definition contains :: "rnode \<Rightarrow> u64 \<Rightarrow> bool" where
  "contains n key \<longleftrightarrow> key AND level_mask (m_level n + 1) = m_base n"

lemma nth_child_size: "i < length cs \<Longrightarrow> cs ! i = Some c \<Longrightarrow> size c < Suc (size_list (size_option size) cs)"
proof (induction cs arbitrary: i)
  case (Cons d cs)
  then show ?case by (cases i) fastforce+
qed simp

function rt_find :: "rnode option \<Rightarrow> u64 \<Rightarrow> u64 option res" where
  "rt_find None key = Inr None"
| "rt_find (Some (Rleaf b es)) key =
     (if \<not> contains (Rleaf b es) key then Inr None else bindE (array_get es (index_for key 0)) (\<lambda>e. Inr (Some e)))"
| "rt_find (Some (Rnode b l cs)) key =
     (if \<not> contains (Rnode b l cs) key then Inr None
      else if index_for key l < length cs then rt_find (cs ! index_for key l) key else Inl Out_of_bounds)"
  by pat_completeness auto

termination
  by (relation "measure (\<lambda>(t, key). case t of None \<Rightarrow> 0 | Some n \<Rightarrow> Suc (size n))") (auto split: option.splits dest: nth_child_size)

text \<open>The search for the highest level at which two keys differ. Below level 0 the counter of the source wraps and the
  shift is undefined.\<close>

fun common_level :: "nat \<Rightarrow> u64 \<Rightarrow> u64 \<Rightarrow> nat res" where
  "common_level 0 key other = (if index_for key 0 = index_for other 0 then Inl Undefined_shift else Inr 0)"
| "common_level (Suc l) key other = (if index_for key (Suc l) = index_for other (Suc l) then common_level l key other else Inr (Suc l))"

text \<open>A new inner node above a node and a new leaf. At level 0 the inner node would be taken for a leaf.\<close>

definition rt_join :: "rnode \<Rightarrow> u64 \<Rightarrow> rnode res" where
  "rt_join n key =
     bindE (common_level 6 key (m_base n)) (\<lambda>lcl.
     bindE (guardE Wrong_list (lcl \<noteq> 0)) (\<lambda>_.
     bindE (array_set (replicate 64 None) (index_for (m_base n) lcl) (Some n)) (\<lambda>cs.
     bindE (array_set cs (index_for key lcl) (Some (new_leaf key))) (\<lambda>cs.
     Inr (Rnode (key AND level_mask (lcl + 1)) lcl cs)))))"

text \<open>\<open>find_or_add\<close> up to its last line, the tree with a leaf for the key.\<close>

function rt_add :: "rnode option \<Rightarrow> u64 \<Rightarrow> rnode res" where
  "rt_add None key = Inr (new_leaf key)"
| "rt_add (Some (Rleaf b es)) key = (if \<not> contains (Rleaf b es) key then rt_join (Rleaf b es) key else Inr (Rleaf b es))"
| "rt_add (Some (Rnode b l cs)) key =
     (if \<not> contains (Rnode b l cs) key then rt_join (Rnode b l cs) key
      else if index_for key l < length cs
      then bindE (rt_add (cs ! index_for key l) key) (\<lambda>c. Inr (Rnode b l (cs[index_for key l := Some c]))) else Inl Out_of_bounds)"
  by pat_completeness auto

termination
  by (relation "measure (\<lambda>(t, key). case t of None \<Rightarrow> 0 | Some n \<Rightarrow> Suc (size n))") (auto split: option.splits dest: nth_child_size)

text \<open>Writing through the reference that \<open>find_or_add\<close> returns.\<close>

function rt_set :: "rnode \<Rightarrow> u64 \<Rightarrow> u64 \<Rightarrow> rnode" where
  "rt_set (Rleaf b es) key v = Rleaf b (es[index_for key 0 := v])"
| "rt_set (Rnode b l cs) key v =
     (if index_for key l < length cs
      then (case cs ! index_for key l of None \<Rightarrow> Rnode b l cs | Some c \<Rightarrow> Rnode b l (cs[index_for key l := Some (rt_set c key v)]))
      else Rnode b l cs)"
  by pat_completeness auto

termination
  by (relation "measure (\<lambda>(t, key, v). size t)") (auto dest: nth_child_size)

section \<open>Pages of an area\<close>

definition page_tree_find :: "rnode option \<Rightarrow> u64 \<Rightarrow> u64 option res" where
  "page_tree_find root offset = rt_find root offset"

definition page_tree_find_or_add :: "rnode option \<Rightarrow> u64 \<Rightarrow> frame_block list \<Rightarrow> (u64 option \<times> rnode \<times> frame_block list) res" where
  "page_tree_find_or_add root offset bs =
     bindE (rt_add root offset) (\<lambda>root.
     bindE (rt_find (Some root) offset) (\<lambda>r. case r of
        None \<Rightarrow> Inl Null_deref
      | Some ent \<Rightarrow>
          if ent AND 1 = 0
          then bindE (fa_allocate bs 1) (\<lambda>(n, phys, bs).
               if n = 0 then Inr (None, root, bs)
               else let ent = phys OR 1 in Inr (Some (ent AND NOT 0xfff), rt_set root offset ent, bs))
          else Inr (Some (ent AND NOT 0xfff), root, bs)))"

definition page_tree_add_existing :: "rnode option \<Rightarrow> u64 \<Rightarrow> u64 \<Rightarrow> rnode res" where
  "page_tree_add_existing root offset page =
     bindE (rt_add root offset) (\<lambda>root.
     bindE (rt_find (Some root) offset) (\<lambda>r. case r of
        None \<Rightarrow> Inl Null_deref
      | Some ent \<Rightarrow> if ent AND 1 \<noteq> 0 then Inl Assert_failed else Inr (rt_set root offset (page OR 1))))"

section \<open>Parts of keys\<close>

text \<open>The part of a key above a level. Two keys belong to the same leaf when they agree above level 1, and to the same
  entry when they agree above level 0.\<close>

definition upper :: "nat \<Rightarrow> u64 \<Rightarrow> u64" where
  "upper l key = drop_bit (level_shift l) key"

lemma bit_upper: "bit (upper l key) n \<longleftrightarrow> bit key (level_shift l + n)"
  by (simp add: upper_def bit_drop_bit_eq)

lemma bit_mask: "bit (level_mask l) n \<longleftrightarrow> level_shift l \<le> n \<and> n < 64"
  unfolding level_mask_def by (simp only: bit_push_bit_iff) auto

lemma upper_masked: "j \<le> l \<Longrightarrow> upper l (key AND level_mask j) = upper l key"
  by (rule bit_eqI) (auto simp: bit_upper bit_and_iff bit_mask level_shift_def dest: bit_u64_less)

lemma masked_eq_iff: "b AND level_mask l = b \<Longrightarrow> key AND level_mask l = b \<longleftrightarrow> upper l key = upper l b"
proof
  assume "key AND level_mask l = b"
  then show "upper l key = upper l b" using upper_masked [of l l key] by simp
next
  assume b: "b AND level_mask l = b" and a: "upper l key = upper l b"
  have "key AND level_mask l = b AND level_mask l"
  proof (rule u64_eqI)
    fix n :: nat assume "n < 64"
    have "bit key (level_shift l + (n - level_shift l)) = bit b (level_shift l + (n - level_shift l))" using a bit_upper by metis
    then show "bit (key AND level_mask l) n = bit (b AND level_mask l) n" by (cases "level_shift l \<le> n") (auto simp: bit_and_iff bit_mask)
  qed
  with b show "key AND level_mask l = b" by simp
qed

lemma mask_idem: "(key AND level_mask l) AND level_mask l = key AND level_mask l"
  by (simp add: and.assoc)

lemma bit_63: "bit (63 :: int) n \<longleftrightarrow> n < 6"
proof -
  have e: "(63 :: int) = mask 6" by (simp add: mask_eq_exp_minus_1)
  show ?thesis unfolding e by (simp only: bit_mask_iff) auto
qed

lemma index_for_eq: "index_for key l = index_for other l \<longleftrightarrow> upper l key AND 63 = upper l other AND 63"
  by (simp only: index_for_def upper_def word_eq_unat)

lemma index_for_less [simp]: "index_for key l < 64"
  by (simp add: index_for_def unat_and_63)

lemma upper_eq_iff: "upper l key = upper l other \<longleftrightarrow> upper (Suc l) key = upper (Suc l) other \<and> index_for key l = index_for other l"
proof
  assume a: "upper l key = upper l other"
  have "upper (Suc l) k = drop_bit 6 (upper l k)" for k by (rule bit_eqI) (simp add: bit_upper bit_drop_bit_eq level_shift_def algebra_simps)
  with a show "upper (Suc l) key = upper (Suc l) other \<and> index_for key l = index_for other l" by (simp add: index_for_eq)
next
  assume a: "upper (Suc l) key = upper (Suc l) other \<and> index_for key l = index_for other l"
  show "upper l key = upper l other"
  proof (rule bit_eqI)
    fix n
    show "bit (upper l key) n = bit (upper l other) n"
    proof (cases "n < 6")
      case True
      have "bit (upper l key AND 63) n = bit (upper l other AND 63) n" using a by (simp add: index_for_eq)
      then show ?thesis using True by (simp add: bit_and_iff bit_63)
    next
      case False
      have "bit (upper (Suc l) key) (n - 6) = bit (upper (Suc l) other) (n - 6)" using a by simp
      then show ?thesis using False by (simp add: bit_upper level_shift_def ac_simps)
    qed
  qed
qed

lemma upper_mono: "l \<le> j \<Longrightarrow> upper l key = upper l other \<Longrightarrow> upper j key = upper j other"
  by (induction rule: dec_induct) (blast dest: upper_eq_iff [THEN iffD1])+

lemma common_level_ok:
  assumes "upper (Suc l) key = upper (Suc l) other" "upper j key \<noteq> upper j other" "j \<le> l"
  shows "\<exists>c. common_level l key other = Inr c \<and> j \<le> c \<and> c \<le> l \<and> upper (Suc c) key = upper (Suc c) other \<and> index_for key c \<noteq> index_for other c"
  using assms
proof (induction l)
  case 0
  then show ?case using upper_eq_iff [of 0 key other] by auto
next
  case (Suc l)
  show ?case
  proof (cases "index_for key (Suc l) = index_for other (Suc l)")
    case True
    then have "upper (Suc l) key = upper (Suc l) other" using Suc.prems(1) upper_eq_iff [of "Suc l" key other] by simp
    moreover have "j \<le> l" using Suc.prems(2,3) calculation by (cases "j = Suc l") auto
    ultimately show ?thesis using Suc.IH Suc.prems(2) True by auto
  qed (use Suc.prems in auto)
qed

section \<open>Well-formed trees\<close>

inductive rt_ok :: "rnode \<Rightarrow> bool" where
  leaf: "length es = 64 \<Longrightarrow> b AND level_mask 1 = b \<Longrightarrow> upper 7 b = 0 \<Longrightarrow> rt_ok (Rleaf b es)"
| node: "0 < l \<Longrightarrow> l \<le> 6 \<Longrightarrow> length cs = 64 \<Longrightarrow> b AND level_mask (Suc l) = b \<Longrightarrow> upper 7 b = 0 \<Longrightarrow> (\<And>i c. i < 64 \<Longrightarrow> cs ! i = Some c \<Longrightarrow> rt_ok c) \<Longrightarrow>
    (\<And>i c. i < 64 \<Longrightarrow> cs ! i = Some c \<Longrightarrow> m_level c < l \<and> upper (Suc l) (m_base c) = upper (Suc l) b \<and> index_for (m_base c) l = i) \<Longrightarrow> rt_ok (Rnode b l cs)"

inductive_cases rt_ok_leafE: "rt_ok (Rleaf b es)"
inductive_cases rt_ok_nodeE: "rt_ok (Rnode b l cs)"
inductive_simps rt_ok_node: "rt_ok (Rnode b l cs)"

lemma rt_ok_base: "rt_ok n \<Longrightarrow> m_base n AND level_mask (Suc (m_level n)) = m_base n \<and> upper 7 (m_base n) = 0 \<and> m_level n \<le> 6"
  by (cases rule: rt_ok.cases) auto

lemma contains_iff: "rt_ok n \<Longrightarrow> contains n key \<longleftrightarrow> upper (Suc (m_level n)) key = upper (Suc (m_level n)) (m_base n)"
  using masked_eq_iff rt_ok_base by (simp add: contains_def)

text \<open>The entry of a key, if it has a leaf.\<close>

definition rt_val :: "rnode option \<Rightarrow> u64 \<Rightarrow> u64 option" where
  "rt_val t key = (case rt_find t key of Inl _ \<Rightarrow> None | Inr r \<Rightarrow> r)"

lemma rt_find_total: "rt_ok n \<Longrightarrow> rt_find (Some n) key = Inr (rt_val (Some n) key)"
proof (induction n rule: rt_ok.induct)
  case (leaf es b)
  then show ?case by (simp add: rt_val_def)
next
  case (node l cs b)
  have "rt_find (cs ! index_for key l) key = Inr (rt_val (cs ! index_for key l) key)"
  proof (cases "cs ! index_for key l")
    case (Some c)
    then show ?thesis using node.IH [of "index_for key l" c] by (simp only: index_for_less)
  qed (simp add: rt_val_def)
  then show ?case using node.hyps by (simp add: rt_val_def)
qed

lemma rt_val_None [simp]: "rt_val None key = None"
  by (simp add: rt_val_def)

lemma rt_val_leaf: "rt_ok (Rleaf b es) \<Longrightarrow> rt_val (Some (Rleaf b es)) key = (if upper 1 key = upper 1 b then Some (es ! index_for key 0) else None)"
  using contains_iff [of "Rleaf b es" key] by (auto simp: rt_val_def elim: rt_ok_leafE)

lemma rt_val_node:
  "rt_ok (Rnode b l cs) \<Longrightarrow> rt_val (Some (Rnode b l cs)) key = (if upper (Suc l) key = upper (Suc l) b then rt_val (cs ! index_for key l) key else None)"
  using contains_iff [of "Rnode b l cs" key] by (auto simp: rt_val_def elim: rt_ok_nodeE)

lemma rt_val_contained: "rt_ok n \<Longrightarrow> rt_val (Some n) key = Some v \<Longrightarrow> upper (Suc (m_level n)) key = upper (Suc (m_level n)) (m_base n)"
  by (cases n) (auto simp: rt_val_leaf rt_val_node split: if_splits)

text \<open>Where a tree belongs to the slot of a node of level \<open>L\<close>.\<close>

definition fits :: "nat \<Rightarrow> u64 \<Rightarrow> rnode \<Rightarrow> bool" where
  "fits L key n \<longleftrightarrow> m_level n < L \<and> upper L (m_base n) = upper L key"

text \<open>The keys that have an entry once the leaf for \<open>key\<close> exists.\<close>

definition added :: "u64 \<Rightarrow> (u64 \<Rightarrow> u64 option) \<Rightarrow> u64 \<Rightarrow> u64 option" where
  "added key f k = (case f k of Some v \<Rightarrow> Some v | None \<Rightarrow> if upper 1 k = upper 1 key then Some 0 else None)"

lemma new_leaf_ok:
  assumes "upper 7 key = 0"
  shows "rt_ok (new_leaf key)" "rt_val (Some (new_leaf key)) k = (if upper 1 k = upper 1 key then Some 0 else None)" "0 < L \<Longrightarrow> fits L key (new_leaf key)"
proof -
  show ok: "rt_ok (new_leaf key)" unfolding new_leaf_def using assms by (intro rt_ok.leaf) (simp_all add: mask_idem upper_masked)
  show "rt_val (Some (new_leaf key)) k = (if upper 1 k = upper 1 key then Some 0 else None)"
    using rt_val_leaf [OF ok [unfolded new_leaf_def]] by (simp add: new_leaf_def upper_masked)
qed (simp add: fits_def new_leaf_def upper_masked)

lemma index_for_cong: "upper l key = upper l other \<Longrightarrow> index_for key l = index_for other l"
  using upper_eq_iff by blast

lemma added_other: "upper 1 k \<noteq> upper 1 key \<Longrightarrow> added key f k = f k"
  by (simp add: added_def split: option.splits)

lemma rt_join_ok:
  assumes n: "rt_ok n" and key: "upper 7 key = 0" and out: "\<not> contains n key"
  shows "\<exists>n'. rt_join n key = Inr n' \<and> rt_ok n' \<and> (\<forall>L. fits L key n \<longrightarrow> fits L key n') \<and> (\<forall>k. rt_val (Some n') k = added key (rt_val (Some n)) k)"
proof -
  have B: "upper 7 (m_base n) = 0" "m_level n \<le> 6" using rt_ok_base [OF n] by simp_all
  have d: "upper (Suc (m_level n)) key \<noteq> upper (Suc (m_level n)) (m_base n)" using out contains_iff [OF n] by simp
  have "upper (Suc 6) key = upper (Suc 6) (m_base n)" using key B(1) by simp
  moreover have "Suc (m_level n) \<le> 6" using d calculation B(2) by (cases "m_level n = 6") auto
  ultimately obtain c where c: "common_level 6 key (m_base n) = Inr c" "Suc (m_level n) \<le> c" "c \<le> 6" "upper (Suc c) key = upper (Suc c) (m_base n)"
      "index_for key c \<noteq> index_for (m_base n) c"
    using common_level_ok [OF _ d, of 6] by auto
  let ?o = "index_for (m_base n) c" and ?i = "index_for key c"
  let ?cs = "(replicate 64 None)[?o := Some n, ?i := Some (new_leaf key)]"
  let ?n = "Rnode (key AND level_mask (Suc c)) c ?cs"
  have join: "rt_join n key = Inr ?n" using c by (simp add: rt_join_def)
  have child: "?cs ! j = (if j = ?i then Some (new_leaf key) else if j = ?o then Some n else None)" if "j < 64" for j
    using that c(5) by (simp add: nth_list_update)
  have "m_base (new_leaf key) = key AND level_mask 1" "m_level (new_leaf key) = 0" by (simp_all add: new_leaf_def)
  then have leaf: "m_level (new_leaf key) < c" "upper (Suc c) (m_base (new_leaf key)) = upper (Suc c) key" "index_for (m_base (new_leaf key)) c = ?i"
    using c(2) by (auto simp: upper_masked intro: index_for_cong)
  have ok: "rt_ok ?n"
  proof (rule rt_ok.node)
    show "m_level d < c \<and> upper (Suc c) (m_base d) = upper (Suc c) (key AND level_mask (Suc c)) \<and> index_for (m_base d) c = j" if "j < 64" "?cs ! j = Some d" for j d
      using that(2) child [OF that(1)] leaf c(2,4) by (auto simp: upper_masked split: if_splits)
    show "rt_ok d" if "j < 64" "?cs ! j = Some d" for j d
      using that(2) child [OF that(1)] n new_leaf_ok(1) [OF key] by (auto split: if_splits)
  qed (use c key in \<open>auto simp: mask_idem upper_masked\<close>)
  have fits: "fits L key ?n" if f: "fits L key n" for L
  proof -
    have "c < L" using f c(5) upper_mono [of L c key "m_base n"] index_for_cong [of c key "m_base n"] by (cases "L \<le> c") (auto simp: fits_def)
    then show ?thesis by (simp add: fits_def upper_masked)
  qed
  have "rt_val (Some ?n) k = added key (rt_val (Some n)) k" for k
  proof -
    have inn: "rt_val (Some n) k = Some v \<Longrightarrow> upper c k = upper c (m_base n)" for v using rt_val_contained [OF n] upper_mono [OF c(2)] by blast
    have inl: "upper 1 k = upper 1 key \<Longrightarrow> upper c k = upper c key" using upper_mono [of 1 c k key] c(2) by simp
    have up: "upper c x = upper c y \<longleftrightarrow> upper (Suc c) x = upper (Suc c) y \<and> index_for x c = index_for y c" for x y by (rule upper_eq_iff)
    show ?thesis using inn inl c(4,5) up [of k key] up [of k "m_base n"] child [of "index_for k c"] new_leaf_ok(2) [OF key, of k]
      by (auto simp: rt_val_node [OF ok] upper_masked added_def split: option.splits)
  qed
  then show ?thesis using join ok fits by blast
qed

lemma rt_add_node_ok:
  assumes ok: "rt_ok (Rnode b l cs)" and key: "upper (Suc l) key = upper (Suc l) b"
    and c: "rt_ok c" "fits l key c" "\<And>k. rt_val (Some c) k = added key (rt_val (cs ! index_for key l)) k"
  shows "rt_ok (Rnode b l (cs[index_for key l := Some c]))" "rt_val (Some (Rnode b l (cs[index_for key l := Some c]))) k = added key (rt_val (Some (Rnode b l cs))) k"
proof -
  have c': "m_level c < l" "upper (Suc l) (m_base c) = upper (Suc l) b" "index_for (m_base c) l = index_for key l"
    using c(2) key upper_eq_iff [of l "m_base c" key] by (auto simp: fits_def)
  show ok': "rt_ok (Rnode b l (cs[index_for key l := Some c]))"
    using ok [unfolded rt_ok_node] c(1) c' by (intro rt_ok.node) (auto simp: nth_list_update split: if_splits)
  have l: "0 < l" "length cs = 64" using ok by (auto elim: rt_ok_nodeE)
  have "upper 1 k = upper 1 key \<Longrightarrow> upper (Suc l) k = upper (Suc l) b \<and> index_for k l = index_for key l"
    using upper_mono [of 1 l k key] upper_eq_iff [of l k key] l key by simp
  then show "rt_val (Some (Rnode b l (cs[index_for key l := Some c]))) k = added key (rt_val (Some (Rnode b l cs))) k"
    using l by (auto simp: rt_val_node [OF ok'] rt_val_node [OF ok] c(3) nth_list_update added_def split: option.splits)
qed

lemma rt_add_ok:
  "rt_ok n \<Longrightarrow> upper 7 key = 0 \<Longrightarrow> \<exists>n'. rt_add (Some n) key = Inr n' \<and> rt_ok n' \<and> (\<forall>L. fits L key n \<longrightarrow> fits L key n') \<and> (\<forall>k. rt_val (Some n') k = added key (rt_val (Some n)) k)"
proof (induction n rule: rt_ok.induct)
  case (leaf es b)
  then have ok: "rt_ok (Rleaf b es)" by (intro rt_ok.leaf)
  show ?case
  proof (cases "contains (Rleaf b es) key")
    case True
    then have "upper 1 key = upper 1 b" using contains_iff [OF ok] by simp
    then have "added key (rt_val (Some (Rleaf b es))) k = rt_val (Some (Rleaf b es)) k" for k by (auto simp: rt_val_leaf [OF ok] added_def)
    then show ?thesis using True ok by simp
  qed (use rt_join_ok [OF ok leaf.prems] in simp)
next
  case (node l cs b)
  then have ok: "rt_ok (Rnode b l cs)" by (intro rt_ok.node) auto
  let ?i = "index_for key l"
  show ?case
  proof (cases "contains (Rnode b l cs) key")
    case True
    then have k: "upper (Suc l) key = upper (Suc l) b" using contains_iff [OF ok] by simp
    have "\<exists>c. rt_add (cs ! ?i) key = Inr c \<and> rt_ok c \<and> fits l key c \<and> (\<forall>k. rt_val (Some c) k = added key (rt_val (cs ! ?i)) k)"
    proof (cases "cs ! ?i")
      case None
      then show ?thesis using new_leaf_ok [OF node.prems] node.hyps(1) by (simp add: added_def)
    next
      case (Some d)
      then have "m_level d < l" "upper (Suc l) (m_base d) = upper (Suc l) b" "index_for (m_base d) l = ?i" using node.hyps(7) [of ?i d] by simp_all
      then have "fits l key d" using upper_eq_iff [of l "m_base d" key] k by (simp add: fits_def)
      then show ?thesis using node.IH [OF index_for_less Some node.prems] Some by auto
    qed
    then obtain c where c: "rt_add (cs ! ?i) key = Inr c" "rt_ok c" "fits l key c" "\<And>k. rt_val (Some c) k = added key (rt_val (cs ! ?i)) k" by blast
    have "rt_add (Some (Rnode b l cs)) key = Inr (Rnode b l (cs[?i := Some c]))" using True c(1) node.hyps(3) by simp
    then show ?thesis using rt_add_node_ok [OF ok k c(2-4)] by (auto simp: fits_def)
  qed (use rt_join_ok [OF ok node.prems] in simp)
qed

lemma rt_set_ok:
  "rt_ok n \<Longrightarrow> rt_val (Some n) key = Some u \<Longrightarrow> rt_ok (rt_set n key v) \<and> m_level (rt_set n key v) = m_level n \<and> m_base (rt_set n key v) = m_base n \<and>
     (\<forall>k. rt_val (Some (rt_set n key v)) k = (if upper 0 k = upper 0 key then Some v else rt_val (Some n) k))"
proof (induction n rule: rt_ok.induct)
  case (leaf es b)
  then have ok: "rt_ok (Rleaf b es)" "rt_ok (rt_set (Rleaf b es) key v)" by (auto intro: rt_ok.leaf)
  have "upper 1 key = upper 1 b" using leaf.prems by (auto simp: rt_val_leaf [OF ok(1)] split: if_splits)
  moreover have "upper 0 k = upper 0 key \<longleftrightarrow> upper 1 k = upper 1 key \<and> index_for k 0 = index_for key 0" for k using upper_eq_iff [of 0 k key] by simp
  ultimately show ?case using ok leaf.hyps(1) by (auto simp: rt_val_leaf [OF ok(1)] rt_val_leaf [OF ok(2) [simplified]] nth_list_update)
next
  case (node l cs b)
  then have ok: "rt_ok (Rnode b l cs)" by (intro rt_ok.node) auto
  let ?i = "index_for key l"
  obtain c where c: "cs ! ?i = Some c" "rt_val (Some c) key = Some u" "upper (Suc l) key = upper (Suc l) b"
    using node.prems by (cases "cs ! ?i") (auto simp: rt_val_node [OF ok] split: if_splits)
  let ?c = "rt_set c key v"
  have s: "rt_ok ?c" "m_level ?c = m_level c" "m_base ?c = m_base c" "\<And>k. rt_val (Some ?c) k = (if upper 0 k = upper 0 key then Some v else rt_val (Some c) k)"
    using node.IH [OF index_for_less c(1,2)] by auto
  have e: "rt_set (Rnode b l cs) key v = Rnode b l (cs[?i := Some ?c])" using c(1) node.hyps(3) by simp
  have ok': "rt_ok (Rnode b l (cs[?i := Some ?c]))"
    by (rule rt_ok.node) (use node.hyps c s in \<open>auto simp: nth_list_update split: if_splits\<close>)
  have "rt_val (Some (Rnode b l (cs[?i := Some ?c]))) k = (if upper 0 k = upper 0 key then Some v else rt_val (Some (Rnode b l cs)) k)" for k
  proof -
    have "upper 0 k = upper 0 key \<Longrightarrow> upper (Suc l) k = upper (Suc l) b \<and> index_for k l = ?i"
      using upper_mono [of 0 l k key] upper_eq_iff [of l k key] c(3) by simp
    moreover have "(cs[?i := Some ?c]) ! index_for k l = (if index_for k l = ?i then Some ?c else cs ! index_for k l)"
      using node.hyps(3) by (simp add: nth_list_update)
    ultimately show ?thesis by (cases "upper 0 k = upper 0 key"; cases "index_for k l = ?i") (simp_all add: rt_val_node [OF ok'] rt_val_node [OF ok] s(4) c(1))
  qed
  then show ?case unfolding e using ok' by simp
qed

section \<open>Frames of a tree\<close>

definition free_frames :: "frame_block list \<Rightarrow> u64 set" where
  "free_frames bs = {frame_addr b f |b f. b \<in> set bs \<and> f \<in> fb_free b}"

definition frame_of :: "rnode option \<Rightarrow> u64 \<Rightarrow> u64 option" where
  "frame_of t k = (case rt_val t k of None \<Rightarrow> None | Some e \<Rightarrow> if e AND 1 = 0 then None else Some (e AND NOT 0xfff))"

text \<open>Every entry is empty or holds a page that is not free, and no page is in two entries.\<close>

definition tree_inv :: "rnode option \<Rightarrow> frame_block list \<Rightarrow> bool" where
  "tree_inv t bs \<longleftrightarrow> (\<forall>n. t = Some n \<longrightarrow> rt_ok n) \<and>
     (\<forall>k e. rt_val t k = Some e \<longrightarrow> e = 0 \<or> (\<exists>p. e = p OR 1 \<and> p AND NOT 0xfff = p \<and> p \<notin> free_frames bs)) \<and>
     (\<forall>k k' p. frame_of t k = Some p \<longrightarrow> frame_of t k' = Some p \<longrightarrow> upper 0 k = upper 0 k')"

lemma free_framesI: "b \<in> set bs \<Longrightarrow> f \<in> fb_free b \<Longrightarrow> frame_addr b f \<in> free_frames bs"
  by (auto simp: free_frames_def)

lemma allocate_frame:
  assumes wf: "fa_wf bs" and left: "0 < frames_left bs"
  obtains phys bs' where "fa_allocate bs 1 = Inr (1, phys, bs')" "fa_wf bs'" "Suc (frames_left bs') = frames_left bs" "phys \<in> free_frames bs"
    "free_frames bs' \<subseteq> free_frames bs - {phys}" "phys mod frame_size = 0" "blocks_linear bs \<longrightarrow> blocks_linear bs'"
proof -
  obtain n phys bs' i f where a: "fa_allocate bs 1 = Inr (n, phys, bs')" "fa_allocated bs 1 n phys bs' i f" "fa_wf bs'"
    using fa_allocate_spec [OF wf _ _ frames_left_pos [OF left], of 1] by (simp; blast)
  then have n: "n = 1" by (auto simp: fa_allocated_def)
  then obtain b where b: "i < length bs" "n = 1" "phys = frame_addr (bs ! i) f" "f \<in> fb_free (bs ! i)" "bs' = bs[i := b]" "fb_same (bs ! i) b"
      "fb_free b = fb_free (bs ! i) - {f}"
    using a(2) unfolding fa_allocated_def n by (auto simp: frame_addr_def)
  have bi: "fb_wf (bs ! i)" "bs ! i \<in> set bs" using wf b(1) by (simp_all add: fa_wf_def)
  show thesis
  proof (rule that [OF a(1) [unfolded b(2)] a(3)])
    have "Suc (card (fb_free b)) = card (fb_free (bs ! i))" using card_Suc_Diff1 [OF fb_free_finite b(4)] b(7) by simp
    then show "Suc (frames_left bs') = frames_left bs" using sum_list_update_nat [OF b(1), of "\<lambda>b. card (fb_free b)" b] by (simp add: frames_left_def b(5))
    show "phys \<in> free_frames bs" using bi(2) b(3,4) by (simp add: free_framesI)
    show "blocks_linear bs \<longrightarrow> blocks_linear bs'"
      using b(1,5,6) by (auto simp: blocks_linear_def fb_same_def dest!: set_update_subset_insert [THEN subsetD])
    show "phys mod frame_size = 0" using fb_frame_contained(2) [OF bi(1) fb_free_count [OF bi(1) b(4)]] b(3) by (simp add: frame_addr_def)
    show "free_frames bs' \<subseteq> free_frames bs - {phys}"
    proof
      fix p assume "p \<in> free_frames bs'"
      then obtain j g where j: "j < length bs" "g \<in> fb_free (bs' ! j)" "p = frame_addr (bs' ! j) g"
        by (auto simp: free_frames_def in_set_conv_nth b(5))
      have g: "frame_addr (bs' ! j) g = frame_addr (bs ! j) g" "g \<in> fb_free (bs ! j)" "j = i \<Longrightarrow> g \<noteq> f"
        using j b(1,5,6,7) by (cases "j = i"; auto simp: frame_addr_def fb_same_def)+
      have "p \<noteq> phys" using frame_addr_inj [OF wf j(1) g(2) b(1) b(4)] g j(3) b(3) by auto
      then show "p \<in> free_frames bs - {phys}" using j g free_framesI [of "bs ! j" bs g] by simp
    qed
  qed
qed

lemma entry_bits:
  assumes "phys mod frame_size = 0"
  shows "(phys OR 1) AND 1 \<noteq> 0" "(phys OR 1) AND NOT 0xfff = phys" "phys AND NOT 0xfff = phys"
proof -
  have low: "12 \<le> n" if "bit phys n" for n
  proof (rule ccontr)
    assume "\<not> 12 \<le> n"
    have "phys mod 2 ^ 12 = 0" using assms by simp
    then have "take_bit 12 phys = 0" by (simp add: take_bit_eq_mod)
    with \<open>\<not> 12 \<le> n\<close> show False using that bit_take_bit_iff [of 12 phys n] by simp
  qed
  show "(phys OR 1) AND 1 \<noteq> 0" by (simp add: and_1_iff bit_or_iff)
  show "phys AND NOT 0xfff = phys" by (rule u64_eqI) (auto simp: bit_and_iff dest: low)
  show "(phys OR 1) AND NOT 0xfff = phys" by (rule u64_eqI) (auto simp: bit_and_iff bit_or_iff bit_1_iff dest: low)
qed

lemma rt_val_cong: "rt_ok n \<Longrightarrow> upper 0 k = upper 0 k' \<Longrightarrow> rt_val (Some n) k = rt_val (Some n) k'"
proof (induction n rule: rt_ok.induct)
  case (leaf es b)
  then have ok: "rt_ok (Rleaf b es)" by (intro rt_ok.leaf)
  show ?case using leaf.prems upper_mono [of 0 1 k k'] index_for_cong [of 0 k k'] by (simp add: rt_val_leaf [OF ok])
next
  case (node l cs b)
  then have ok: "rt_ok (Rnode b l cs)" by (intro rt_ok.node) auto
  have "upper (Suc l) k = upper (Suc l) k'" "index_for k l = index_for k' l" using node.prems upper_mono [of 0 _ k k'] index_for_cong [of l k k'] by simp_all
  then show ?case using node.IH [OF index_for_less _ node.prems, of k' l] by (cases "cs ! index_for k' l") (simp_all add: rt_val_node [OF ok])
qed

lemma rt_add_any:
  assumes "\<forall>n. t = Some n \<longrightarrow> rt_ok n" "upper 7 key = 0"
  shows "\<exists>n. rt_add t key = Inr n \<and> rt_ok n \<and> (\<forall>k. rt_val (Some n) k = added key (rt_val t) k)"
proof (cases t)
  case None
  then show ?thesis using new_leaf_ok(1,2) [OF assms(2)] by (simp add: added_def)
next
  case (Some n)
  then show ?thesis using rt_add_ok [of n key] assms by auto
qed

lemma frame_of_added: "rt_val (Some n) = added key (rt_val t) \<Longrightarrow> frame_of (Some n) k = frame_of t k"
  by (simp add: frame_of_def added_def split: option.splits)

lemma page_tree_step:
  assumes inv: "tree_inv t bs" and wf: "fa_wf bs" and left: "0 < frames_left bs" and key: "upper 7 key = 0"
  obtains p n bs' where "page_tree_find_or_add t key bs = Inr (Some p, n, bs')" "tree_inv (Some n) bs'" "fa_wf bs'" "frames_left bs \<le> Suc (frames_left bs')"
    "\<And>k. frame_of (Some n) k = (if upper 0 k = upper 0 key then Some p else frame_of t k)" "frame_of t key = None \<or> frame_of t key = Some p"
    "free_frames bs' \<subseteq> free_frames bs" "frame_of t key = None \<Longrightarrow> p \<in> free_frames bs" "blocks_linear bs \<longrightarrow> blocks_linear bs'"
proof -
  have I: "\<forall>n. t = Some n \<longrightarrow> rt_ok n" "\<And>k e. rt_val t k = Some e \<Longrightarrow> e = 0 \<or> (\<exists>p. e = p OR 1 \<and> p AND NOT 0xfff = p \<and> p \<notin> free_frames bs)"
      "\<And>k k' p. frame_of t k = Some p \<Longrightarrow> frame_of t k' = Some p \<Longrightarrow> upper 0 k = upper 0 k'" using inv unfolding tree_inv_def by blast+
  obtain n where n: "rt_add t key = Inr n" "rt_ok n" "\<And>k. rt_val (Some n) k = added key (rt_val t) k" using rt_add_any [OF I(1) key] by blast
  have fr: "frame_of (Some n) k = frame_of t k" for k by (rule frame_of_added) (use n(3) in auto)
  have val: "e = 0 \<or> (\<exists>p. e = p OR 1 \<and> p AND NOT 0xfff = p \<and> p \<notin> free_frames bs)" if "rt_val (Some n) k = Some e" for k e
    using that I(2) by (auto simp: n(3) added_def split: option.splits if_splits)
  obtain e where e: "rt_val (Some n) key = Some e" using n(3) [of key] by (cases "rt_val t key") (simp_all add: added_def)
  have find: "rt_find (Some n) key = Inr (Some e)" using rt_find_total [OF n(2)] e by simp
  show thesis
  proof (cases "e AND 1 = 0")
    case False
    then have p: "frame_of t key = Some (e AND NOT 0xfff)" unfolding fr [symmetric] using e by (simp add: frame_of_def)
    have k: "frame_of (Some n) k = frame_of t key" if "upper 0 k = upper 0 key" for k
      unfolding fr [of key, symmetric] using rt_val_cong [OF n(2) that] by (simp add: frame_of_def)
    show ?thesis
    proof (rule that)
      show "page_tree_find_or_add t key bs = Inr (Some (e AND NOT 0xfff), n, bs)" using n(1) find False by (simp add: page_tree_find_or_add_def)
      show "tree_inv (Some n) bs" unfolding tree_inv_def fr using n(2) val I(3) by blast
      show "frame_of (Some n) k = (if upper 0 k = upper 0 key then Some (e AND NOT 0xfff) else frame_of t k)" for k using k p fr by simp
    qed (use wf p in auto)
  next
    case True
    then have none: "frame_of t key = None" unfolding fr [symmetric] using e by (simp add: frame_of_def)
    obtain phys bs' where a: "fa_allocate bs 1 = Inr (1, phys, bs')" "fa_wf bs'" "Suc (frames_left bs') = frames_left bs" "phys \<in> free_frames bs"
        "free_frames bs' \<subseteq> free_frames bs - {phys}" "phys mod frame_size = 0" "blocks_linear bs \<longrightarrow> blocks_linear bs'" by (rule allocate_frame [OF wf left])
    note B = entry_bits [OF a(6)]
    let ?n = "rt_set n key (phys OR 1)"
    have s: "rt_ok ?n" "\<And>k. rt_val (Some ?n) k = (if upper 0 k = upper 0 key then Some (phys OR 1) else rt_val (Some n) k)" using rt_set_ok [OF n(2) e] by auto
    have f: "frame_of (Some ?n) k = (if upper 0 k = upper 0 key then Some phys else frame_of t k)" for k
      unfolding fr [of k, symmetric] using B by (simp add: frame_of_def s(2))
    have fresh: "frame_of t k \<noteq> Some phys" for k
    proof
      assume "frame_of t k = Some phys"
      then obtain e where "rt_val (Some n) k = Some e" "e AND 1 \<noteq> 0" "e AND NOT 0xfff = phys"
        unfolding fr [of k, symmetric] by (auto simp: frame_of_def split: option.splits if_splits)
      moreover from this have "phys \<notin> free_frames bs" using val [of k e] by (auto simp: bit.conj_disj_distrib2)
      ultimately show False using a(4) by simp
    qed
    show ?thesis
    proof (rule that)
      show "page_tree_find_or_add t key bs = Inr (Some phys, ?n, bs')" using n(1) find True a(1) B(2) by (simp add: page_tree_find_or_add_def Let_def)
      have v: "e = 0 \<or> (\<exists>p. e = p OR 1 \<and> p AND NOT 0xfff = p \<and> p \<notin> free_frames bs')" if "rt_val (Some ?n) k = Some e" for k e
        using that val [of k e] B(3) a(5) by (auto simp: s(2) split: if_splits)
      have "upper 0 k = upper 0 k'" if "frame_of (Some ?n) k = Some p" "frame_of (Some ?n) k' = Some p" for k k' p
        using that fresh [of k] fresh [of k'] I(3) [of k p k'] unfolding f by (simp split: if_splits)
      then show "tree_inv (Some ?n) bs'" using s(1) v unfolding tree_inv_def by blast
      show "free_frames bs' \<subseteq> free_frames bs" using a(5) by blast
    qed (use a f none in auto)
  qed
qed

section \<open>Requests for pages\<close>

fun page_requests :: "u64 list \<Rightarrow> rnode option \<Rightarrow> frame_block list \<Rightarrow> (u64 option list \<times> rnode option \<times> frame_block list) res" where
  "page_requests [] t bs = Inr ([], t, bs)"
| "page_requests (k # ks) t bs =
     bindE (page_tree_find_or_add t k bs) (\<lambda>(p, n, bs). bindE (page_requests ks (Some n) bs) (\<lambda>(ps, t, bs). Inr (p # ps, t, bs)))"

lemma upper_7_zero: "unat key < 2 ^ 54 \<Longrightarrow> upper 7 key = 0"
  by (simp add: upper_def level_shift_def word_eq_unat unat_drop_bit_u64)

lemma upper_0_iff: "upper 0 k = upper 0 k' \<longleftrightarrow> unat k div 4096 = unat k' div 4096"
  by (simp add: upper_def level_shift_def word_eq_unat unat_drop_bit_u64)

lemma frame_of_cong: "tree_inv t bs \<Longrightarrow> upper 0 j = upper 0 k \<Longrightarrow> frame_of t j = frame_of t k"
  using rt_val_cong [of _ j k] by (cases t) (simp_all add: frame_of_def tree_inv_def)

lemma page_requests_ok:
  assumes "tree_inv t bs" "fa_wf bs" "length ks \<le> frames_left bs" "\<forall>k \<in> set ks. unat k < 2 ^ 54"
  shows "\<exists>ps t' bs'. page_requests ks t bs = Inr (map Some ps, t', bs') \<and> tree_inv t' bs' \<and> length ps = length ks \<and> (\<forall>i < length ks. frame_of t' (ks ! i) = Some (ps ! i)) \<and>
     (\<forall>k p. frame_of t k = Some p \<longrightarrow> frame_of t' k = Some p) \<and> (\<forall>k p. frame_of t' k = Some p \<longrightarrow> frame_of t k = Some p \<or> p \<in> free_frames bs)"
  using assms
proof (induction ks arbitrary: t bs)
  case (Cons k ks)
  obtain p n bs1 where s: "page_tree_find_or_add t k bs = Inr (Some p, n, bs1)" "tree_inv (Some n) bs1" "fa_wf bs1" "frames_left bs \<le> Suc (frames_left bs1)"
    "\<And>j. frame_of (Some n) j = (if upper 0 j = upper 0 k then Some p else frame_of t j)" "frame_of t k = None \<or> frame_of t k = Some p"
    "free_frames bs1 \<subseteq> free_frames bs" "frame_of t k = None \<Longrightarrow> p \<in> free_frames bs" "blocks_linear bs \<longrightarrow> blocks_linear bs1"
    by (rule page_tree_step [OF Cons.prems(1,2), of k]) (use Cons.prems(3,4) upper_7_zero [of k] in auto)
  obtain ps t' bs' where r: "page_requests ks (Some n) bs1 = Inr (map Some ps, t', bs')" "tree_inv t' bs'" "length ps = length ks" "\<forall>i < length ks. frame_of t' (ks ! i) = Some (ps ! i)"
    "\<forall>k p. frame_of (Some n) k = Some p \<longrightarrow> frame_of t' k = Some p" "\<forall>k p. frame_of t' k = Some p \<longrightarrow> frame_of (Some n) k = Some p \<or> p \<in> free_frames bs1"
    using Cons.IH [OF s(2,3)] s(4) Cons.prems(3,4) by fastforce
  note same = frame_of_cong [OF Cons.prems(1)]
  have keep: "frame_of (Some n) j = Some q" if "frame_of t j = Some q" for j q using that s(5) [of j] s(6) same [of j k] by (auto split: if_splits)
  have orig: "frame_of t j = Some q \<or> q \<in> free_frames bs" if "frame_of (Some n) j = Some q" for j q
    using that s(5) [of j] s(6,8) same [of j k] by (auto split: if_splits)
  have "frame_of t' k = Some p" using r(5) s(5) [of k] by simp
  then have "\<forall>i < length (k # ks). frame_of t' ((k # ks) ! i) = Some ((p # ps) ! i)" using r(4) by (auto simp: nth_Cons split: nat.splits)
  moreover have "page_requests (k # ks) t bs = Inr (map Some (p # ps), t', bs')" using s(1) r(1) by simp
  moreover have "\<forall>j q. frame_of t' j = Some q \<longrightarrow> frame_of t j = Some q \<or> q \<in> free_frames bs" using r(6) orig s(7) by blast
  moreover have "\<forall>j q. frame_of t j = Some q \<longrightarrow> frame_of t' j = Some q" using r(5) keep by blast
  moreover have "length (p # ps) = length (k # ks)" using r(3) by simp
  ultimately show ?case using r(2) by blast
qed auto

lemma frame_of_None: "frame_of None k = None"
  by (simp add: frame_of_def)

lemma tree_inv_None: "tree_inv None bs"
  by (simp add: tree_inv_def frame_of_def)

lemma tree_inv_entry:
  assumes "tree_inv t bs" "frame_of t k = Some p"
  shows "page_tree_find t k = Inr (Some (p OR 1))"
proof -
  obtain e where e: "rt_val t k = Some e" "e AND 1 \<noteq> 0" "p = e AND NOT 0xfff" using assms(2) by (auto simp: frame_of_def split: option.splits if_splits)
  then obtain q where q: "e = q OR 1" "q AND NOT 0xfff = q" using assms(1) e(1,2) unfolding tree_inv_def by fastforce
  have "(q OR 1) AND NOT 0xfff = q AND NOT 0xfff" by (rule u64_eqI) (auto simp: bit_and_iff bit_or_iff bit_1_iff)
  then have "e = p OR 1" using e(3) q by simp
  moreover obtain n where "t = Some n" "rt_ok n" using e(1) assms(1) by (cases t) (auto simp: tree_inv_def)
  ultimately show ?thesis using rt_find_total e(1) by (simp add: page_tree_find_def)
qed

text \<open>C14. The pages of a memory area: for any sequence of requests at offsets below 2^54, as long as there are frames, each request gets a
  page that was free at the start, two requests get the same page exactly when their offsets are in the same page, and a later look-up
  finds the page at any of the offsets. What the look-up returns is the entry of the tree, which is the address of
  the page with its lowest bit set.\<close>

theorem page_tree_pages:
  assumes "fa_wf bs" "length ks \<le> frames_left bs" "\<forall>k \<in> set ks. unat k < 2 ^ 54"
  shows "\<exists>ps t bs'. page_requests ks None bs = Inr (map Some ps, t, bs') \<and> length ps = length ks \<and> set ps \<subseteq> free_frames bs \<and>
     (\<forall>i < length ks. \<forall>j < length ks. ps ! i = ps ! j \<longleftrightarrow> unat (ks ! i) div 4096 = unat (ks ! j) div 4096) \<and>
     (\<forall>i < length ks. page_tree_find t (ks ! i) = Inr (Some (ps ! i OR 1)))"
proof -
  obtain ps t bs' where r: "page_requests ks None bs = Inr (map Some ps, t, bs')" "tree_inv t bs'" "length ps = length ks" "\<forall>i < length ks. frame_of t (ks ! i) = Some (ps ! i)"
     "\<forall>k p. frame_of t k = Some p \<longrightarrow> frame_of None k = Some p \<or> p \<in> free_frames bs"
    using page_requests_ok [OF tree_inv_None assms] by blast
  have "set ps \<subseteq> free_frames bs" using r(3-5) by (metis frame_of_None in_set_conv_nth option.distinct(1) subsetI)
  moreover have "ps ! i = ps ! j \<longleftrightarrow> unat (ks ! i) div 4096 = unat (ks ! j) div 4096" if "i < length ks" "j < length ks" for i j
  proof
    assume "ps ! i = ps ! j"
    then have "frame_of t (ks ! i) = Some (ps ! i)" "frame_of t (ks ! j) = Some (ps ! i)" using r(4) that by simp_all
    then show "unat (ks ! i) div 4096 = unat (ks ! j) div 4096" unfolding upper_0_iff [symmetric] using r(2) unfolding tree_inv_def by blast
  next
    assume "unat (ks ! i) div 4096 = unat (ks ! j) div 4096"
    then have "upper 0 (ks ! i) = upper 0 (ks ! j)" by (simp add: upper_0_iff)
    then have "frame_of t (ks ! i) = frame_of t (ks ! j)" by (rule frame_of_cong [OF r(2)])
    then show "ps ! i = ps ! j" using r(4) that by simp
  qed
  ultimately show ?thesis using r(1,3,4) tree_inv_entry [OF r(2)] by blast
qed

lemma fb_example_left: "128 \<le> frames_left [fb_example]"
  using card_mono [OF fb_free_finite fb_example_free] by (simp add: frames_left_def)

theorem page_tree_pages_witness:
  "\<exists>a b t bs'. page_requests [0x1000, 0x2345000, 0x1ff8, 0x2345678] None [fb_example] = Inr ([Some a, Some b, Some a, Some b], t, bs') \<and> a \<noteq> b \<and>
     page_tree_find t 0x2345678 = Inr (Some (b OR 1))"
proof -
  let ?ks = "[0x1000, 0x2345000, 0x1ff8, 0x2345678 :: u64]"
  have "length ?ks \<le> frames_left [fb_example]" using fb_example_left by simp
  from page_tree_pages [OF fb_example_wf this] obtain ps t bs' where r: "page_requests ?ks None [fb_example] = Inr (map Some ps, t, bs')" "length ps = length ?ks"
     "\<forall>i < length ?ks. \<forall>j < length ?ks. ps ! i = ps ! j \<longleftrightarrow> unat (?ks ! i) div 4096 = unat (?ks ! j) div 4096"
     "\<forall>i < length ?ks. page_tree_find t (?ks ! i) = Inr (Some (ps ! i OR 1))" by auto
  obtain a b c d where ps: "ps = [a, b, c, d]" using r(2) by (auto simp: length_Suc_conv)
  have "c = a" "d = b" "a \<noteq> b" using r(3) [rule_format, of 0 2] r(3) [rule_format, of 1 3] r(3) [rule_format, of 0 1] ps by simp_all
  moreover have "page_tree_find t 0x2345678 = Inr (Some (d OR 1))" using r(4) [rule_format, of 3] ps by simp
  ultimately show ?thesis using r(1) ps by auto
qed

end
