(* ===== verification/Vm_Space.thy ===== *)
theory Vm_Space
  imports Page_Tree
begin

text \<open>
  Memory areas and address spaces: \<open>src/src/kernel/objects/vm_area.cpp\<close>, \<open>src/src/kernel/block_allocator.h\<close> and
  \<open>src/src/kernel/vm_space.cpp\<close>. Areas and spaces are objects with a number; the kinds of area are the subclasses of
  the source. An address space has the list of its areas by base address, as theory \<open>Vector\<close> shows of its
  representation, and page tables of theory \<open>Page_Table\<close>. The lock of a space, the invalidation of the
  translation buffers and the message to the other processors are left out.
\<close>

section \<open>Memory areas\<close>

record block_allocator =
  ba_next_block :: u64
  ba_block_size :: u64
  ba_free_blocks :: "u64 list"

definition ba_new :: "u64 \<Rightarrow> u64 \<Rightarrow> block_allocator" where
  "ba_new start sz = \<lparr>ba_next_block = start, ba_block_size = sz, ba_free_blocks = []\<rparr>"

definition ba_allocate :: "block_allocator \<Rightarrow> u64 \<times> block_allocator" where
  "ba_allocate a =
     (if ba_free_blocks a \<noteq> [] then (last (ba_free_blocks a), a\<lparr>ba_free_blocks := butlast (ba_free_blocks a)\<rparr>)
      else (ba_next_block a, a\<lparr>ba_next_block := ba_next_block a + ba_block_size a\<rparr>))"

definition ba_free :: "u64 \<Rightarrow> block_allocator \<Rightarrow> block_allocator" where
  "ba_free p a = a\<lparr>ba_free_blocks := ba_free_blocks a @ [p]\<rparr>"

datatype area_kind =
    Fixed u64
  | Open
  | Untracked
  | Guarded u64 block_allocator
  | Ring u64

record vm_area =
  va_kind :: area_kind
  va_size :: u64
  va_flags :: u32
  va_spaces :: "nat list"
  va_handles :: u16
  va_mapped :: "rnode option"

definition vm_write :: nat where "vm_write = 0"
definition vm_write_combine :: nat where "vm_write_combine = 8"
definition vm_mmio :: nat where "vm_mmio = 12"
definition vm_exact :: nat where "vm_exact = 16"

definition va_new :: "area_kind \<Rightarrow> u64 \<Rightarrow> u32 \<Rightarrow> vm_area" where
  "va_new kind sz flags = \<lparr>va_kind = kind, va_size = page_count sz * frame_size, va_flags = flags, va_spaces = [], va_handles = 0, va_mapped = None\<rparr>"

definition va_fixed :: "u64 \<Rightarrow> u64 \<Rightarrow> u32 \<Rightarrow> vm_area" where
  "va_fixed start sz flags = va_new (Fixed start) sz flags"

definition va_guarded :: "u64 \<Rightarrow> u64 \<Rightarrow> u64 \<Rightarrow> u32 \<Rightarrow> vm_area" where
  "va_guarded start buf_pages sz flags = va_new (Guarded (buf_pages + 1) (ba_new start ((buf_pages + 1) * frame_size))) sz flags"

definition va_ring :: "u64 \<Rightarrow> u32 \<Rightarrow> vm_area" where
  "va_ring sz flags = va_new (Ring sz) (sz * 2) flags"

text \<open>\<open>get_page\<close>: whether there is a page, and its address. The result for the address is zero where the source does not set it.\<close>

definition open_get_page :: "u64 \<Rightarrow> bool \<Rightarrow> vm_area \<Rightarrow> frame_block list \<Rightarrow> ((bool \<times> u64) \<times> vm_area \<times> frame_block list) res" where
  "open_get_page offset alloc a bs =
     (if alloc
      then bindE (page_tree_find_or_add (va_mapped a) offset bs) (\<lambda>(r, root, bs).
           Inr (case r of None \<Rightarrow> (False, 0) | Some p \<Rightarrow> (True, p), a\<lparr>va_mapped := Some root\<rparr>, bs))
      else bindE (page_tree_find (va_mapped a) offset) (\<lambda>r. Inr (case r of None \<Rightarrow> (False, 0) | Some e \<Rightarrow> (True, e), a, bs)))"

definition fixed_get_page :: "u64 \<Rightarrow> u64 \<Rightarrow> vm_area \<Rightarrow> bool \<times> u64" where
  "fixed_get_page start offset a = (if offset > va_size a then (False, 0) else (True, start + offset))"

definition untracked_get_page :: "u64 \<Rightarrow> bool \<Rightarrow> vm_area \<Rightarrow> frame_block list \<Rightarrow> ((bool \<times> u64) \<times> frame_block list) res" where
  "untracked_get_page offset alloc a bs =
     (if offset > va_size a then Inr ((False, 0), bs)
      else if \<not> alloc then Inr ((True, 0), bs)
      else bindE (fa_allocate bs 1) (\<lambda>(n, phys, bs). Inr ((n \<noteq> 0, phys), bs)))"

definition guarded_get_page :: "u64 \<Rightarrow> block_allocator \<Rightarrow> u64 \<Rightarrow> bool \<Rightarrow> vm_area \<Rightarrow> frame_block list \<Rightarrow> ((bool \<times> u64) \<times> vm_area \<times> frame_block list) res" where
  "guarded_get_page pages stacks offset alloc a bs =
     (if offset \<ge> ba_next_block stacks then Inr ((False, 0), a, bs)
      else if drop_bit 12 offset mod pages = 0 then Inr ((False, 0), a, bs)
      else open_get_page offset alloc a bs)"

definition ring_get_page :: "u64 \<Rightarrow> u64 \<Rightarrow> bool \<Rightarrow> vm_area \<Rightarrow> frame_block list \<Rightarrow> ((bool \<times> u64) \<times> vm_area \<times> frame_block list) res" where
  "ring_get_page bufsize offset alloc a bs = open_get_page (if offset > bufsize then offset - bufsize else offset) alloc a bs"

definition va_get_page :: "u64 \<Rightarrow> bool \<Rightarrow> vm_area \<Rightarrow> frame_block list \<Rightarrow> ((bool \<times> u64) \<times> vm_area \<times> frame_block list) res" where
  "va_get_page offset alloc a bs = (case va_kind a of
       Fixed start \<Rightarrow> Inr (fixed_get_page start offset a, a, bs)
     | Untracked \<Rightarrow> bindE (untracked_get_page offset alloc a bs) (\<lambda>(r, bs). Inr (r, a, bs))
     | Open \<Rightarrow> open_get_page offset alloc a bs
     | Guarded pages stacks \<Rightarrow> guarded_get_page pages stacks offset alloc a bs
     | Ring bufsize \<Rightarrow> ring_get_page bufsize offset alloc a bs)"

definition get_section :: "vm_area \<Rightarrow> (u64 \<times> vm_area) res" where
  "get_section a = (case va_kind a of
       Guarded pages stacks \<Rightarrow> let (p, stacks) = ba_allocate stacks in Inr (p + frame_size, a\<lparr>va_kind := Guarded pages stacks\<rparr>)
     | _ \<Rightarrow> Inl Wrong_list)"

definition return_section :: "u64 \<Rightarrow> vm_area \<Rightarrow> vm_area res" where
  "return_section addr a = (case va_kind a of
       Guarded pages stacks \<Rightarrow> Inr (a\<lparr>va_kind := Guarded pages (ba_free (addr - frame_size) stacks)\<rparr>)
     | _ \<Rightarrow> Inl Wrong_list)"

text \<open>The destructors: a fixed area gives its frames back unless they are registers of a device; the pages of the tree of an open
  area are not given back.\<close>

definition fixed_delete :: "u64 \<Rightarrow> vm_area \<Rightarrow> frame_block list \<Rightarrow> frame_block list res" where
  "fixed_delete start a bs = (if bit (va_flags a) vm_mmio then Inr bs else fa_free bs start (page_count (va_size a)))"

definition va_delete :: "vm_area \<Rightarrow> frame_block list \<Rightarrow> frame_block list res" where
  "va_delete a bs = (case va_kind a of Fixed start \<Rightarrow> fixed_delete start a bs | Untracked \<Rightarrow> Inl Assert_failed | _ \<Rightarrow> Inr bs)"

definition area_add_to :: "nat \<Rightarrow> vm_area \<Rightarrow> bool \<times> vm_area" where
  "area_add_to space a = (True, if space \<in> set (va_spaces a) then a else a\<lparr>va_spaces := va_spaces a @ [space]\<rparr>)"

definition untracked_add_to :: "nat \<Rightarrow> vm_area \<Rightarrow> bool \<times> vm_area" where
  "untracked_add_to space a = (if va_spaces a = [] then area_add_to space a else (va_spaces a ! 0 = space, a))"

definition va_add_to :: "nat \<Rightarrow> vm_area \<Rightarrow> bool \<times> vm_area" where
  "va_add_to space a = (if va_kind a = Untracked then untracked_add_to space a else area_add_to space a)"

text \<open>\<open>remove_swap\<close> on the list of spaces: the last one takes the place of the one that is removed.\<close>

fun remove_swap :: "nat \<Rightarrow> nat list \<Rightarrow> nat list" where
  "remove_swap x [] = []"
| "remove_swap x (y # ys) = (if y = x then (if ys = [] then [] else last ys # butlast ys) else y # remove_swap x ys)"

section \<open>Address spaces\<close>

record vm_space =
  vs_kernel :: bool
  vs_pml4 :: u64
  vs_areas :: "(u64 \<times> nat) list"

record vm_world =
  vw_areas :: "nat \<rightharpoonup> vm_area"
  vw_spaces :: "nat \<rightharpoonup> vm_space"
  vw_pages :: pages

definition area_at :: "nat \<Rightarrow> vm_world \<Rightarrow> vm_area res" where
  "area_at a w = (case vw_areas w a of None \<Rightarrow> Inl Use_after_free | Some x \<Rightarrow> Inr x)"

definition space_at :: "nat \<Rightarrow> vm_world \<Rightarrow> vm_space res" where
  "space_at s w = (case vw_spaces w s of None \<Rightarrow> Inl Use_after_free | Some x \<Rightarrow> Inr x)"

text \<open>The loop of \<open>add\<close>: the base address of the new area, or nothing when an exact address is taken.\<close>

fun add_scan :: "vm_world \<Rightarrow> (u64 \<times> nat) list \<Rightarrow> u64 \<Rightarrow> u64 \<Rightarrow> bool \<Rightarrow> u64 option res" where
  "add_scan w [] base sz exact = Inr (Some base)"
| "add_scan w ((cb, ca) # as) base sz exact =
     bindE (area_at ca w) (\<lambda>cur.
     let cur_end = cb + va_size cur
     in if base \<ge> cur_end then add_scan w as base sz exact
        else if base + sz \<le> cb then Inr (Some base)
        else if exact then Inr None
        else add_scan w as cur_end sz exact)"

definition area_insert :: "u64 \<Rightarrow> nat \<Rightarrow> (u64 \<times> nat) list \<Rightarrow> (u64 \<times> nat) list" where
  "area_insert base a as = takeWhile (\<lambda>x. fst x \<le> base) as @ (base, a) # dropWhile (\<lambda>x. fst x \<le> base) as"

definition min_auto_address :: u64 where "min_auto_address = 16 * 1024 * 1024"

definition vs_add :: "nat \<Rightarrow> u64 \<Rightarrow> nat \<Rightarrow> u32 \<Rightarrow> vm_world \<Rightarrow> (u64 \<times> vm_world) res" where
  "vs_add s base a flags w =
     (let base = (if base = 0 then min_auto_address else base); exact = bit flags vm_exact
      in bindE (space_at s w) (\<lambda>space.
         bindE (area_at a w) (\<lambda>new_area.
         bindE (add_scan w (vs_areas space) base (va_size new_area) exact) (\<lambda>r. case r of
           None \<Rightarrow> Inr (0, w)
         | Some base \<Rightarrow>
             let space = space\<lparr>vs_areas := area_insert base a (vs_areas space)\<rparr>;
                 (ok, new_area) = va_add_to s new_area;
                 new_area = new_area\<lparr>va_handles := va_handles new_area + 1\<rparr>
             in Inr (base, w\<lparr>vw_spaces := (vw_spaces w)(s \<mapsto> space), vw_areas := (vw_areas w)(a \<mapsto> new_area)\<rparr>)))))"

fun vs_get_loop :: "vm_world \<Rightarrow> (u64 \<times> nat) list \<Rightarrow> u64 \<Rightarrow> (u64 \<times> nat) option res" where
  "vs_get_loop w [] addr = Inr None"
| "vs_get_loop w ((b, a) # as) addr =
     bindE (area_at a w) (\<lambda>x. if addr \<ge> b \<and> addr < b + va_size x then Inr (Some (b, a)) else vs_get_loop w as addr)"

definition vs_get :: "nat \<Rightarrow> u64 \<Rightarrow> vm_world \<Rightarrow> (u64 \<times> nat) option res" where
  "vs_get s addr w = bindE (space_at s w) (\<lambda>space. vs_get_loop w (vs_areas space) addr)"

definition find_vma :: "nat \<Rightarrow> (u64 \<times> nat) list \<Rightarrow> u64 option" where
  "find_vma a as = map_option fst (find (\<lambda>x. snd x = a) as)"

text \<open>The loop of \<open>can_resize\<close>, over the pairs of neighbours; it stops one pair early. The second component is the base of the area,
  where the loop met it.\<close>

fun resize_scan :: "nat \<Rightarrow> nat \<Rightarrow> (u64 \<times> nat) list \<Rightarrow> nat \<Rightarrow> u64 \<Rightarrow> u64 \<Rightarrow> u64 option" where
  "resize_scan 0 i as a sz base = Some base"
| "resize_scan (Suc n) i as a sz base =
     (if snd (as ! (i - 1)) \<noteq> a then resize_scan n (i + 1) as a sz base
      else if fst (as ! (i - 1)) + sz > fst (as ! i) then None
      else resize_scan n (i + 1) as a sz (fst (as ! (i - 1))))"

definition vs_can_resize :: "vm_space \<Rightarrow> nat \<Rightarrow> u64 \<Rightarrow> bool res" where
  "vs_can_resize space a sz =
     (if vs_areas space = [] then Inl Out_of_bounds
      else case resize_scan (length (vs_areas space) - 2) 1 (vs_areas space) a sz 0 of
             None \<Rightarrow> Inr False
           | Some base \<Rightarrow> Inr (base + sz \<le> (if vs_kernel space then - 1 else 0x7fffffffffff)))"

fun va_can_resize :: "nat list \<Rightarrow> nat \<Rightarrow> u64 \<Rightarrow> vm_world \<Rightarrow> bool res" where
  "va_can_resize [] a sz w = Inr True"
| "va_can_resize (s # ss) a sz w =
     bindE (space_at s w) (\<lambda>space. bindE (vs_can_resize space a sz) (\<lambda>ok. if ok then va_can_resize ss a sz w else Inr False))"

definition va_resize :: "nat \<Rightarrow> u64 \<Rightarrow> vm_world \<Rightarrow> (u64 \<times> vm_world) res" where
  "va_resize a sz w =
     bindE (area_at a w) (\<lambda>x. case va_kind x of
       Fixed start \<Rightarrow> Inr (va_size x, w)
     | _ \<Rightarrow> bindE (va_can_resize (va_spaces x) a sz w) (\<lambda>ok.
            if ok then Inr (sz, w\<lparr>vw_areas := (vw_areas w)(a \<mapsto> x\<lparr>va_size := sz\<rparr>)\<rparr>) else Inr (va_size x, w)))"

definition page_in_flags :: "bool \<Rightarrow> u32 \<Rightarrow> u64" where
  "page_in_flags is_kernel flags =
     page_present OR (if is_kernel then 0 else page_user) OR (if bit flags vm_write then page_write else 0) OR
     (if bit flags vm_write_combine then page_wc else 0)"

text \<open>The loop of \<open>page_in\<close>.\<close>

fun page_in_loop :: "nat \<Rightarrow> u64 \<Rightarrow> u64 \<Rightarrow> iterator \<Rightarrow> pages \<Rightarrow> pages res" where
  "page_in_loop 0 phys flags it s = Inr s"
| "page_in_loop (Suc n) phys flags it s =
     bindE (entry_ref 3 it s) (\<lambda>(p, it, s).
     bindE (pg_write p (it_index it ! 3) (phys OR flags) s) (\<lambda>s.
     bindE (it_next 4 it) (\<lambda>it. page_in_loop n (phys + frame_size) flags it s)))"

definition vs_page_in :: "nat \<Rightarrow> nat \<Rightarrow> u64 \<Rightarrow> u64 \<Rightarrow> u64 \<Rightarrow> vm_world \<Rightarrow> vm_world res" where
  "vs_page_in s a offset phys count w =
     bindE (space_at s w) (\<lambda>space.
     case find_vma a (vs_areas space) of
       None \<Rightarrow> Inr w
     | Some base \<Rightarrow>
         bindE (area_at a w) (\<lambda>vma.
         bindE (page_in_loop (unat count) phys (page_in_flags (vs_kernel space) (va_flags vma)) (it_new (base + offset) (vs_pml4 space)) (vw_pages w)) (\<lambda>pages.
         Inr (w\<lparr>vw_pages := pages\<rparr>))))"

text \<open>The loop of \<open>clear\<close>, with the run of frames that is collected to be freed.\<close>

definition free_run :: "bool \<Rightarrow> u64 \<Rightarrow> u64 \<Rightarrow> pages \<Rightarrow> pages res" where
  "free_run release start count s =
     (if release \<and> count \<noteq> 0 then bindE (fa_free (pg_blocks s) start count) (\<lambda>bs. Inr (s\<lparr>pg_blocks := bs\<rparr>)) else Inr s)"

fun clear_loop :: "nat \<Rightarrow> bool \<Rightarrow> u64 \<Rightarrow> u64 \<Rightarrow> iterator \<Rightarrow> pages \<Rightarrow> (u64 \<times> u64 \<times> pages) res" where
  "clear_loop 0 release free_start free_count it s = Inr (free_start, free_count, s)"
| "clear_loop (Suc n) release free_start free_count it s =
     bindE (entry_ref 3 it s) (\<lambda>(p, it, s).
     bindE (pg_read (pg_mem s) p (it_index it ! 3)) (\<lambda>e.
     let phys = e AND NOT 0xfff
     in bindE (if e AND page_present = 0 then Inr (free_start, free_count, s)
               else bindE (pg_write p (it_index it ! 3) 0 s) (\<lambda>s.
                    if free_count \<noteq> 0 \<and> phys = free_start + free_count * frame_size
                    then Inr (free_start, free_count + 1, s)
                    else bindE (free_run release free_start free_count s) (\<lambda>s. Inr (phys, 1, s)))) (\<lambda>(free_start, free_count, s).
        bindE (it_next 4 it) (\<lambda>it. clear_loop n release free_start free_count it s))))"

definition vs_clear :: "nat \<Rightarrow> nat \<Rightarrow> u64 \<Rightarrow> u64 \<Rightarrow> bool \<Rightarrow> vm_world \<Rightarrow> vm_world res" where
  "vs_clear s a offset count release w =
     bindE (space_at s w) (\<lambda>space.
     case find_vma a (vs_areas space) of
       None \<Rightarrow> Inr w
     | Some base \<Rightarrow>
         bindE (clear_loop (unat count) release 0 0 (it_new (base + offset) (vs_pml4 space)) (vw_pages w)) (\<lambda>(free_start, free_count, pages).
         bindE (free_run release free_start free_count pages) (\<lambda>pages. Inr (w\<lparr>vw_pages := pages\<rparr>))))"

definition locked_page_tag :: u64 where "locked_page_tag = 0xbadfe11a"

fun lock_loop :: "nat \<Rightarrow> iterator \<Rightarrow> pages \<Rightarrow> pages res" where
  "lock_loop 0 it s = Inr s"
| "lock_loop (Suc n) it s =
     bindE (entry_ref 3 it s) (\<lambda>(p, it, s).
     bindE (pg_read (pg_mem s) p (it_index it ! 3)) (\<lambda>e.
     bindE (if e AND page_present = 0 then Inr s
            else bindE (pg_write p (it_index it ! 3) locked_page_tag s) (free_run True (e AND NOT 0xfff) 1)) (\<lambda>s.
     bindE (it_next 4 it) (\<lambda>it. lock_loop n it s))))"

definition vs_lock :: "nat \<Rightarrow> nat \<Rightarrow> u64 \<Rightarrow> u64 \<Rightarrow> vm_world \<Rightarrow> vm_world res" where
  "vs_lock s a offset count w =
     bindE (space_at s w) (\<lambda>space.
     case find_vma a (vs_areas space) of
       None \<Rightarrow> Inr w
     | Some base \<Rightarrow>
         bindE (lock_loop (unat count) (it_new (base + offset) (vs_pml4 space)) (vw_pages w)) (\<lambda>pages. Inr (w\<lparr>vw_pages := pages\<rparr>)))"

definition vs_lookup :: "nat \<Rightarrow> nat \<Rightarrow> u64 \<Rightarrow> vm_world \<Rightarrow> u64 res" where
  "vs_lookup s a offset w = bindE (space_at s w) (\<lambda>space. Inr (case find_vma a (vs_areas space) of None \<Rightarrow> 0 | Some base \<Rightarrow> base + offset))"

section \<open>Lifetime of areas\<close>

definition area_delete :: "nat \<Rightarrow> vm_area \<Rightarrow> vm_world \<Rightarrow> vm_world res" where
  "area_delete a x w =
     bindE (va_delete x (pg_blocks (vw_pages w))) (\<lambda>bs.
     Inr (w\<lparr>vw_areas := (vw_areas w)(a := None), vw_pages := (vw_pages w)\<lparr>pg_blocks := bs\<rparr>\<rparr>))"

definition va_remove_from :: "nat \<Rightarrow> nat \<Rightarrow> vm_world \<Rightarrow> vm_world res" where
  "va_remove_from s a w =
     bindE (area_at a w) (\<lambda>x.
     let x = x\<lparr>va_spaces := remove_swap s (va_spaces x)\<rparr>
     in if va_spaces x = [] \<and> va_handles x = 0 then area_delete a x w else Inr (w\<lparr>vw_areas := (vw_areas w)(a \<mapsto> x)\<rparr>))"

definition va_handle_release :: "nat \<Rightarrow> vm_world \<Rightarrow> vm_world res" where
  "va_handle_release a w =
     bindE (area_at a w) (\<lambda>x.
     let x = x\<lparr>va_handles := va_handles x - 1\<rparr>
     in if va_handles x = 0 \<and> va_spaces x = [] then area_delete a x w else Inr (w\<lparr>vw_areas := (vw_areas w)(a \<mapsto> x)\<rparr>))"

definition vs_remove_area :: "nat \<Rightarrow> nat \<Rightarrow> vm_world \<Rightarrow> vm_world res" where
  "vs_remove_area s a w =
     bindE (va_remove_from s a w) (\<lambda>w.
     bindE (area_at a w) (\<lambda>x.
     bindE (vs_clear s a 0 (page_count (va_size x)) False w) (va_handle_release a)))"

definition vs_remove :: "nat \<Rightarrow> nat \<Rightarrow> vm_world \<Rightarrow> (bool \<times> vm_world) res" where
  "vs_remove s a w =
     bindE (space_at s w) (\<lambda>space.
     case find_vma a (vs_areas space) of
       None \<Rightarrow> Inr (False, w)
     | Some base \<Rightarrow>
         bindE (vs_remove_area s a w) (\<lambda>w.
         bindE (space_at s w) (\<lambda>space.
         Inr (True, w\<lparr>vw_spaces := (vw_spaces w)(s \<mapsto> space\<lparr>vs_areas := remove1 (base, a) (vs_areas space)\<rparr>)\<rparr>))))"

section \<open>Faults\<close>


definition vs_find_physical :: "nat \<Rightarrow> u64 \<Rightarrow> vm_world \<Rightarrow> u64 res" where
  "vs_find_physical s virt w =
     bindE (vs_get s virt w) (\<lambda>r. case r of
        None \<Rightarrow> Inr 0
      | Some (base, a) \<Rightarrow>
          bindE (area_at a w) (\<lambda>x.
          bindE (va_get_page (virt - base) False x (pg_blocks (vw_pages w))) (\<lambda>((ok, phys), x, bs). Inr phys)))"

section \<open>Whole spaces\<close>

text \<open>The loop of \<open>copy_from\<close>, whose iterators stay where they are.\<close>

fun copy_loop :: "nat \<Rightarrow> iterator \<Rightarrow> iterator \<Rightarrow> pages \<Rightarrow> pages res" where
  "copy_loop 0 dit sit s = Inr s"
| "copy_loop (Suc n) dit sit s =
     bindE (entry_ref 3 dit s) (\<lambda>(d, dit, s).
     bindE (entry_ref 3 sit s) (\<lambda>(p, sit, s).
     bindE (pg_read (pg_mem s) p (it_index sit ! 3)) (\<lambda>e.
     bindE (pg_write d (it_index dit ! 3) e s) (copy_loop n dit sit))))"

text \<open>Both searches store the base in \<open>from\<close>, so \<open>to\<close> stays zero.\<close>

definition vs_copy_from :: "nat \<Rightarrow> nat \<Rightarrow> nat \<Rightarrow> vm_world \<Rightarrow> vm_world res" where
  "vs_copy_from s source a w =
     bindE (space_at s w) (\<lambda>space.
     bindE (space_at source w) (\<lambda>source.
     case (find_vma a (vs_areas space), find_vma a (vs_areas source)) of
       (Some _, Some base) \<Rightarrow>
         bindE (area_at a w) (\<lambda>x.
         bindE (copy_loop (unat (page_count (va_size x))) (it_new 0 (vs_pml4 space)) (it_new base (vs_pml4 source)) (vw_pages w)) (\<lambda>pages.
         Inr (w\<lparr>vw_pages := pages\<rparr>)))
     | _ \<Rightarrow> Inr w))"

text \<open>A new space, numbered \<open>s\<close>, with the upper half of the tables of the kernel's space and the system configuration, the area numbered \<open>a\<close>.\<close>

fun copy_entries :: "nat \<Rightarrow> nat \<Rightarrow> u64 \<Rightarrow> u64 \<Rightarrow> pages \<Rightarrow> pages res" where
  "copy_entries 0 i src dst s = Inr s"
| "copy_entries (Suc n) i src dst s = bindE (pg_read (pg_mem s) src i) (\<lambda>e. bindE (pg_write dst i e s) (copy_entries n (i + 1) src dst))"

definition vs_new :: "nat \<Rightarrow> nat \<Rightarrow> u64 \<Rightarrow> u64 \<Rightarrow> u64 \<Rightarrow> u64 \<Rightarrow> vm_world \<Rightarrow> vm_world res" where
  "vs_new s a kpml4 sysconf_phys sysconf_size sysconf_user_address w =
     bindE (get_table_page (vw_pages w)) (\<lambda>(pml4, pages).
     bindE (copy_entries (512 - kernel_root_index) kernel_root_index kpml4 pml4 pages) (\<lambda>pages.
     let w = w\<lparr>vw_pages := pages, vw_spaces := (vw_spaces w)(s \<mapsto> \<lparr>vs_kernel = False, vs_pml4 = pml4, vs_areas = []\<rparr>),
               vw_areas := (vw_areas w)(a \<mapsto> va_fixed sysconf_phys sysconf_size 0)\<rparr>
     in bindE (vs_add s sysconf_user_address a (2 ^ vm_exact) w) (\<lambda>(base, w). Inr w)))"

fun remove_areas :: "nat \<Rightarrow> nat list \<Rightarrow> vm_world \<Rightarrow> vm_world res" where
  "remove_areas s [] w = Inr w"
| "remove_areas s (a # as) w = bindE (vs_remove_area s a w) (remove_areas s as)"

definition vs_delete :: "nat \<Rightarrow> vm_world \<Rightarrow> vm_world res" where
  "vs_delete s w =
     bindE (space_at s w) (\<lambda>space.
     bindE (remove_areas s (map snd (vs_areas space)) w) (\<lambda>w.
     if vs_kernel space then Inl Assert_failed
     else bindE (pt_free 0 (vs_pml4 space) (vw_pages w)) (\<lambda>pages. Inr (w\<lparr>vw_pages := pages, vw_spaces := (vw_spaces w)(s := None)\<rparr>))))"

section \<open>Mapping and unmapping pages\<close>

text \<open>The entry of a page, by its number.\<close>

definition mapping :: "pages \<Rightarrow> u64 \<Rightarrow> nat \<Rightarrow> u64" where
  "mapping s root v = pte (pg_mem s) root (path_of v)"

lemma grows_mapping: "grows root R (pg_mem s) (pg_mem s') \<Longrightarrow> mapping s' root v = mapping s root v"
  by (simp add: grows_def mapping_def)

text \<open>The entry of the page an iterator stands at is referred to, and overwritten or left as it is.\<close>

lemma step_entry:
  assumes wf: "pages_wf s root R (k + 3)" and it: "it_ok root it" "it_index it = path_of v" and v: "v < 2 ^ 36"
  obtains p it' s1 where "entry_ref 3 it s = Inr (p, it', s1)" "it_index it' = path_of v" "it_ok root it'" "pages_wf s1 root R k" "\<And>j. mapping s1 root j = mapping s root j"
    "\<And>q. q \<in> R \<Longrightarrow> pg_mem s1 q = pg_mem s q" "pg_read (pg_mem s1) p (path_of v ! 3) = Inr (mapping s root v)"
    "\<And>e. \<exists>s2. pg_write p (path_of v ! 3) e s1 = Inr s2 \<and> pages_wf s2 root R k \<and> (\<forall>j < 2 ^ 36. mapping s2 root j = (if j = v then e else mapping s root j)) \<and>
       (\<forall>q \<in> R. pg_mem s2 q = pg_mem s q)"
proof -
  obtain p it' s1 where r: "entry_ref 3 it s = Inr (p, it', s1)" "it_index it' = it_index it" "it_ok root it'" "pages_wf s1 root R k" "grows root R (pg_mem s) (pg_mem s1)"
    "p \<noteq> 0" "walk (pg_mem s1) root (take 3 (it_index it)) = Some p" "pg_mem s1 p ! (it_index it ! 3) = pte (pg_mem s) root (it_index it)"
    by (rule entry_ref_ok [OF wf it(1)])
  have m: "mapping s1 root j = mapping s root j" for j using r(5) by (rule grows_mapping)
  have q: "pg_mem s1 q = pg_mem s q" if "q \<in> R" for q using r(5) that by (simp add: grows_def)
  have "length (pg_mem s1 p) = 512" using pages_wfD(3) [OF r(4)] by (simp add: sized_def)
  moreover have "path_of v ! 3 < 512" using valid_index_nth [OF valid_path_of, of 3 v] by simp
  ultimately have rd: "pg_read (pg_mem s1) p (path_of v ! 3) = Inr (mapping s root v)" using r(6,8) it(2) by (simp add: pg_read_def mapping_def)
  have "\<exists>s2. pg_write p (path_of v ! 3) e s1 = Inr s2 \<and> pages_wf s2 root R k \<and> (\<forall>j < 2 ^ 36. mapping s2 root j = (if j = v then e else mapping s root j)) \<and>
       (\<forall>q \<in> R. pg_mem s2 q = pg_mem s q)" for e
  proof -
    obtain s2 where w: "pg_write p (path_of v ! 3) e s1 = Inr s2" "pages_wf s2 root R k" "\<And>xs. valid_index xs \<Longrightarrow> pte (pg_mem s2) root xs = (if xs = path_of v then e else pte (pg_mem s1) root xs)"
      "\<And>q. q \<in> R \<Longrightarrow> pg_mem s2 q = pg_mem s1 q" "pg_blocks s2 = pg_blocks s1"
      by (rule write_entry_ok [OF r(4) valid_path_of [of v] r(7) [unfolded it(2)] r(6), of e]) blast
    have "mapping s2 root j = (if j = v then e else mapping s root j)" if "j < 2 ^ 36" for j
      using w(3) [OF valid_path_of, of j] path_of_inj [OF that v] m [of j] by (simp add: mapping_def)
    then show ?thesis using w q by auto
  qed
  then show thesis using r(2) it(2) by (intro that [OF r(1) _ r(3,4) m q rd]) auto
qed

lemma page_in_loop_ok:
  assumes "pages_wf s root R (k + 3 * n)" "it_ok root it" "it_index it = path_of v" "v + n < 2 ^ 36"
  shows "\<exists>s'. page_in_loop n phys flags it s = Inr s' \<and> pages_wf s' root R k \<and>
     (\<forall>j < 2 ^ 36. mapping s' root j = (if v \<le> j \<and> j < v + n then (phys + of_nat (j - v) * frame_size) OR flags else mapping s root j)) \<and>
     (\<forall>q \<in> R. pg_mem s' q = pg_mem s q)"
  using assms
proof (induction n arbitrary: phys it s v)
  case (Suc n)
  have "pages_wf s root R ((k + 3 * n) + 3)" using Suc.prems(1) by (simp add: algebra_simps)
  then obtain p it1 s1 where r: "entry_ref 3 it s = Inr (p, it1, s1)" "it_index it1 = path_of v" "it_ok root it1"
    "\<And>e. \<exists>s2. pg_write p (path_of v ! 3) e s1 = Inr s2 \<and> pages_wf s2 root R (k + 3 * n) \<and> (\<forall>j < 2 ^ 36. mapping s2 root j = (if j = v then e else mapping s root j)) \<and>
       (\<forall>q \<in> R. pg_mem s2 q = pg_mem s q)"
    by (rule step_entry [OF _ Suc.prems(2,3)]) (use Suc.prems(4) in auto)
  obtain s2 where w: "pg_write p (path_of v ! 3) (phys OR flags) s1 = Inr s2" "pages_wf s2 root R (k + 3 * n)"
    "\<forall>j < 2 ^ 36. mapping s2 root j = (if j = v then phys OR flags else mapping s root j)" "\<forall>q \<in> R. pg_mem s2 q = pg_mem s q" using r(4) by blast
  let ?it = "it1\<lparr>it_index := path_of (Suc v)\<rparr>"
  have nx: "it_next 4 it1 = Inr ?it" using it_next_ok [OF r(3,2)] Suc.prems(4) by simp
  have it: "it_ok root ?it" "it_index ?it = path_of (Suc v)" using r(3) by (simp_all add: it_ok_def)
  obtain s3 where f: "page_in_loop n (phys + frame_size) flags ?it s2 = Inr s3" "pages_wf s3 root R k"
     "\<forall>j < 2 ^ 36. mapping s3 root j = (if Suc v \<le> j \<and> j < Suc v + n then (phys + frame_size + of_nat (j - Suc v) * frame_size) OR flags else mapping s2 root j)"
     "\<forall>q \<in> R. pg_mem s3 q = pg_mem s2 q"
    using Suc.IH [OF w(2) it] Suc.prems(4) by fastforce
  have "page_in_loop (Suc n) phys flags it s = Inr s3" using r(1,2) w(1) nx f(1) by simp
  moreover have "mapping s3 root j = (if v \<le> j \<and> j < v + Suc n then (phys + of_nat (j - v) * frame_size) OR flags else mapping s root j)" if "j < 2 ^ 36" for j
  proof (cases "j = v")
    case True
    then show ?thesis using f(3) w(3) that by simp
  next
    case False
    have "phys + frame_size + of_nat (j - Suc v) * frame_size = phys + of_nat (j - v) * frame_size" if "Suc v \<le> j"
    proof -
      have "j - v = Suc (j - Suc v)" using that by simp
      then show ?thesis by (simp add: algebra_simps)
    qed
    then show ?thesis using False f(3) w(3) \<open>j < 2 ^ 36\<close> by auto
  qed
  ultimately show ?case using f(2,4) w(4) by auto
qed auto

lemma page_in_loop_last:
  assumes "pages_wf s root R (k + 3 * n)" "it_ok root it" "it_index it = path_of v" "v + n = 2 ^ 36" "0 < n"
  shows "page_in_loop n phys flags it s = Inl Assert_failed"
  using assms
proof (induction n arbitrary: phys it s v)
  case (Suc n)
  have "pages_wf s root R ((k + 3 * n) + 3)" using Suc.prems(1) by (simp add: algebra_simps)
  then obtain p it1 s1 where r: "entry_ref 3 it s = Inr (p, it1, s1)" "it_index it1 = path_of v" "it_ok root it1"
    "\<And>e. \<exists>s2. pg_write p (path_of v ! 3) e s1 = Inr s2 \<and> pages_wf s2 root R (k + 3 * n) \<and> (\<forall>j < 2 ^ 36. mapping s2 root j = (if j = v then e else mapping s root j)) \<and>
       (\<forall>q \<in> R. pg_mem s2 q = pg_mem s q)"
    by (rule step_entry [OF _ Suc.prems(2,3)]) (use Suc.prems(4) in auto)
  obtain s2 where w: "pg_write p (path_of v ! 3) (phys OR flags) s1 = Inr s2" "pages_wf s2 root R (k + 3 * n)" using r(4) by blast
  let ?it = "it1\<lparr>it_index := path_of (Suc v)\<rparr>"
  have it: "it_ok root ?it" "it_index ?it = path_of (Suc v)" using r(3) by (simp_all add: it_ok_def)
  show ?case
  proof (cases "n = 0")
    case True
    then show ?thesis using it_next_ok [OF r(3,2)] Suc.prems(4) r(1,2) w(1) by simp
  next
    case False
    then have "it_next 4 it1 = Inr ?it" using it_next_ok [OF r(3,2)] Suc.prems(4) by simp
    moreover have "page_in_loop n (phys + frame_size) flags ?it s2 = Inl Assert_failed" using Suc.IH [OF w(2) it] Suc.prems(4) False by simp
    ultimately show ?thesis using r(1,2) w(1) by simp
  qed
qed simp

definition present :: "u64 \<Rightarrow> bool" where
  "present e \<longleftrightarrow> e AND page_present \<noteq> 0"

lemma clear_loop_ok:
  assumes "pages_wf s root R (k + 3 * n)" "it_ok root it" "it_index it = path_of v" "v + n < 2 ^ 36"
  shows "\<exists>fs fc s'. clear_loop n False fs0 fc0 it s = Inr (fs, fc, s') \<and> pages_wf s' root R k \<and>
     (\<forall>j < 2 ^ 36. mapping s' root j = (if v \<le> j \<and> j < v + n \<and> present (mapping s root j) then 0 else mapping s root j)) \<and>
     (\<forall>q \<in> R. pg_mem s' q = pg_mem s q)"
  using assms
proof (induction n arbitrary: fs0 fc0 it s v)
  case (Suc n)
  have "pages_wf s root R ((k + 3 * n) + 3)" using Suc.prems(1) by (simp add: algebra_simps)
  then obtain p it1 s1 where r: "entry_ref 3 it s = Inr (p, it1, s1)" "it_index it1 = path_of v" "it_ok root it1" "pages_wf s1 root R (k + 3 * n)" "\<And>j. mapping s1 root j = mapping s root j"
    "\<And>q. q \<in> R \<Longrightarrow> pg_mem s1 q = pg_mem s q" "pg_read (pg_mem s1) p (path_of v ! 3) = Inr (mapping s root v)"
    "\<And>e. \<exists>s2. pg_write p (path_of v ! 3) e s1 = Inr s2 \<and> pages_wf s2 root R (k + 3 * n) \<and> (\<forall>j < 2 ^ 36. mapping s2 root j = (if j = v then e else mapping s root j)) \<and>
       (\<forall>q \<in> R. pg_mem s2 q = pg_mem s q)"
    by (rule step_entry [OF _ Suc.prems(2,3)]) (use Suc.prems(4) in auto)
  let ?it = "it1\<lparr>it_index := path_of (Suc v)\<rparr>" and ?e = "mapping s root v"
  have nx: "it_next 4 it1 = Inr ?it" using it_next_ok [OF r(3,2)] Suc.prems(4) by simp
  have it: "it_ok root ?it" "it_index ?it = path_of (Suc v)" using r(3) by (simp_all add: it_ok_def)
  have "\<exists>fs1 fc1 s2. clear_loop (Suc n) False fs0 fc0 it s = clear_loop n False fs1 fc1 ?it s2 \<and> pages_wf s2 root R (k + 3 * n) \<and>
     (\<forall>j < 2 ^ 36. mapping s2 root j = (if j = v \<and> present (mapping s root j) then 0 else mapping s root j)) \<and> (\<forall>q \<in> R. pg_mem s2 q = pg_mem s q)"
  proof (cases "present ?e")
    case False
    then have "clear_loop (Suc n) False fs0 fc0 it s = clear_loop n False fs0 fc0 ?it s1" using r(1,2,7) nx by (simp add: present_def Let_def)
    then show ?thesis using r(4-6) False by (intro exI [of _ fs0] exI [of _ fc0] exI [of _ s1]) auto
  next
    case True
    obtain s2 where w: "pg_write p (path_of v ! 3) 0 s1 = Inr s2" "pages_wf s2 root R (k + 3 * n)" "\<forall>j < 2 ^ 36. mapping s2 root j = (if j = v then 0 else mapping s root j)"
      "\<forall>q \<in> R. pg_mem s2 q = pg_mem s q" using r(8) by blast
    have "\<exists>fs1 fc1. clear_loop (Suc n) False fs0 fc0 it s = clear_loop n False fs1 fc1 ?it s2"
      using r(1,2,7) nx w(1) True by (auto simp: present_def Let_def free_run_def)
    moreover have "\<forall>j < 2 ^ 36. mapping s2 root j = (if j = v \<and> present (mapping s root j) then 0 else mapping s root j)" using w(3) True by auto
    ultimately show ?thesis using w(2,4) by blast
  qed
  then obtain fs1 fc1 s2 where c: "clear_loop (Suc n) False fs0 fc0 it s = clear_loop n False fs1 fc1 ?it s2" "pages_wf s2 root R (k + 3 * n)"
     "\<forall>j < 2 ^ 36. mapping s2 root j = (if j = v \<and> present (mapping s root j) then 0 else mapping s root j)" "\<forall>q \<in> R. pg_mem s2 q = pg_mem s q" by blast
  have "Suc v + n < 2 ^ 36" using Suc.prems(4) by simp
  from Suc.IH [OF c(2) it this, of fs1 fc1] obtain fs fc s' where f: "clear_loop n False fs1 fc1 ?it s2 = Inr (fs, fc, s')" "pages_wf s' root R k"
     "\<forall>j < 2 ^ 36. mapping s' root j = (if Suc v \<le> j \<and> j < Suc v + n \<and> present (mapping s2 root j) then 0 else mapping s2 root j)" "\<forall>q \<in> R. pg_mem s' q = pg_mem s2 q" by blast
  have "mapping s' root j = (if v \<le> j \<and> j < v + Suc n \<and> present (mapping s root j) then 0 else mapping s root j)" if "j < 2 ^ 36" for j
    using that c(3) f(3) by (cases "j = v") (auto simp: not_less_eq_eq le_less_Suc_eq)
  then show ?case using c(1,4) f(1,2,4) by auto
qed auto

lemma vs_page_in_ok:
  assumes "vw_spaces w s = Some space" "find_vma a (vs_areas space) = Some base" "vw_areas w a = Some x"
    "pages_wf (vw_pages w) (vs_pml4 space) R (k + 3 * unat count)" "vpn (base + offset) + unat count < 2 ^ 36"
  obtains pages where "vs_page_in s a offset phys count w = Inr (w\<lparr>vw_pages := pages\<rparr>)" "pages_wf pages (vs_pml4 space) R k"
    "\<forall>j < 2 ^ 36. mapping pages (vs_pml4 space) j = (if vpn (base + offset) \<le> j \<and> j < vpn (base + offset) + unat count
       then (phys + of_nat (j - vpn (base + offset)) * frame_size) OR page_in_flags (vs_kernel space) (va_flags x) else mapping (vw_pages w) (vs_pml4 space) j)"
    "\<forall>q \<in> R. pg_mem pages q = pg_mem (vw_pages w) q"
proof -
  let ?it = "it_new (base + offset) (vs_pml4 space)" and ?v = "vpn (base + offset)"
  have it: "it_ok (vs_pml4 space) ?it" "it_index ?it = path_of ?v" by (simp_all add: it_new_ok it_new_index)
  from page_in_loop_ok [OF assms(4) it assms(5), of phys "page_in_flags (vs_kernel space) (va_flags x)"]
  obtain s' where f: "page_in_loop (unat count) phys (page_in_flags (vs_kernel space) (va_flags x)) ?it (vw_pages w) = Inr s'" "pages_wf s' (vs_pml4 space) R k"
    "\<forall>j < 2 ^ 36. mapping s' (vs_pml4 space) j = (if ?v \<le> j \<and> j < ?v + unat count then (phys + of_nat (j - ?v) * frame_size) OR page_in_flags (vs_kernel space) (va_flags x)
       else mapping (vw_pages w) (vs_pml4 space) j)" "\<forall>q \<in> R. pg_mem s' q = pg_mem (vw_pages w) q" by blast
  then have "vs_page_in s a offset phys count w = Inr (w\<lparr>vw_pages := s'\<rparr>)" using assms(1-3) by (simp add: vs_page_in_def space_at_def area_at_def)
  then show thesis using f(2-4) by (rule that)
qed

section \<open>A small memory\<close>

text \<open>A memory with empty page tables and 128 free frames, with one space and one area of four pages.\<close>

definition ex_root :: u64 where "ex_root = 0xffffc00000001000"

definition ex_pages :: pages where
  "ex_pages = \<lparr>pg_mem = \<lambda>_. replicate 512 0, pg_cache = 0, pg_blocks = [fb_example]\<rparr>"

definition ex_world :: vm_world where
  "ex_world = \<lparr>vw_areas = [7 \<mapsto> va_new Open 0x4000 1], vw_spaces = [1 \<mapsto> \<lparr>vs_kernel = False, vs_pml4 = ex_root, vs_areas = [(0x1000000, 7)]\<rparr>], vw_pages = ex_pages\<rparr>"

lemma ex_walk: "valid_path xs \<Longrightarrow> walk (\<lambda>_. replicate 512 0) root xs = (if xs = [] then Some root else None)"
  by (cases xs) (auto simp: valid_path_def)

lemma ex_pages_wf:
  assumes "ex_root \<notin> R" "R \<inter> free_pages [fb_example] = {}"
  shows "pages_wf ex_pages ex_root R 128"
proof -
  have t: "tables (pg_mem ex_pages) ex_root = {ex_root}" by (auto simp: tables_def ex_pages_def ex_walk split: if_splits intro: exI [of _ "[]"])
  have p: "page_like ex_root" unfolding page_like_def table_of_def ex_root_def linear_offset_def by simp
  then have tr: "tree_ok (pg_mem ex_pages) ex_root" by (auto simp: tree_ok_def ex_pages_def ex_walk split: if_splits)
  have f: "ex_root \<noteq> frame_addr fb_example f + linear_offset" if "f \<in> fb_free fb_example" for f
  proof
    assume e: "ex_root = frame_addr fb_example f + linear_offset"
    have w: "fb_wf fb_example" using fb_example_wf by (simp add: fa_wf_def)
    have "ex_root - linear_offset = frame_addr fb_example f" unfolding e by simp
    then have "unat (frame_addr fb_example f) = 0x1000" by (simp add: ex_root_def linear_offset_def flip: \<open>ex_root - linear_offset = frame_addr fb_example f\<close>)
    moreover have "unat (frame_addr fb_example f) = 0x100000 + f * 4096" using unat_frame_addr [OF w fb_free_count [OF w that]] by (simp add: fb_example_def)
    ultimately show False by simp
  qed
  have "cache_ok ex_pages ({ex_root} \<union> R) []"
    using fb_example_wf f assms(2) by (auto simp: cache_ok_def ex_pages_def blocks_linear_def sized_def free_pages_def fb_example_def [THEN arg_cong [of _ _ fb_base]]
        fb_example_def [THEN arg_cong [of _ _ fb_count]])
  then show ?thesis using t tr assms(1) fb_example_left by (auto simp: pages_wf_def ex_pages_def)
qed

section \<open>Properties\<close>

text \<open>C7. Mapping pages: \<open>page_in\<close> makes each page of the range translate to its frame, with the flags of the area and of the kind of space,
  creating the tables it needs; every other page of the space translates as before, and pages that are no tables keep their contents.
  Only for a range that ends at the end of the address space does it fail: the iterator is incremented past
  the last page, which trips an assertion.\<close>

theorem vm_page_in_maps:
  assumes "vw_spaces w s = Some space" "find_vma a (vs_areas space) = Some base" "vw_areas w a = Some x"
    "pages_wf (vw_pages w) (vs_pml4 space) R (k + 3 * unat count)" "vpn (base + offset) + unat count \<le> 2 ^ 36"
  shows "if vpn (base + offset) + unat count = 2 ^ 36 then vs_page_in s a offset phys count w = Inl Assert_failed
     else \<exists>w'. vs_page_in s a offset phys count w = Inr w' \<and> pages_wf (vw_pages w') (vs_pml4 space) R k \<and>
       (\<forall>j < 2 ^ 36. mapping (vw_pages w') (vs_pml4 space) j =
          (if vpn (base + offset) \<le> j \<and> j < vpn (base + offset) + unat count
           then (phys + of_nat (j - vpn (base + offset)) * frame_size) OR page_in_flags (vs_kernel space) (va_flags x)
           else mapping (vw_pages w) (vs_pml4 space) j)) \<and>
       (\<forall>q \<in> R. pg_mem (vw_pages w') q = pg_mem (vw_pages w) q)"
proof -
  let ?it = "it_new (base + offset) (vs_pml4 space)" and ?v = "vpn (base + offset)"
  have it: "it_ok (vs_pml4 space) ?it" "it_index ?it = path_of ?v" by (simp_all add: it_new_ok it_new_index)
  have v: "?v < 2 ^ 36" by (simp add: vpn_def)
  show ?thesis
  proof (cases "?v + unat count = 2 ^ 36")
    case True
    then have "0 < unat count" using v by simp
    then show ?thesis using page_in_loop_last [OF assms(4) it True] assms(1-3) True by (simp add: vs_page_in_def space_at_def area_at_def)
  next
    case False
    then have "?v + unat count < 2 ^ 36" using assms(5) by simp
    then obtain pages where p: "vs_page_in s a offset phys count w = Inr (w\<lparr>vw_pages := pages\<rparr>)" "pages_wf pages (vs_pml4 space) R k"
      "\<forall>j < 2 ^ 36. mapping pages (vs_pml4 space) j = (if ?v \<le> j \<and> j < ?v + unat count then (phys + of_nat (j - ?v) * frame_size) OR page_in_flags (vs_kernel space) (va_flags x)
         else mapping (vw_pages w) (vs_pml4 space) j)" "\<forall>q \<in> R. pg_mem pages q = pg_mem (vw_pages w) q" by (rule vs_page_in_ok [OF assms(1-4)])
    then show ?thesis unfolding if_not_P [OF False] by (intro exI [of _ "w\<lparr>vw_pages := pages\<rparr>"]) simp
  qed
qed

lemma ex_mapping: "mapping ex_pages ex_root v = 0"
  by (simp add: mapping_def pte_def ex_pages_def path_of_def)

lemma ex_space: "vw_spaces ex_world 1 = Some \<lparr>vs_kernel = False, vs_pml4 = ex_root, vs_areas = [(0x1000000, 7)]\<rparr>" "vw_areas ex_world 7 = Some (va_new Open 0x4000 1)"
    "vw_pages ex_world = ex_pages"
  by (simp_all add: ex_world_def)

theorem vm_page_in_maps_witness:
  "\<exists>w'. vs_page_in 1 7 0x1000 0x200000 2 ex_world = Inr w' \<and> mapping (vw_pages w') ex_root 0x1001 = 0x200007 \<and>
     mapping (vw_pages w') ex_root 0x1002 = 0x201007 \<and> mapping (vw_pages w') ex_root 0x1003 = 0"
proof -
  have wf: "pages_wf ex_pages ex_root {} (122 + 3 * unat (2 :: u64))" using ex_pages_wf [of "{}"] by simp
  have v: "vpn 0x1001000 = 0x1001" by (simp add: vpn_def)
  have fl: "page_in_flags False 1 = 7" by (simp add: page_in_flags_def page_present_def page_user_def page_write_def vm_write_def vm_write_combine_def bit_1_iff)
  obtain w' where w: "vs_page_in 1 7 0x1000 0x200000 2 ex_world = Inr w'"
      "\<forall>j < 2 ^ 36. mapping (vw_pages w') ex_root j = (if 0x1001 \<le> j \<and> j < 0x1003 then (0x200000 + of_nat (j - 0x1001) * frame_size) OR 7 else 0)"
    using vm_page_in_maps [OF ex_space(1) _ ex_space(2), of "0x1000000" "{}" 122 2 "0x1000" "0x200000"] wf
    by (auto simp: find_vma_def ex_space v va_new_def fl ex_mapping)
  then show ?thesis using w(2) [rule_format, of "0x1001"] w(2) [rule_format, of "0x1002"] w(2) [rule_format, of "0x1003"] by auto
qed

lemma clear_loop_last:
  assumes "pages_wf s root R (k + 3 * n)" "it_ok root it" "it_index it = path_of v" "v + n = 2 ^ 36" "0 < n"
  shows "clear_loop n False fs fc it s = Inl Assert_failed"
  using assms
proof (induction n arbitrary: fs fc it s v)
  case (Suc n)
  have "pages_wf s root R ((k + 3 * n) + 3)" using Suc.prems(1) by (simp add: algebra_simps)
  then obtain p it1 s1 where r: "entry_ref 3 it s = Inr (p, it1, s1)" "it_index it1 = path_of v" "it_ok root it1" "pages_wf s1 root R (k + 3 * n)"
    "pg_read (pg_mem s1) p (path_of v ! 3) = Inr (mapping s root v)"
    "\<And>e. \<exists>s2. pg_write p (path_of v ! 3) e s1 = Inr s2 \<and> pages_wf s2 root R (k + 3 * n) \<and> (\<forall>j < 2 ^ 36. mapping s2 root j = (if j = v then e else mapping s root j)) \<and>
       (\<forall>q \<in> R. pg_mem s2 q = pg_mem s q)"
    by (rule step_entry [OF _ Suc.prems(2,3)]) (use Suc.prems(4) in auto)
  obtain s2 where w: "pg_write p (path_of v ! 3) 0 s1 = Inr s2" "pages_wf s2 root R (k + 3 * n)" using r(6) by blast
  let ?it = "it1\<lparr>it_index := path_of (Suc v)\<rparr>"
  have it: "it_ok root ?it" "it_index ?it = path_of (Suc v)" using r(3) by (simp_all add: it_ok_def)
  show ?case
  proof (cases "n = 0")
    case True
    then show ?thesis using it_next_ok [OF r(3,2)] Suc.prems(4) r(1,2,5) w(1) by (simp add: Let_def free_run_def)
  next
    case False
    then have nx: "it_next 4 it1 = Inr ?it" using it_next_ok [OF r(3,2)] Suc.prems(4) by simp
    have "clear_loop n False fs fc ?it s1 = Inl Assert_failed" "clear_loop n False fs fc ?it s2 = Inl Assert_failed" for fs fc
      using Suc.IH [OF r(4) it] Suc.IH [OF w(2) it] Suc.prems(4) False by simp_all
    then show ?thesis using r(1,2,5) w(1) nx by (simp add: Let_def free_run_def)
  qed
qed simp

text \<open>C8. Unmapping pages without freeing them, as the removal of an area does: \<open>clear\<close> takes the translation of every present page of the range away and
  leaves the entries that were not present, as well as every other page of the space, as they are. For a range that ends at the end of the address
  space it fails like \<open>page_in\<close>.\<close>

theorem vm_clear_unmaps:
  assumes "vw_spaces w s = Some space" "find_vma a (vs_areas space) = Some base"
    "pages_wf (vw_pages w) (vs_pml4 space) R (k + 3 * unat count)" "vpn (base + offset) + unat count \<le> 2 ^ 36"
  shows "if vpn (base + offset) + unat count = 2 ^ 36 then vs_clear s a offset count False w = Inl Assert_failed
     else \<exists>w'. vs_clear s a offset count False w = Inr w' \<and> pages_wf (vw_pages w') (vs_pml4 space) R k \<and>
     (\<forall>j < 2 ^ 36. mapping (vw_pages w') (vs_pml4 space) j =
        (if vpn (base + offset) \<le> j \<and> j < vpn (base + offset) + unat count \<and> present (mapping (vw_pages w) (vs_pml4 space) j) then 0
         else mapping (vw_pages w) (vs_pml4 space) j)) \<and>
     (\<forall>q \<in> R. pg_mem (vw_pages w') q = pg_mem (vw_pages w) q)"
proof -
  let ?it = "it_new (base + offset) (vs_pml4 space)" and ?v = "vpn (base + offset)"
  have it: "it_ok (vs_pml4 space) ?it" "it_index ?it = path_of ?v" by (simp_all add: it_new_ok it_new_index)
  have v: "?v < 2 ^ 36" by (simp add: vpn_def)
  show ?thesis
  proof (cases "?v + unat count = 2 ^ 36")
    case True
    then have "0 < unat count" using v by simp
    then show ?thesis using clear_loop_last [OF assms(3) it True] assms(1,2) True by (simp add: vs_clear_def space_at_def)
  next
    case False
    then have "?v + unat count < 2 ^ 36" using assms(4) by simp
    from clear_loop_ok [OF assms(3) it this, of 0 0] obtain fs fc s' where f: "clear_loop (unat count) False 0 0 ?it (vw_pages w) = Inr (fs, fc, s')" "pages_wf s' (vs_pml4 space) R k"
       "\<forall>j < 2 ^ 36. mapping s' (vs_pml4 space) j = (if ?v \<le> j \<and> j < ?v + unat count \<and> present (mapping (vw_pages w) (vs_pml4 space) j) then 0
           else mapping (vw_pages w) (vs_pml4 space) j)" "\<forall>q \<in> R. pg_mem s' q = pg_mem (vw_pages w) q" by blast
    then have "vs_clear s a offset count False w = Inr (w\<lparr>vw_pages := s'\<rparr>)" using assms(1,2) by (simp add: vs_clear_def space_at_def free_run_def)
    then show ?thesis unfolding if_not_P [OF False] using f(2-4) by (intro exI [of _ "w\<lparr>vw_pages := s'\<rparr>"]) simp
  qed
qed

lemma ex_page_in:
  obtains pages where "vs_page_in 1 7 0x1000 0x200000 2 ex_world = Inr (ex_world\<lparr>vw_pages := pages\<rparr>)" "pages_wf pages ex_root {} 122"
    "mapping pages ex_root 0x1001 = 0x200007" "mapping pages ex_root 0x1002 = 0x201007"
proof -
  have wf: "pages_wf ex_pages ex_root {} (122 + 3 * unat (2 :: u64))" using ex_pages_wf [of "{}"] by simp
  have v: "vpn 0x1001000 = 0x1001" by (simp add: vpn_def)
  have fl: "page_in_flags False 1 = 7" by (simp add: page_in_flags_def page_present_def page_user_def page_write_def vm_write_def vm_write_combine_def bit_1_iff)
  show thesis
  proof (rule vs_page_in_ok [OF ex_space(1) _ ex_space(2), of "0x1000000" "{}" 122 2 "0x1000" "0x200000"], goal_cases)
    case (4 pages)
    then have m: "\<forall>j < 2 ^ 36. mapping pages ex_root j = (if 0x1001 \<le> j \<and> j < 0x1003 then (0x200000 + of_nat (j - 0x1001) * frame_size) OR 7 else 0)"
      by (simp add: v va_new_def fl ex_space ex_mapping)
    show ?case using 4(1,2) m [rule_format, of "0x1001"] m [rule_format, of "0x1002"] by (intro that) simp_all
  qed (use wf in \<open>simp_all add: find_vma_def ex_space v\<close>)
qed

theorem vm_clear_unmaps_witness:
  "\<exists>w1 w2. vs_page_in 1 7 0x1000 0x200000 2 ex_world = Inr w1 \<and> vs_clear 1 7 0x1000 1 False w1 = Inr w2 \<and>
     mapping (vw_pages w2) ex_root 0x1001 = 0 \<and> mapping (vw_pages w2) ex_root 0x1002 = 0x201007"
proof -
  obtain pages where p: "vs_page_in 1 7 0x1000 0x200000 2 ex_world = Inr (ex_world\<lparr>vw_pages := pages\<rparr>)" "pages_wf pages ex_root {} 122"
    "mapping pages ex_root 0x1001 = 0x200007" "mapping pages ex_root 0x1002 = 0x201007" by (rule ex_page_in)
  let ?w = "ex_world\<lparr>vw_pages := pages\<rparr>"
  have v: "vpn 0x1001000 = 0x1001" by (simp add: vpn_def)
  have "pages_wf pages ex_root {} (119 + 3 * unat (1 :: u64))" using p(2) by simp
  then obtain w2 where c: "vs_clear 1 7 0x1000 1 False ?w = Inr w2"
     "\<forall>j < 2 ^ 36. mapping (vw_pages w2) ex_root j = (if 0x1001 \<le> j \<and> j < 0x1002 \<and> present (mapping pages ex_root j) then 0 else mapping pages ex_root j)"
    using vm_clear_unmaps [of ?w 1 _ 7 "0x1000000" "{}" 119 1 "0x1000"] ex_space(1) by (auto simp: find_vma_def v cong: if_cong)
  have "present (mapping pages ex_root 0x1001)" by (simp add: p(3) present_def page_present_def)
  then show ?thesis using p c(2) [rule_format, of "0x1001"] c(2) [rule_format, of "0x1002"] c(1) by auto
qed

section \<open>The areas of a space\<close>

definition area_size :: "vm_world \<Rightarrow> nat \<Rightarrow> nat" where
  "area_size w a = (case vw_areas w a of None \<Rightarrow> 0 | Some x \<Rightarrow> unat (va_size x))"

definition area_end :: "vm_world \<Rightarrow> u64 \<times> nat \<Rightarrow> nat" where
  "area_end w x = unat (fst x) + area_size w (snd x)"

text \<open>The areas exist, are in the order of their addresses and do not overlap.\<close>

fun areas_ok :: "vm_world \<Rightarrow> (u64 \<times> nat) list \<Rightarrow> bool" where
  "areas_ok w [] \<longleftrightarrow> True"
| "areas_ok w (x # as) \<longleftrightarrow> vw_areas w (snd x) \<noteq> None \<and> area_end w x < 2 ^ 64 \<and> (\<forall>y \<in> set as. area_end w x \<le> unat (fst y)) \<and> areas_ok w as"

lemma areas_ok_append:
  "areas_ok w (xs @ ys) \<longleftrightarrow> areas_ok w xs \<and> areas_ok w ys \<and> (\<forall>x \<in> set xs. \<forall>y \<in> set ys. area_end w x \<le> unat (fst y))"
  by (induction xs) auto

lemma areas_ok_cong: "(\<And>x. x \<in> set as \<Longrightarrow> area_size w' (snd x) = area_size w (snd x) \<and> (vw_areas w' (snd x) = None \<longleftrightarrow> vw_areas w (snd x) = None)) \<Longrightarrow> areas_ok w' as = areas_ok w as"
  by (induction as) (auto simp: area_end_def)

lemma area_atE:
  assumes "vw_areas w a \<noteq> None"
  obtains x where "area_at a w = Inr x" "vw_areas w a = Some x" "unat (va_size x) = area_size w a"
  using assms by (auto simp: area_at_def area_size_def)

lemma unat_area_end:
  assumes "vw_areas w a = Some x" "area_end w (b, a) < 2 ^ 64"
  shows "unat (b + va_size x) = area_end w (b, a)"
  using assms by (simp add: area_end_def area_size_def unat_add_no_wrap)

lemma add_scan_ok:
  assumes "areas_ok w as" "\<forall>x \<in> set as. area_end w x + unat sz < 2 ^ 64" "unat base + unat sz < 2 ^ 64"
  shows "(add_scan w as base sz exact = Inr None \<and> exact \<and> (\<exists>x \<in> set as. unat base < area_end w x \<and> unat (fst x) < unat base + unat sz)) \<or>
    (\<exists>r xs ys. add_scan w as base sz exact = Inr (Some r) \<and> unat base \<le> unat r \<and> (exact \<longrightarrow> r = base) \<and> unat r + unat sz < 2 ^ 64 \<and> as = xs @ ys \<and>
       (\<forall>x \<in> set xs. area_end w x \<le> unat r) \<and> (\<forall>y \<in> set ys. unat r + unat sz \<le> unat (fst y)))"
  using assms
proof (induction as arbitrary: base)
  case (Cons x as)
  obtain b a where x: "x = (b, a)" by (cases x)
  obtain cur where c: "area_at a w = Inr cur" "vw_areas w a = Some cur" using Cons.prems(1) x by (auto simp: area_at_def)
  let ?e = "b + va_size cur"
  have e: "unat ?e = area_end w (b, a)" using Cons.prems(1) x c(2) by (intro unat_area_end) auto
  have ends: "\<forall>y \<in> set as. area_end w (b, a) \<le> unat (fst y)" "areas_ok w as" "\<forall>x \<in> set as. area_end w x + unat sz < 2 ^ 64" "unat ?e + unat sz < 2 ^ 64"
    using Cons.prems(1,2) x e by auto
  have bs: "unat (base + sz) = unat base + unat sz" using Cons.prems(3) by (simp add: unat_add_no_wrap)
  have step: "add_scan w (x # as) base sz exact = (if base \<ge> ?e then add_scan w as base sz exact else if base + sz \<le> b then Inr (Some base)
      else if exact then Inr None else add_scan w as ?e sz exact)" by (simp add: x c(1) Let_def)
  show ?case
  proof (cases "base \<ge> ?e")
    case True
    then have "area_end w x \<le> unat base" using e x by (simp add: word_le_nat_alt)
    from Cons.IH [OF ends(2,3) Cons.prems(3)] show ?thesis
    proof
      assume "add_scan w as base sz exact = Inr None \<and> exact \<and> (\<exists>x \<in> set as. unat base < area_end w x \<and> unat (fst x) < unat base + unat sz)"
      then show ?thesis using step True by auto
    next
      assume "\<exists>r xs ys. add_scan w as base sz exact = Inr (Some r) \<and> unat base \<le> unat r \<and> (exact \<longrightarrow> r = base) \<and> unat r + unat sz < 2 ^ 64 \<and> as = xs @ ys \<and>
         (\<forall>x \<in> set xs. area_end w x \<le> unat r) \<and> (\<forall>y \<in> set ys. unat r + unat sz \<le> unat (fst y))"
      then obtain r xs ys where r: "add_scan w as base sz exact = Inr (Some r)" "unat base \<le> unat r" "exact \<longrightarrow> r = base" "unat r + unat sz < 2 ^ 64" "as = xs @ ys"
         "\<forall>x \<in> set xs. area_end w x \<le> unat r" "\<forall>y \<in> set ys. unat r + unat sz \<le> unat (fst y)" by blast
      then have "\<forall>z \<in> set (x # xs). area_end w z \<le> unat r" using \<open>area_end w x \<le> unat base\<close> by auto
      then show ?thesis using step True r by (intro disjI2 exI [of _ r] exI [of _ "x # xs"] exI [of _ ys]) auto
    qed
  next
    case False
    then have lt: "unat base < area_end w x" using e x by (simp add: word_le_nat_alt)
    consider "base + sz \<le> b" | "\<not> base + sz \<le> b" "exact" | "\<not> base + sz \<le> b" "\<not> exact" by blast
    then show ?thesis
    proof cases
      case 1
      then have "unat base + unat sz \<le> unat (fst x)" using bs x by (simp add: word_le_nat_alt)
      moreover have "unat (fst x) \<le> area_end w x" by (simp add: area_end_def)
      ultimately have "\<forall>y \<in> set (x # as). unat base + unat sz \<le> unat (fst y)" using ends(1) x by auto
      then show ?thesis using step False 1 Cons.prems(3) by (intro disjI2 exI [of _ base] exI [of _ "[]"] exI [of _ "x # as"]) simp
    next
      case 2
      then have "unat (fst x) < unat base + unat sz" using bs x by (simp add: word_le_nat_alt)
      then show ?thesis using step False 2 lt by auto
    next
      case 3
      from Cons.IH [OF ends(2,3,4)] 3(2) obtain r xs ys where r: "add_scan w as ?e sz exact = Inr (Some r)" "unat ?e \<le> unat r" "unat r + unat sz < 2 ^ 64" "as = xs @ ys"
         "\<forall>x \<in> set xs. area_end w x \<le> unat r" "\<forall>y \<in> set ys. unat r + unat sz \<le> unat (fst y)" by blast
      have "\<forall>z \<in> set (x # xs). area_end w z \<le> unat r" "unat base \<le> unat r" using r(2,5) e lt x by auto
      then show ?thesis using step False 3 r by (intro disjI2 exI [of _ r] exI [of _ "x # xs"] exI [of _ ys]) auto
    qed
  qed
qed auto

lemma vs_get_loop_hit:
  assumes "areas_ok w (xs @ (r, a) # ys)" "r \<le> addr" "unat addr < area_end w (r, a)"
  shows "vs_get_loop w (xs @ (r, a) # ys) addr = Inr (Some (r, a))"
  using assms
proof (induction xs)
  case Nil
  obtain x where x: "area_at a w = Inr x" "vw_areas w a = Some x" using Nil(1) by (auto simp: area_at_def)
  have "unat (r + va_size x) = area_end w (r, a)" using Nil(1) x(2) by (intro unat_area_end) auto
  then show ?case using x Nil(2,3) by (simp add: word_less_nat_alt)
next
  case (Cons y xs)
  obtain b c where y: "y = (b, c)" by (cases y)
  obtain z where z: "area_at c w = Inr z" "vw_areas w c = Some z" using Cons.prems(1) y by (auto simp: area_at_def)
  have "unat (b + va_size z) = area_end w y" using Cons.prems(1) z(2) y unat_area_end [of w c z b] by simp
  moreover have "area_end w y \<le> unat r" using Cons.prems(1) by simp
  ultimately have "\<not> addr < b + va_size z" using Cons.prems(2) by (simp add: word_less_nat_alt word_le_nat_alt)
  then show ?case using Cons y z(1) by simp
qed

lemma area_insert_between:
  assumes "\<forall>x \<in> set xs. fst x \<le> r" "\<forall>y \<in> set ys. r < fst y"
  shows "area_insert r a (xs @ ys) = xs @ (r, a) # ys"
proof -
  have "takeWhile (\<lambda>x. fst x \<le> r) ys = []" "dropWhile (\<lambda>x. fst x \<le> r) ys = ys" using assms(2) by (cases ys; auto)+
  then show ?thesis using assms(1) by (simp add: area_insert_def)
qed

text \<open>C9. As long as no address wraps, adding an area that is not empty to an address space keeps its areas in order and apart from each other: the area
  goes to the requested address or, when that is taken, to the end of an area above it where it fits; with an exact address it is refused when it would
  overlap. Afterwards every address of the new area belongs to it.\<close>

theorem vm_add_disjoint:
  assumes w: "vw_spaces w s = Some space" "vw_areas w a = Some x" "areas_ok w (vs_areas space)" and sz: "va_size x \<noteq> 0"
    and start: "start = (if base = 0 then min_auto_address else base)" "unat start + unat (va_size x) < 2 ^ 64"
    and room: "\<forall>y \<in> set (vs_areas space). area_end w y + unat (va_size x) < 2 ^ 64"
  shows "\<exists>r w' space'. vs_add s base a flags w = Inr (r, w') \<and> vw_spaces w' s = Some space' \<and> areas_ok w' (vs_areas space') \<and>
     (if r = 0 then w' = w \<and> bit flags vm_exact \<and> (\<exists>y \<in> set (vs_areas space). unat start < area_end w y \<and> unat (fst y) < unat start + unat (va_size x))
      else set (vs_areas space') = insert (r, a) (set (vs_areas space)) \<and> start \<le> r \<and> (bit flags vm_exact \<longrightarrow> r = start) \<and>
        (\<forall>addr. r \<le> addr \<and> unat addr < unat r + unat (va_size x) \<longrightarrow> vs_get s addr w' = Inr (Some (r, a))))"
proof -
  let ?as = "vs_areas space" and ?exact = "bit flags vm_exact"
  have s0: "start \<noteq> 0" by (simp add: start(1) min_auto_address_def)
  have unfold: "vs_add s base a flags w = bindE (add_scan w ?as start (va_size x) ?exact) (\<lambda>r. case r of None \<Rightarrow> Inr (0, w) | Some base \<Rightarrow>
      Inr (base, w\<lparr>vw_spaces := (vw_spaces w)(s \<mapsto> space\<lparr>vs_areas := area_insert base a ?as\<rparr>), vw_areas := (vw_areas w)(a \<mapsto> (snd (va_add_to s x))\<lparr>va_handles := va_handles (snd (va_add_to s x)) + 1\<rparr>)\<rparr>))"
    using w(1,2) by (simp add: vs_add_def space_at_def area_at_def start(1) Let_def split_beta)
  from add_scan_ok [OF w(3) room start(2), of ?exact] show ?thesis
  proof
    assume c: "add_scan w ?as start (va_size x) ?exact = Inr None \<and> ?exact \<and> (\<exists>y \<in> set ?as. unat start < area_end w y \<and> unat (fst y) < unat start + unat (va_size x))"
    then have "vs_add s base a flags w = Inr (0, w)" unfolding unfold conjunct1 [OF c] by simp
    then show ?thesis using c w(1,3) by (intro exI [of _ 0] exI [of _ w] exI [of _ space]) simp
  next
    assume "\<exists>r xs ys. add_scan w ?as start (va_size x) ?exact = Inr (Some r) \<and> unat start \<le> unat r \<and> (?exact \<longrightarrow> r = start) \<and> unat r + unat (va_size x) < 2 ^ 64 \<and>
       ?as = xs @ ys \<and> (\<forall>x \<in> set xs. area_end w x \<le> unat r) \<and> (\<forall>y \<in> set ys. unat r + unat (va_size x) \<le> unat (fst y))"
    then obtain r xs ys where r: "add_scan w ?as start (va_size x) ?exact = Inr (Some r)" "unat start \<le> unat r" "?exact \<longrightarrow> r = start" "unat r + unat (va_size x) < 2 ^ 64"
       "?as = xs @ ys" "\<forall>x \<in> set xs. area_end w x \<le> unat r" "\<forall>y \<in> set ys. unat r + unat (va_size x) \<le> unat (fst y)" by blast
    let ?x = "(snd (va_add_to s x))\<lparr>va_handles := va_handles (snd (va_add_to s x)) + 1\<rparr>"
    let ?space = "space\<lparr>vs_areas := xs @ (r, a) # ys\<rparr>"
    let ?w = "w\<lparr>vw_spaces := (vw_spaces w)(s \<mapsto> ?space), vw_areas := (vw_areas w)(a \<mapsto> ?x)\<rparr>"
    have z: "0 < unat (va_size x)" using sz by (simp add: neq0_conv [symmetric])
    have "\<forall>y \<in> set xs. fst y \<le> r" using r(6) by (force simp: area_end_def word_le_nat_alt)
    moreover have "\<forall>y \<in> set ys. r < fst y" using r(7) z by (force simp: word_less_nat_alt)
    ultimately have ins: "area_insert r a ?as = xs @ (r, a) # ys" unfolding r(5) by (rule area_insert_between)
    have size: "va_size ?x = va_size x" by (simp add: va_add_to_def untracked_add_to_def area_add_to_def)
    have same: "area_size ?w c = area_size w c" "vw_areas ?w c = None \<longleftrightarrow> vw_areas w c = None" for c using w(2) size by (auto simp: area_size_def)
    have ends: "area_end ?w y = area_end w y" for y by (simp add: area_end_def same(1))
    have new: "area_end w (r, a) = unat r + unat (va_size x)" using w(2) by (simp add: area_end_def area_size_def)
    have "areas_ok w (xs @ ys)" using w(3) r(5) by simp
    then have ok: "areas_ok w (xs @ (r, a) # ys)" using r(4,6,7) new w(2) by (auto simp: areas_ok_append)
    have ok': "areas_ok ?w (xs @ (r, a) # ys)" using ok areas_ok_cong [of "xs @ (r, a) # ys" ?w w] same by blast
    have get: "vs_get s addr ?w = Inr (Some (r, a))" if "r \<le> addr" "unat addr < unat r + unat (va_size x)" for addr
      using vs_get_loop_hit [OF ok' that(1)] that(2) new ends by (simp add: vs_get_def space_at_def)
    have "vs_add s base a flags w = Inr (r, ?w)" using unfold r(1) ins by simp
    moreover have "r \<noteq> 0" "start \<le> r" using r(2) s0 by (auto simp: word_le_nat_alt)
    ultimately show ?thesis using ok' get r(3,5) by (intro exI [of _ r] exI [of _ ?w] exI [of _ ?space]) auto
  qed
qed

theorem vm_add_disjoint_witness:
  "\<exists>w'. vs_add 1 0 8 0 (ex_world\<lparr>vw_areas := (vw_areas ex_world)(8 \<mapsto> va_new Open 0x1000 0)\<rparr>) = Inr (0x1004000, w') \<and>
     vs_get 1 0x1004fff w' = Inr (Some (0x1004000, 8))"
proof -
  let ?w = "ex_world\<lparr>vw_areas := (vw_areas ex_world)(8 \<mapsto> va_new Open 0x1000 0)\<rparr>"
  let ?s = "\<lparr>vs_kernel = False, vs_pml4 = ex_root, vs_areas = [(0x1000000, 7)]\<rparr>"
  have sz: "va_size (va_new Open 0x1000 0) = 0x1000" "va_size (va_new Open 0x4000 1) = 0x4000" by (simp_all add: va_new_def page_count_def)
  have e: "area_end ?w (0x1000000, 7) = 0x1004000" using ex_space(2) sz(2) by (simp add: area_end_def area_size_def)
  have r: "\<exists>w'. vs_add 1 0 8 0 ?w = Inr (0x1004000, w')"
    using ex_space sz by (simp add: vs_add_def space_at_def area_at_def min_auto_address_def Let_def split_beta)
  have "\<exists>r w' space'. vs_add 1 0 8 0 ?w = Inr (r, w') \<and> vw_spaces w' 1 = Some space' \<and> areas_ok w' (vs_areas space') \<and>
     (if r = 0 then w' = ?w \<and> bit (0 :: u32) vm_exact \<and> (\<exists>y \<in> set (vs_areas ?s). unat (0x1000000 :: u64) < area_end ?w y \<and> unat (fst y) < unat (0x1000000 :: u64) + unat (va_size (va_new Open 0x1000 0)))
      else set (vs_areas space') = insert (r, 8) (set (vs_areas ?s)) \<and> 0x1000000 \<le> r \<and> (bit (0 :: u32) vm_exact \<longrightarrow> r = 0x1000000) \<and>
        (\<forall>addr. r \<le> addr \<and> unat addr < unat r + unat (va_size (va_new Open 0x1000 0)) \<longrightarrow> vs_get 1 addr w' = Inr (Some (r, 8))))"
    by (rule vm_add_disjoint) (use ex_space sz e in \<open>simp_all add: min_auto_address_def\<close>)
  with r obtain w' where w': "vs_add 1 0 8 0 ?w = Inr (0x1004000, w')"
     "\<forall>addr. 0x1004000 \<le> addr \<and> unat addr < unat (0x1004000 :: u64) + unat (va_size (va_new Open 0x1000 0)) \<longrightarrow> vs_get 1 addr w' = Inr (Some (0x1004000, 8))" by auto
  then show ?thesis using w'(2) [rule_format, of "0x1004fff"] sz by auto
qed





text \<open>The loop of \<open>can_resize\<close> does not look at the last area.\<close>

lemma resize_scan_skips: "(\<And>j. j < n \<Longrightarrow> snd (as ! (i - 1 + j)) \<noteq> a) \<Longrightarrow> 0 < i \<Longrightarrow> resize_scan n i as a sz base = Some base"
proof (induction n arbitrary: i)
  case (Suc n)
  have "snd (as ! (i - 1)) \<noteq> a" using Suc.prems(1) [of 0] by simp
  moreover have "resize_scan n (i + 1) as a sz base = Some base" using Suc.prems(1) [of "Suc _"] Suc.prems(2) by (intro Suc.IH) auto
  ultimately show ?case by simp
qed simp

text \<open>C12. An area can be resized into its neighbour: when only one area lies above it in its space, the check before a resize passes for any size that fits into the
  user half of the address space, because the loop of the check leaves out the last pair of areas. So the areas of the space overlap afterwards.\<close>

theorem vm_resize_overlaps:
  assumes "vw_spaces w s = Some space" "vs_areas space = xs @ [(b, a), (c, d)]" "\<forall>y \<in> set xs. snd y \<noteq> a" "\<not> vs_kernel space"
    "vw_areas w a = Some x" "va_kind x = Open" "va_spaces x = [s]" "sz \<le> 0x7fffffffffff" "unat c < unat b + unat sz"
  shows "\<exists>w'. va_resize a sz w = Inr (sz, w') \<and> vw_spaces w' s = Some space \<and> \<not> areas_ok w' (vs_areas space)"
proof -
  let ?w = "w\<lparr>vw_areas := (vw_areas w)(a \<mapsto> x\<lparr>va_size := sz\<rparr>)\<rparr>"
  have "resize_scan (length xs) 1 (vs_areas space) a sz 0 = Some 0"
    by (rule resize_scan_skips) (use assms(2,3) in \<open>auto simp: nth_append\<close>)
  then have "vs_can_resize space a sz = Inr True" using assms(2,4,8) by (simp add: vs_can_resize_def)
  then have "va_resize a sz w = Inr (sz, ?w)" using assms(1,5-7) by (simp add: va_resize_def area_at_def space_at_def)
  moreover have "\<not> areas_ok ?w (vs_areas space)" using assms(2,9) by (auto simp: areas_ok_append area_end_def area_size_def)
  ultimately show ?thesis using assms(1) by auto
qed

theorem vm_resize_overlaps_witness:
  "\<exists>w'. va_resize 7 0x100000 (ex_world\<lparr>vw_areas := [7 \<mapsto> (va_new Open 0x4000 1)\<lparr>va_spaces := [1]\<rparr>, 8 \<mapsto> (va_new Open 0x1000 0)\<lparr>va_spaces := [1]\<rparr>],
       vw_spaces := [1 \<mapsto> \<lparr>vs_kernel = False, vs_pml4 = ex_root, vs_areas = [(0x1000000, 7), (0x1004000, 8)]\<rparr>]\<rparr>) = Inr (0x100000, w') \<and>
     \<not> areas_ok w' [(0x1000000, 7), (0x1004000, 8)]"
proof -
  let ?s = "\<lparr>vs_kernel = False, vs_pml4 = ex_root, vs_areas = [(0x1000000, 7), (0x1004000, 8)]\<rparr>"
  let ?w = "ex_world\<lparr>vw_areas := [7 \<mapsto> (va_new Open 0x4000 1)\<lparr>va_spaces := [1]\<rparr>, 8 \<mapsto> (va_new Open 0x1000 0)\<lparr>va_spaces := [1]\<rparr>], vw_spaces := [1 \<mapsto> ?s]\<rparr>"
  have "\<exists>w'. va_resize 7 0x100000 ?w = Inr (0x100000, w') \<and> vw_spaces w' 1 = Some ?s \<and> \<not> areas_ok w' (vs_areas ?s)"
    by (rule vm_resize_overlaps [where x = "(va_new Open 0x4000 1)\<lparr>va_spaces := [1]\<rparr>" and xs = "[]" and b = "0x1000000" and c = "0x1004000" and d = 8]) (simp_all add: va_new_def)
  then show ?thesis by (metis vm_space.select_convs(3))
qed

section \<open>Page faults\<close>

text \<open>The pages, in the linear area, that a tree of pages holds.\<close>

definition tree_pages :: "rnode option \<Rightarrow> u64 set" where
  "tree_pages t = {p + linear_offset |p k. frame_of t k = Some p}"

lemma free_pages_image: "free_pages bs = (\<lambda>p. p + linear_offset) ` free_frames bs"
  by (auto simp: free_pages_def free_frames_def image_def)

lemma pages_wf_take:
  assumes wf: "pages_wf s root R (Suc k)" and bs: "fa_wf bs" "blocks_linear bs" "free_pages bs \<subseteq> free_pages (pg_blocks s)" "frames_left (pg_blocks s) \<le> Suc (frames_left bs)"
    and N: "N \<subseteq> free_pages (pg_blocks s)" "N \<inter> free_pages bs = {}"
  shows "pages_wf (s\<lparr>pg_blocks := bs\<rparr>) root (R \<union> N) k"
proof -
  obtain ps where ps: "cache_ok s (tables (pg_mem s) root \<union> R) ps" "Suc k \<le> length ps + frames_left (pg_blocks s)" using wf by (auto simp: pages_wf_def)
  then have d: "free_pages (pg_blocks s) \<inter> (set ps \<union> (tables (pg_mem s) root \<union> R)) = {}" by (simp add: cache_ok_def)
  have "cache_ok (s\<lparr>pg_blocks := bs\<rparr>) (tables (pg_mem s) root \<union> (R \<union> N)) ps" using ps(1) bs(1-3) N d unfolding cache_ok_def by simp blast
  moreover have "k \<le> length ps + frames_left bs" using ps(2) bs(4) by simp
  moreover have "tables (pg_mem s) root \<inter> (R \<union> N) = {}" using pages_wfD(4) [OF wf] N(1) d by blast
  ultimately show ?thesis using pages_wfD(1) [OF wf] by (auto simp: pages_wf_def)
qed




text \<open>A request for a page of an open area, in a memory where the pages of the area are kept apart from tables and free frames.\<close>

lemma open_page_ok:
  assumes x: "tree_inv (va_mapped x) (pg_blocks s)" and wf: "pages_wf s root (R \<union> tree_pages (va_mapped x)) (Suc k)" and key: "unat key < 2 ^ 54" and left: "0 < frames_left (pg_blocks s)"
  obtains p n bs where "open_get_page key True x (pg_blocks s) = Inr ((True, p), x\<lparr>va_mapped := Some n\<rparr>, bs)" "tree_inv (Some n) bs"
    "\<forall>j. frame_of (Some n) j = (if upper 0 j = upper 0 key then Some p else frame_of (va_mapped x) j)" "frame_of (va_mapped x) key = None \<or> frame_of (va_mapped x) key = Some p"
    "pages_wf (s\<lparr>pg_blocks := bs\<rparr>) root (R \<union> tree_pages (Some n)) k"
proof -
  let ?t = "va_mapped x" and ?bs = "pg_blocks s"
  have C: "fa_wf ?bs" "blocks_linear ?bs" using wf by (auto simp: pages_wf_def cache_ok_def)
  obtain p n bs where r: "page_tree_find_or_add ?t key ?bs = Inr (Some p, n, bs)" "tree_inv (Some n) bs" "fa_wf bs" "frames_left ?bs \<le> Suc (frames_left bs)"
    "\<And>j. frame_of (Some n) j = (if upper 0 j = upper 0 key then Some p else frame_of ?t j)" "frame_of ?t key = None \<or> frame_of ?t key = Some p"
    "free_frames bs \<subseteq> free_frames ?bs" "frame_of ?t key = None \<longrightarrow> p \<in> free_frames ?bs" "blocks_linear ?bs \<longrightarrow> blocks_linear bs"
    by (rule page_tree_step [OF x C(1) left upper_7_zero [OF key]]) (erule that; (assumption | blast | simp))
  define N where "N = (if frame_of ?t key = None then {p + linear_offset} else {})"
  have same: "frame_of ?t j = frame_of ?t key" if "upper 0 j = upper 0 key" for j using frame_of_cong [OF x that] .
  have tp: "tree_pages (Some n) = tree_pages ?t \<union> N"
  proof -
    have "q + linear_offset \<in> tree_pages ?t \<union> N" if "frame_of (Some n) j = Some q" for j q
      using that r(5) [of j] r(6) same [of j] by (auto simp: tree_pages_def N_def split: if_splits)
    moreover have "frame_of (Some n) j = Some q" if "frame_of ?t j = Some q" for j q using that r(5) [of j] r(6) same [of j] by (auto split: if_splits)
    moreover have "frame_of (Some n) key = Some p" using r(5) by simp
    ultimately show ?thesis unfolding tree_pages_def N_def by (auto split: if_splits) blast+
  qed
  have p: "p \<notin> free_frames bs"
  proof -
    have "frame_of (Some n) key = Some p" using r(5) by simp
    then obtain e where e: "rt_val (Some n) key = Some e" "e AND 1 \<noteq> 0" "e AND NOT 0xfff = p" by (auto simp: frame_of_def split: option.splits if_splits)
    then obtain q where q: "e = q OR 1" "q AND NOT 0xfff = q" "q \<notin> free_frames bs" using r(2) unfolding tree_inv_def by fastforce
    have "(q OR 1) AND NOT 0xfff = q AND NOT 0xfff" by (rule u64_eqI) (auto simp: bit_and_iff bit_or_iff bit_1_iff)
    then show ?thesis using e(3) q by simp
  qed
  have "pages_wf (s\<lparr>pg_blocks := bs\<rparr>) root ((R \<union> tree_pages ?t) \<union> N) k"
    using r(3,4,7-9) C(2) p by (intro pages_wf_take [OF wf]) (auto simp: free_pages_image N_def split: if_splits)
  then have w: "pages_wf (s\<lparr>pg_blocks := bs\<rparr>) root (R \<union> tree_pages (Some n)) k" unfolding tp by (simp add: Un_assoc)
  have "open_get_page key True x ?bs = Inr ((True, p), x\<lparr>va_mapped := Some n\<rparr>, bs)" using r(1) by (simp add: open_get_page_def)
  then show thesis using r(2,5,6) w by (intro that) auto
qed

lemma frame_of_entry:
  assumes "tree_inv t bs" "rt_val t k = Some e" "e \<noteq> 0"
  obtains p where "e = p OR 1" "p AND NOT 0xfff = p" "frame_of t k = Some p"
proof -
  obtain p where p: "e = p OR 1" "p AND NOT 0xfff = p" using assms unfolding tree_inv_def by blast
  have "(p OR 1) AND NOT 0xfff = p AND NOT 0xfff" "(p OR 1) AND 1 = 1" by (rule u64_eqI; auto simp: bit_and_iff bit_or_iff bit_1_iff)+
  then show thesis using p assms(2) by (intro that [OF p]) (simp add: frame_of_def)
qed



lemma vs_get_hit:
  assumes "vw_spaces w s = Some space" "areas_ok w (vs_areas space)" "find_vma a (vs_areas space) = Some b" "b \<le> addr" "unat addr < area_end w (b, a)"
  shows "vs_get s addr w = Inr (Some (b, a))"
proof -
  have "(b, a) \<in> set (vs_areas space)" using assms(3) by (auto simp: find_vma_def find_Some_iff) (metis nth_mem snd_conv)
  then obtain xs ys where "vs_areas space = xs @ (b, a) # ys" by (meson split_list)
  then show ?thesis using vs_get_loop_hit [of w xs b a ys addr] assms by (simp add: vs_get_def space_at_def)
qed



lemma find_physical_entry:
  assumes "vw_spaces w s = Some space" "areas_ok w (vs_areas space)" "find_vma a (vs_areas space) = Some b" "vw_areas w a = Some x" "va_kind x = Open"
    "tree_inv (va_mapped x) bs" "b \<le> addr" "unat addr < area_end w (b, a)"
  shows "vs_find_physical s addr w = Inr (case frame_of (va_mapped x) (addr - b) of None \<Rightarrow> 0 | Some p \<Rightarrow> p OR 1)"
proof -
  let ?k = "addr - b"
  have find: "page_tree_find (va_mapped x) ?k = Inr (rt_val (va_mapped x) ?k)"
  proof (cases "va_mapped x")
    case (Some n)
    then show ?thesis using assms(6) rt_find_total by (simp add: page_tree_find_def tree_inv_def)
  qed (simp add: page_tree_find_def rt_val_def)
  have "(case rt_val (va_mapped x) ?k of None \<Rightarrow> 0 | Some e \<Rightarrow> e) = (case frame_of (va_mapped x) ?k of None \<Rightarrow> 0 | Some p \<Rightarrow> p OR 1)"
  proof (cases "rt_val (va_mapped x) ?k")
    case (Some e)
    show ?thesis
    proof (cases "e = 0")
      case False
      obtain p where "e = p OR 1" "p AND NOT 0xfff = p" "frame_of (va_mapped x) ?k = Some p" by (rule frame_of_entry [OF assms(6) Some False])
      then show ?thesis using Some by simp
    qed (use Some in \<open>simp add: frame_of_def\<close>)
  qed (simp add: frame_of_def)
  then show ?thesis using vs_get_hit [OF assms(1-3,7,8)] assms(4,5) find
    by (auto simp: vs_find_physical_def area_at_def va_get_page_def open_get_page_def split: option.splits)
qed

text \<open>C13. What \<open>find_physical\<close> gives for an address of an open area is not its physical address but the entry of its page, with the present bit
  set and without the offset in the page, or zero when the area has no page there yet. So two addresses of one page have the same result, and
  two addresses of different pages have different ones unless they have none. The futexes of the system calls are known by this number, so
  that all futexes of a page are one.\<close>

theorem vm_find_physical_page:
  assumes "vw_spaces w s = Some space" "areas_ok w (vs_areas space)" "find_vma a (vs_areas space) = Some b" "vw_areas w a = Some x" "va_kind x = Open"
    "tree_inv (va_mapped x) (pg_blocks (vw_pages w))" "b \<le> addr" "unat addr < area_end w (b, a)" "b \<le> addr'" "unat addr' < area_end w (b, a)"
  shows "vs_find_physical s addr w = Inr (case frame_of (va_mapped x) (addr - b) of None \<Rightarrow> 0 | Some p \<Rightarrow> p OR 1) \<and>
     (if unat (addr - b) div 4096 = unat (addr' - b) div 4096 then vs_find_physical s addr w = vs_find_physical s addr' w
      else vs_find_physical s addr w = Inr 0 \<or> vs_find_physical s addr w \<noteq> vs_find_physical s addr' w)"
proof -
  note f = find_physical_entry [OF assms(1-8)] find_physical_entry [OF assms(1-6,9,10)]
  have al: "(q OR 1) AND NOT 0xfff = q" "q OR 1 \<noteq> 0" if j: "frame_of (va_mapped x) j = Some q" for q j
  proof -
    obtain e where e: "rt_val (va_mapped x) j = Some e" "e AND 1 \<noteq> 0" using j by (auto simp: frame_of_def split: option.splits if_splits)
    then have "e \<noteq> 0" by auto
    then obtain r where r: "e = r OR 1" "r AND NOT 0xfff = r" "frame_of (va_mapped x) j = Some r" by (rule frame_of_entry [OF assms(6) e(1)])
    then show "(q OR 1) AND NOT 0xfff = q" "q OR 1 \<noteq> 0" using j e \<open>e \<noteq> 0\<close> by (simp_all add: frame_of_def)
  qed
  show ?thesis
  proof (cases "unat (addr - b) div 4096 = unat (addr' - b) div 4096")
    case True
    then have "frame_of (va_mapped x) (addr - b) = frame_of (va_mapped x) (addr' - b)" by (intro frame_of_cong [OF assms(6)]) (simp add: upper_0_iff)
    then show ?thesis using f True by simp
  next
    case False
    have "vs_find_physical s addr w \<noteq> vs_find_physical s addr' w" if p: "frame_of (va_mapped x) (addr - b) = Some p" for p
    proof (cases "frame_of (va_mapped x) (addr' - b)")
      case None
      then show ?thesis using f p al(2) [OF p] by simp
    next
      case (Some p')
      then have "p \<noteq> p'" using assms(6) p False unfolding tree_inv_def upper_0_iff by blast
      then have "p OR 1 \<noteq> p' OR 1" using al(1) [OF p] al(1) [OF Some] by metis
      then show ?thesis using f p Some by simp
    qed
    then show ?thesis using f(1) False by (cases "frame_of (va_mapped x) (addr - b)") auto
  qed
qed

theorem vm_find_physical_page_witness:
  "\<exists>w p. vs_find_physical 1 0x1001008 w = Inr (p OR 1) \<and> vs_find_physical 1 0x1001008 w = vs_find_physical 1 0x1001ff0 w"
proof -
  let ?x = "va_new Open 0x4000 1" and ?sp = "\<lparr>vs_kernel = False, vs_pml4 = ex_root, vs_areas = [(0x1000000, 7)]\<rparr>"
  have t: "tree_inv (va_mapped ?x) bs" "tree_pages (va_mapped ?x) = {}" for bs by (simp_all add: tree_inv_def tree_pages_def frame_of_def rt_val_def va_new_def)
  have l: "pages_wf ex_pages ex_root ({} \<union> tree_pages (va_mapped ?x)) (Suc 127)" "0 < frames_left (pg_blocks ex_pages)"
    using ex_pages_wf [of "{}"] fb_example_left by (simp_all add: t ex_pages_def)
  have k: "unat (0x1000 :: u64) < 2 ^ 54" by simp
  obtain p n bs where g: "tree_inv (Some n) bs" "\<forall>j. frame_of (Some n) j = (if upper 0 j = upper 0 0x1000 then Some p else frame_of (va_mapped ?x) j)"
    by (rule open_page_ok [OF t(1) l(1) k l(2)]) (rule that)
  define w where "w = ex_world\<lparr>vw_areas := [7 \<mapsto> ?x\<lparr>va_mapped := Some n\<rparr>], vw_pages := ex_pages\<lparr>pg_blocks := bs\<rparr>\<rparr>"
  have s: "va_size ?x = 0x4000" "va_kind ?x = Open" by (simp_all add: va_new_def page_count_def)
  have w: "vw_spaces w 1 = Some ?sp" "vw_areas w 7 = Some (?x\<lparr>va_mapped := Some n\<rparr>)" "pg_blocks (vw_pages w) = bs" by (simp_all add: w_def ex_world_def)
  have e: "area_end w (0x1000000, 7) = 0x1004000" by (simp add: area_end_def area_size_def w s)
  have a: "areas_ok w (vs_areas ?sp)" "find_vma 7 (vs_areas ?sp) = Some 0x1000000" by (simp_all add: w e find_vma_def)
  have f: "frame_of (Some n) 0x1008 = Some p" "frame_of (Some n) 0x1ff0 = Some p" using g(2) by (simp_all add: upper_0_iff)
  have "vs_find_physical 1 0x1001008 w = Inr (p OR 1) \<and> (vs_find_physical 1 0x1001008 w = vs_find_physical 1 0x1001ff0 w \<longleftrightarrow> True)"
    using vm_find_physical_page [OF w(1) a w(2), of "0x1001008" "0x1001ff0"] g(1) f by (auto simp: s e w(3))
  then show ?thesis by blast
qed

end
