(* ===== verification/Ring_Buffer.thy ===== *)
theory Ring_Buffer
  imports Util_Basics Vm_Space
begin

text \<open>
  \<open>j6::ring_buffer\<close> of \<open>src/src/libraries/j6/ring_buffer.cpp\<close> and \<open>ring_buffer.hh\<close>: a byte
  ring over an area that is meant to be mapped twice in a row. The read and write counters run freely
  and wrap around at \<open>2 ^ 64\<close>; their low bits index the area. The memory is a parameter: the
  translation of addresses to cells. Over a memory that is mapped twice (\<open>mirrored\<close>) the buffer is a queue
  (\<open>ring_spec\<close>); over the pages that \<open>vm_area_ring\<close> of the kernel hands out it is not.
\<close>

section \<open>State\<close>

record ring_buffer =
  rb_bits :: u64
  rb_write :: u64
  rb_read :: u64
  rb_vma :: u64
  rb_data :: u64

section \<open>Operations\<close>

text \<open>\<open>1 << m_bits\<close> is computed as an \<open>int\<close> and converted to \<open>size_t\<close>.\<close>

definition rb_size :: "ring_buffer \<Rightarrow> u64" where
  "rb_size rb = scast (push_bit (unat (rb_bits rb)) (1 :: u32))"

definition rb_mask :: "ring_buffer \<Rightarrow> u64" where
  "rb_mask rb = scast (push_bit (unat (rb_bits rb)) (1 :: u32) - 1)"

definition rb_used :: "ring_buffer \<Rightarrow> u64" where
  "rb_used rb = rb_write rb - rb_read rb"

definition rb_free :: "ring_buffer \<Rightarrow> u64" where
  "rb_free rb = rb_size rb - rb_used rb"

definition rb_index :: "ring_buffer \<Rightarrow> u64 \<Rightarrow> u64" where
  "rb_index rb i = i AND rb_mask rb"

definition rb_get :: "ring_buffer \<Rightarrow> u64 \<Rightarrow> u64" where
  "rb_get rb i = rb_data rb + rb_index rb i"

definition rb_valid :: "ring_buffer \<Rightarrow> bool" where
  "rb_valid rb \<longleftrightarrow> rb_data rb \<noteq> 0"

definition rb_read_ptr :: "ring_buffer \<Rightarrow> u64" where
  "rb_read_ptr rb = rb_get rb (rb_read rb)"

definition rb_write_ptr :: "ring_buffer \<Rightarrow> u64" where
  "rb_write_ptr rb = rb_get rb (rb_write rb)"

definition rb_commit :: "u64 \<Rightarrow> ring_buffer \<Rightarrow> u64 \<times> ring_buffer" where
  "rb_commit n rb =
     (let n = (if n > rb_free rb then rb_free rb else n) in
      (n, rb\<lparr>rb_write := rb_write rb + n\<rparr>))"

definition rb_consume :: "u64 \<Rightarrow> ring_buffer \<Rightarrow> u64 \<times> u64 \<times> ring_buffer" where
  "rb_consume n rb =
     (let n = (if n > rb_used rb then rb_used rb else n); i = rb_read rb; rb1 = rb\<lparr>rb_read := rb_read rb + n\<rparr> in
      (n, rb_get rb1 i, rb1))"

text \<open>
  The constructor asks the kernel for a ring mapping of the given size; \<open>vma_create_map\<close>
  stands for the system call, giving the handle and the address or nothing.
\<close>

definition rb_new :: "(u64 \<Rightarrow> (u64 \<times> u64) option) \<Rightarrow> u64 \<Rightarrow> ring_buffer" where
  "rb_new vma_create_map pages =
     (let rb = \<lparr>rb_bits = of_nat (log2 pages) + 12, rb_write = 0, rb_read = 0, rb_vma = 0, rb_data = 0\<rparr> in
      if \<not> is_pow2 pages then rb
      else case vma_create_map (rb_size rb) of
          None \<Rightarrow> rb
        | Some (vma, buffer_addr) \<Rightarrow> rb\<lparr>rb_vma := vma, rb_data := buffer_addr\<rparr>)"

text \<open>Loads and stores of bytes through a translation of addresses to memory cells.\<close>

type_synonym memory = "u64 \<Rightarrow> u8"

fun mem_store :: "(u64 \<Rightarrow> u64) \<Rightarrow> u64 \<Rightarrow> u8 list \<Rightarrow> memory \<Rightarrow> memory" where
  "mem_store tr p [] mem = mem"
| "mem_store tr p (b # bs) mem = mem_store tr (p + 1) bs (mem(tr p := b))"

definition mem_load :: "(u64 \<Rightarrow> u64) \<Rightarrow> u64 \<Rightarrow> nat \<Rightarrow> memory \<Rightarrow> u8 list" where
  "mem_load tr p n mem = map (\<lambda>j. mem (tr (p + of_nat j))) [0..<n]"

text \<open>
  The uses of a buffer: bytes are written at the write pointer, any number of bytes is committed,
  any number is consumed and what \<open>consume\<close> allows is read at the pointer it returns.
\<close>

datatype ring_op = Ring_write "u8 list" | Ring_commit u64 | Ring_consume u64

datatype ring_out = Written | Committed nat | Consumed "u8 list"

fun rb_exec :: "(u64 \<Rightarrow> u64) \<Rightarrow> ring_op \<Rightarrow> ring_buffer \<times> memory \<Rightarrow> ring_out \<times> ring_buffer \<times> memory" where
  "rb_exec tr (Ring_write bs) (rb, mem) = (Written, rb, mem_store tr (rb_write_ptr rb) bs mem)"
| "rb_exec tr (Ring_commit n) (rb, mem) = (case rb_commit n rb of (n, rb) \<Rightarrow> (Committed (unat n), rb, mem))"
| "rb_exec tr (Ring_consume n) (rb, mem) = (case rb_consume n rb of (n, p, rb) \<Rightarrow> (Consumed (mem_load tr p (unat n) mem), rb, mem))"

fun rb_run :: "(u64 \<Rightarrow> u64) \<Rightarrow> ring_op list \<Rightarrow> ring_buffer \<times> memory \<Rightarrow> ring_out list \<times> ring_buffer \<times> memory" where
  "rb_run tr [] s = ([], s)"
| "rb_run tr (c # cs) s = (case rb_exec tr c s of (r, s) \<Rightarrow> (case rb_run tr cs s of (rs, s) \<Rightarrow> (r # rs, s)))"

section \<open>Specification\<close>

text \<open>
  A ring is a queue and the bytes of its free space, in the order in which they will be
  committed: a consumed byte goes to the end of the free space. Commits are bounded by the free
  space and reads by the queue.
\<close>

fun ring_spec :: "ring_op \<Rightarrow> u8 list \<times> u8 list \<Rightarrow> ring_out \<times> u8 list \<times> u8 list" where
  "ring_spec (Ring_write bs) (q, f) = (Written, q, bs @ drop (length bs) f)"
| "ring_spec (Ring_commit n) (q, f) = (let k = min (unat n) (length f) in (Committed k, q @ take k f, drop k f))"
| "ring_spec (Ring_consume n) (q, f) = (let k = min (unat n) (length q) in (Consumed (take k q), drop k q, f @ take k q))"

fun ring_spec_run :: "ring_op list \<Rightarrow> u8 list \<times> u8 list \<Rightarrow> ring_out list \<times> u8 list \<times> u8 list" where
  "ring_spec_run [] s = ([], s)"
| "ring_spec_run (c # cs) s = (case ring_spec c s of (r, s) \<Rightarrow> (case ring_spec_run cs s of (rs, s) \<Rightarrow> (r # rs, s)))"

text \<open>The caller writes no more than the free space.\<close>

fun ring_ops_ok :: "ring_op list \<Rightarrow> u8 list \<times> u8 list \<Rightarrow> bool" where
  "ring_ops_ok [] s \<longleftrightarrow> True"
| "ring_ops_ok (c # cs) s \<longleftrightarrow> (case c of Ring_write bs \<Rightarrow> length bs \<le> length (snd s) | _ \<Rightarrow> True) \<and> ring_ops_ok cs (snd (ring_spec c s))"

text \<open>A memory of \<open>n\<close> cells mapped twice in a row at \<open>base\<close>.\<close>

definition mirrored :: "(u64 \<Rightarrow> u64) \<Rightarrow> u64 \<Rightarrow> nat \<Rightarrow> bool" where
  "mirrored tr base n \<longleftrightarrow> (\<forall>i<n. tr (base + of_nat (n + i)) = tr (base + of_nat i)) \<and> inj_on (\<lambda>i. tr (base + of_nat i)) {..<n}"

definition cells :: "(u64 \<Rightarrow> u64) \<Rightarrow> u64 \<Rightarrow> nat \<Rightarrow> memory \<Rightarrow> u8 list" where
  "cells tr base n mem = map (\<lambda>i. mem (tr (base + of_nat i))) [0..<n]"

section \<open>Cyclic lists\<close>

fun ring_store :: "'a list \<Rightarrow> nat \<Rightarrow> 'a list \<Rightarrow> 'a list" where
  "ring_store d i [] = d"
| "ring_store d i (b # bs) = ring_store (d[i mod length d := b]) (i + 1) bs"

definition ring_load :: "'a list \<Rightarrow> nat \<Rightarrow> nat \<Rightarrow> 'a list" where
  "ring_load d i n = map (\<lambda>j. d ! ((i + j) mod length d)) [0..<n]"

text \<open>The queue starts at the read index, the free space at the write index; together they are all cells.\<close>

definition rb_rep :: "(u64 \<Rightarrow> u64) \<Rightarrow> ring_buffer \<times> memory \<Rightarrow> u8 list \<times> u8 list \<Rightarrow> bool" where
  "rb_rep tr s qf = (case (s, qf) of ((rb, mem), (q, f)) \<Rightarrow>
     let n = 2 ^ unat (rb_bits rb); d = cells tr (rb_data rb) n mem in
     unat (rb_bits rb) < 31 \<and> rb_valid rb \<and> mirrored tr (rb_data rb) n \<and> unat (rb_used rb) \<le> n \<and>
     q = ring_load d (unat (rb_read rb)) (unat (rb_used rb)) \<and> f = ring_load d (unat (rb_write rb)) (n - unat (rb_used rb)))"

lemma length_ring_store [simp]: "length (ring_store d i bs) = length d"
  by (induction d i bs rule: ring_store.induct) simp_all

lemma length_ring_load [simp]: "length (ring_load d i n) = n"
  by (simp add: ring_load_def)

lemma mod_window:
  assumes "a < b" "b < a + s"
  shows "a mod s \<noteq> (b :: nat) mod s"
proof
  assume "a mod s = b mod s"
  then have "s dvd b - a" using assms by (metis less_imp_le_nat mod_eq_dvd_iff_nat)
  then have "s \<le> b - a" using assms by (intro dvd_imp_le) simp_all
  with assms show False by simp
qed

lemma ring_store_other:
  "\<forall>k<length bs. (i + k) mod length d \<noteq> q \<Longrightarrow> ring_store d i bs ! q = d ! q"
proof (induction d i bs rule: ring_store.induct)
  case (2 d i b bs)
  have "i mod length d \<noteq> q" using 2(2) [rule_format, of 0] by simp
  moreover have "\<forall>k<length bs. (i + 1 + k) mod length d \<noteq> q"
    using 2(2) [rule_format, of "Suc _"] by simp
  ultimately show ?case using 2(1) by simp
qed simp

lemma ring_store_nth:
  assumes "length bs \<le> length d" "k < length bs"
  shows "ring_store d i bs ! ((i + k) mod length d) = bs ! k"
  using assms
proof (induction d i bs arbitrary: k rule: ring_store.induct)
  case (2 d i b bs)
  show ?case
  proof (cases k)
    case 0
    have "0 < length d" using 2(2) by auto
    have "(i + 1 + j) mod length d \<noteq> i mod length d" if "j < length bs" for j
      using mod_window [of i "i + 1 + j" "length d"] 2(2) that by simp
    with 0 \<open>0 < length d\<close> show ?thesis
      using ring_store_other [of bs "i + 1" "d[i mod length d := b]" "i mod length d"] by simp
  next
    case (Suc j)
    then show ?thesis using 2(1) [of j] 2(2,3) by simp
  qed
qed simp

lemma ring_load_store:
  assumes "n + length bs \<le> length d" "w mod length d = (i + n) mod length d"
  shows "ring_load (ring_store d w bs) i (n + length bs) = ring_load d i n @ bs"
proof (rule nth_equalityI)
  fix k assume "k < length (ring_load (ring_store d w bs) i (n + length bs))"
  then have k: "k < n + length bs" by simp
  have w: "(w + j) mod length d = (i + n + j) mod length d" for j
    using assms(2) by (metis mod_add_left_eq)
  show "ring_load (ring_store d w bs) i (n + length bs) ! k = (ring_load d i n @ bs) ! k"
  proof (cases "k < n")
    case True
    have "(w + j) mod length d \<noteq> (i + k) mod length d" if "j < length bs" for j
      using mod_window [of "i + k" "i + n + j" "length d"] True that assms(1) unfolding w by simp
    then show ?thesis using True k ring_store_other [of bs w d "(i + k) mod length d"]
      by (simp add: ring_load_def nth_append)
  next
    case False
    with k have "ring_store d w bs ! ((w + (k - n)) mod length d) = bs ! (k - n)"
      using assms(1) by (intro ring_store_nth) simp_all
    then show ?thesis using False k unfolding w by (simp add: ring_load_def nth_append)
  qed
qed simp

lemma ring_load_append: "ring_load d i (n + m) = ring_load d i n @ ring_load d (i + n) m"
  by (rule nth_equalityI) (auto simp: ring_load_def nth_append)

lemma ring_load_mod [simp]: "ring_load d (i mod length d) n = ring_load d i n"
  by (simp add: ring_load_def mod_add_left_eq)

section \<open>Words of the ring\<close>

lemma rb_size_nat: "unat (rb_bits rb) < 31 \<Longrightarrow> unat (rb_size rb) = 2 ^ unat (rb_bits rb)"
proof -
  assume b: "unat (rb_bits rb) < 31"
  have "rb_size rb = 2 ^ unat (rb_bits rb)"
    using b by (intro u64_eqI) (auto simp: rb_size_def bit_signed_iff bit_exp_iff min_def)
  then show ?thesis using b by (simp add: unat_exp_u64)
qed

lemma rb_index_nat: "unat (rb_bits rb) < 31 \<Longrightarrow> unat (rb_index rb i) = unat i mod 2 ^ unat (rb_bits rb)"
proof -
  assume b: "unat (rb_bits rb) < 31"
  have "rb_mask rb = mask (unat (rb_bits rb))"
    unfolding rb_mask_def push_bit_of_1 mask_eq_exp_minus_1 [symmetric]
    using b by (intro u64_eqI) (auto simp: bit_signed_iff bit_mask_iff min_def)
  then have "rb_index rb i = take_bit (unat (rb_bits rb)) i" by (simp add: rb_index_def take_bit_eq_mask)
  then show ?thesis by (simp add: unsigned_take_bit_eq take_bit_nat_def)
qed


lemma take_ring_load [simp]: "take k (ring_load d i n) = ring_load d i (min k n)"
  by (rule nth_equalityI) (simp_all add: ring_load_def)

lemma drop_ring_load [simp]: "drop k (ring_load d i n) = ring_load d (i + k) (n - k)"
  by (rule nth_equalityI) (auto simp: ring_load_def ac_simps)

lemma ring_load_cong: "i mod length d = j mod length d \<Longrightarrow> ring_load d i n = ring_load d j n"
  by (metis ring_load_mod)

lemma ring_load_store_other:
  assumes "w + length bs \<le> i" "i + n \<le> w + length d"
  shows "ring_load (ring_store d w bs) i n = ring_load d i n"
proof (rule nth_equalityI)
  fix k assume "k < length (ring_load (ring_store d w bs) i n)"
  then have k: "k < n" by simp
  have "(w + j) mod length d \<noteq> (i + k) mod length d" if "j < length bs" for j
    using mod_window [of "w + j" "i + k" "length d"] that assms k by simp
  then show "ring_load (ring_store d w bs) i n ! k = ring_load d i n ! k"
    using k ring_store_other [of bs w d "(i + k) mod length d"] by (simp add: ring_load_def)
qed simp

text \<open>Writing into the free space of a rotation: the queue stays and the bytes are the front of the free space.\<close>

lemma ring_write_split:
  assumes "w mod length d = (r + u) mod length d" "u + length bs \<le> length d"
  shows "ring_load (ring_store d w bs) r u = ring_load d r u"
    "ring_load (ring_store d w bs) w (length d - u) = bs @ drop (length bs) (ring_load d w (length d - u))"
proof -
  have a: "ring_load (ring_store d w bs) r (u + length bs) = ring_load d r u @ bs"
    using assms by (intro ring_load_store) simp_all
  then have s: "ring_load (ring_store d w bs) r u = ring_load d r u" "ring_load (ring_store d w bs) (r + u) (length bs) = bs"
    unfolding ring_load_append by simp_all
  then show "ring_load (ring_store d w bs) r u = ring_load d r u" by simp
  have "ring_load (ring_store d w bs) w (length bs + (length d - u - length bs)) =
      ring_load (ring_store d w bs) w (length bs) @ ring_load (ring_store d w bs) (w + length bs) (length d - u - length bs)"
    by (rule ring_load_append)
  moreover have "ring_load (ring_store d w bs) w (length bs) = bs"
    using s(2) ring_load_cong [of w "ring_store d w bs" "r + u"] assms(1) by simp
  moreover have "ring_load (ring_store d w bs) (w + length bs) (length d - u - length bs) = ring_load d (w + length bs) (length d - u - length bs)"
    using assms(2) by (intro ring_load_store_other) simp_all
  ultimately show "ring_load (ring_store d w bs) w (length d - u) = bs @ drop (length bs) (ring_load d w (length d - u))"
    using assms(2) by simp
qed

section \<open>Doubly mapped memories\<close>

lemma length_cells [simp]: "length (cells tr base n mem) = n"
  by (simp add: cells_def)

lemma mirrored_mod:
  assumes "mirrored tr base n" "j < 2 * n"
  shows "tr (base + of_nat j) = tr (base + of_nat (j mod n))"
proof (cases "j < n")
  case False
  define i where "i = j - n"
  have i: "j = n + i" "i < n" using False assms(2) by (simp_all add: i_def)
  then show ?thesis using assms(1) by (simp add: mirrored_def)
qed simp

lemma mem_load_cells:
  assumes "mirrored tr base n" "i + k \<le> 2 * n"
  shows "mem_load tr (base + of_nat i) k mem = ring_load (cells tr base n mem) i k"
proof (rule nth_equalityI)
  fix j assume "j < length (mem_load tr (base + of_nat i) k mem)"
  then have j: "j < k" by (simp add: mem_load_def)
  then have "0 < n" using assms(2) by (cases n) auto
  then show "mem_load tr (base + of_nat i) k mem ! j = ring_load (cells tr base n mem) i k ! j"
    using j mirrored_mod [OF assms(1), of "i + j"] assms(2) by (simp add: mem_load_def ring_load_def cells_def add.assoc)
qed (simp add: mem_load_def)

lemma cells_update:
  assumes "mirrored tr base n" "i < 2 * n"
  shows "cells tr base n (mem(tr (base + of_nat i) := b)) = (cells tr base n mem)[i mod n := b]"
proof (rule nth_equalityI)
  fix j assume "j < length (cells tr base n (mem(tr (base + of_nat i) := b)))"
  then have j: "j < n" by simp
  then have "i mod n < n" by simp
  with j have "tr (base + of_nat j) = tr (base + of_nat (i mod n)) \<longleftrightarrow> j = i mod n"
    using assms(1) by (auto simp: mirrored_def inj_on_def)
  then show "cells tr base n (mem(tr (base + of_nat i) := b)) ! j = (cells tr base n mem)[i mod n := b] ! j"
    using j mirrored_mod [OF assms] by (auto simp: cells_def nth_list_update)
qed simp

lemma mem_store_cells:
  assumes "mirrored tr base n"
  shows "i + length bs \<le> 2 * n \<Longrightarrow> cells tr base n (mem_store tr (base + of_nat i) bs mem) = ring_store (cells tr base n mem) i bs"
proof (induction bs arbitrary: i mem)
  case (Cons b bs)
  have "cells tr base n (mem_store tr (base + of_nat (i + 1)) bs (mem(tr (base + of_nat i) := b))) = ring_store (cells tr base n (mem(tr (base + of_nat i) := b))) (i + 1) bs"
    using Cons.prems by (intro Cons.IH) simp
  then show ?case using cells_update [OF assms, of i] Cons.prems by (simp add: add.assoc add.commute [of 1])
qed simp

section \<open>Refinement\<close>

lemma ring_load_add:
  assumes "length d = 2 ^ b" "b \<le> 64"
  shows "ring_load d (unat (x + y :: u64)) n = ring_load d (unat x + unat y) n"
  using assms unat_add_mod_pow2 [of b x y] by (intro ring_load_cong) simp

lemma rb_write_index:
  assumes "b \<le> 64"
  shows "unat (rb_write rb) mod 2 ^ b = (unat (rb_read rb) + unat (rb_used rb)) mod 2 ^ b"
  using assms unat_add_mod_pow2 [of b "rb_read rb" "rb_used rb"] by (simp add: rb_used_def)

lemma rb_free_nat:
  assumes "unat (rb_bits rb) < 31" "unat (rb_used rb) \<le> 2 ^ unat (rb_bits rb)"
  shows "unat (rb_free rb) = 2 ^ unat (rb_bits rb) - unat (rb_used rb)"
  using assms rb_size_nat [OF assms(1)] by (simp add: rb_free_def unat_sub_no_wrap)

lemma rb_get_nat: "unat (rb_bits rb) < 31 \<Longrightarrow> rb_get rb i = rb_data rb + of_nat (unat i mod 2 ^ unat (rb_bits rb))"
  by (simp add: rb_get_def rb_index_nat [symmetric])

lemma rb_exec_refines:
  assumes rep: "rb_rep tr (rb, mem) (q, f)" and ok: "ring_ops_ok [c] (q, f)"
  shows "fst (rb_exec tr c (rb, mem)) = fst (ring_spec c (q, f)) \<and> rb_rep tr (snd (rb_exec tr c (rb, mem))) (snd (ring_spec c (q, f)))"
proof -
  define b n u d where "b = unat (rb_bits rb)" "n = (2 :: nat) ^ b" "u = unat (rb_used rb)" "d = cells tr (rb_data rb) n mem"
  have R: "b < 31" "rb_valid rb" "mirrored tr (rb_data rb) n" "u \<le> n" "q = ring_load d (unat (rb_read rb)) u" "f = ring_load d (unat (rb_write rb)) (n - u)" "length d = n"
    using rep by (simp_all add: rb_rep_def b_n_u_d_def Let_def)
  have free: "unat (rb_free rb) = n - u" using rb_free_nat [of rb] R(1,4) by (simp add: b_n_u_d_def)
  have len: "length q = u" "length f = n - u" using R by simp_all
  have w: "unat (rb_write rb) mod n = (unat (rb_read rb) + u) mod n" using rb_write_index [of b rb] R(1) by (simp add: b_n_u_d_def)
  have n: "0 < n" by (simp add: b_n_u_d_def)
  show ?thesis
  proof (cases c)
    case (Ring_write bs)
    let ?i = "unat (rb_write rb) mod n"
    have l: "length bs \<le> n - u" using ok len by (simp add: Ring_write)
    have p: "rb_write_ptr rb = rb_data rb + of_nat ?i" using rb_get_nat [of rb] R(1) by (simp add: rb_write_ptr_def b_n_u_d_def)
    have "?i < n" using n by simp
    then have c: "cells tr (rb_data rb) n (mem_store tr (rb_write_ptr rb) bs mem) = ring_store d ?i bs"
      unfolding p b_n_u_d_def(4) using l by (intro mem_store_cells [OF R(3)]) linarith
    have fi: "f = ring_load d ?i (n - u)" unfolding R(6) using R(7) by (intro ring_load_cong) simp
    have "ring_load (ring_store d ?i bs) (unat (rb_read rb)) u = q" "ring_load (ring_store d ?i bs) ?i (n - u) = bs @ drop (length bs) f"
      using ring_write_split [of ?i d "unat (rb_read rb)" u bs] w l R(4,5,7) fi by simp_all
    moreover have "ring_load (ring_store d ?i bs) (unat (rb_write rb)) (n - u) = ring_load (ring_store d ?i bs) ?i (n - u)"
      using R(7) by (intro ring_load_cong) simp
    ultimately show ?thesis using R(1-4) c by (simp add: Ring_write rb_rep_def b_n_u_d_def Let_def)
  next
    case (Ring_commit m)
    define k where "k = (if m > rb_free rb then rb_free rb else m)"
    have k: "unat k = min (unat m) (n - u)" using free by (simp add: k_def word_less_nat_alt min_def)
    have u: "unat (rb_used (rb\<lparr>rb_write := rb_write rb + k\<rparr>)) = u + unat k"
    proof -
      have "rb_used (rb\<lparr>rb_write := rb_write rb + k\<rparr>) = rb_used rb + k" by (simp add: rb_used_def)
      then show ?thesis using unat_add_bounded [of "rb_used rb" k "rb_size rb"] rb_size_nat [of rb] R(1,4) k by (simp add: b_n_u_d_def)
    qed
    have "ring_load d (unat (rb_read rb)) (u + unat k) = q @ take (unat k) f"
      using R(5-7) k w ring_load_cong [of "unat (rb_read rb) + u" d "unat (rb_write rb)" "unat k"] by (simp add: ring_load_append)
    moreover have "ring_load d (unat (rb_write rb + k)) (n - (u + unat k)) = drop (unat k) f"
      using R(6) ring_load_add [of d b "rb_write rb" k] R(1,7) by (simp add: b_n_u_d_def)
    moreover have "u + unat k \<le> n" using k R(4) by simp
    ultimately show ?thesis using R(1-4) u k len
      by (simp add: Ring_commit rb_rep_def rb_commit_def k_def [symmetric] Let_def rb_valid_def) (simp add: b_n_u_d_def)
  next
    case (Ring_consume m)
    define k where "k = (if m > rb_used rb then rb_used rb else m)"
    have k: "unat k = min (unat m) u" by (simp add: k_def word_less_nat_alt min_def b_n_u_d_def)
    let ?rb = "rb\<lparr>rb_read := rb_read rb + k\<rparr>"
    have u: "unat (rb_used ?rb) = u - unat k"
    proof -
      have "rb_used ?rb = rb_used rb - k" by (simp add: rb_used_def)
      then show ?thesis using k by (simp add: unat_sub_no_wrap b_n_u_d_def)
    qed
    have p: "rb_get ?rb (rb_read rb) = rb_data rb + of_nat (unat (rb_read rb) mod n)" using rb_get_nat [of ?rb] R(1) by (simp add: b_n_u_d_def)
    have "unat (rb_read rb) mod n < n" using n by simp
    then have "mem_load tr (rb_get ?rb (rb_read rb)) (unat k) mem = ring_load d (unat (rb_read rb) mod n) (unat k)"
      unfolding p b_n_u_d_def(4) using k R(4) by (intro mem_load_cells [OF R(3)]) linarith
    then have o: "mem_load tr (rb_get ?rb (rb_read rb)) (unat k) mem = take (unat k) q"
      using R(5,7) k ring_load_mod [of d "unat (rb_read rb)"] by simp
    have "ring_load d (unat (rb_read rb + k)) (u - unat k) = drop (unat k) q"
      using R(5) ring_load_add [of d b "rb_read rb" k] R(1,7) by (simp add: b_n_u_d_def)
    moreover have "ring_load d (unat (rb_write rb)) (n - (u - unat k)) = f @ take (unat k) q"
    proof -
      have "(unat (rb_write rb) + (n - u)) mod n = (unat (rb_read rb) + u + (n - u)) mod n" using w by (metis mod_add_left_eq)
      then have "ring_load d (unat (rb_write rb) + (n - u)) (unat k) = take (unat k) q"
        using R(4,5,7) k ring_load_cong [of "unat (rb_write rb) + (n - u)" d "unat (rb_read rb)"] by simp
      moreover have "n - (u - unat k) = (n - u) + unat k" using k R(4) by simp
      ultimately show ?thesis using R(6) by (simp only: ring_load_append)
    qed
    moreover have "u - unat k \<le> n" using R(4) by simp
    ultimately show ?thesis using R(1-4) u k len o
      by (simp add: Ring_consume rb_rep_def rb_consume_def k_def [symmetric] Let_def rb_valid_def) (simp add: b_n_u_d_def)
  qed
qed


lemma rb_run_refines:
  "rb_rep tr s qf \<Longrightarrow> ring_ops_ok cs qf \<Longrightarrow> fst (rb_run tr cs s) = fst (ring_spec_run cs qf) \<and> rb_rep tr (snd (rb_run tr cs s)) (snd (ring_spec_run cs qf))"
proof (induction cs arbitrary: s qf)
  case (Cons c cs)
  have 1: "fst (rb_exec tr c s) = fst (ring_spec c qf)" "rb_rep tr (snd (rb_exec tr c s)) (snd (ring_spec c qf))"
    using rb_exec_refines [of tr "fst s" "snd s" "fst qf" "snd qf" c] Cons.prems by simp_all
  have "ring_ops_ok cs (snd (ring_spec c qf))" using Cons.prems(2) by simp
  from Cons.IH [OF 1(2) this] 1(1) show ?case by (simp add: split_beta)
qed simp

lemma ring_load_all: "ring_load d 0 (length d) = d"
  by (rule nth_equalityI) (simp_all add: ring_load_def)

lemma rb_new_rep:
  assumes "pages \<le> 2 ^ 18" "is_pow2 pages" and c: "create (2 ^ (log2 pages + 12)) = Some (vma, addr)" "addr \<noteq> 0"
    and m: "mirrored tr addr (2 ^ (log2 pages + 12))"
  shows "rb_rep tr (rb_new create pages, mem) ([], cells tr addr (2 ^ (log2 pages + 12)) mem)"
proof -
  have "log2 pages \<le> 18" using assms(1) by (rule log2_le) simp
  then have b: "unat (of_nat (log2 pages) + 12 :: u64) = log2 pages + 12"
    by (simp add: unat_word_ariths unat_of_nat)
  let ?rb = "\<lparr>rb_bits = of_nat (log2 pages) + 12, rb_write = 0, rb_read = 0, rb_vma = 0, rb_data = 0\<rparr>"
  have "rb_size ?rb = 2 ^ (log2 pages + 12)"
    using \<open>log2 pages \<le> 18\<close> rb_size_nat [of ?rb] unat_exp_u64 [of "log2 pages + 12"] b
    by (intro word_eq_unat [THEN iffD2]) simp
  then have r: "rb_new create pages = ?rb\<lparr>rb_vma := vma, rb_data := addr\<rparr>"
    using assms(2) c by (simp add: rb_new_def)
  show ?thesis
    using b c(2) m \<open>log2 pages \<le> 18\<close> ring_load_all [of "cells tr addr (2 ^ (log2 pages + 12)) mem"] unfolding r
    by (simp add: rb_rep_def rb_used_def rb_valid_def Let_def ring_load_def)
qed

section \<open>Properties\<close>

text \<open>C29. Over a memory that is mapped twice in a row, a ring buffer is a bounded FIFO queue. A new buffer of at most \<open>2 ^ 18\<close>
  pages, a power of two, stands for the empty queue, with all cells as free space. From any buffer that stands for a queue, also one whose counters
  are about to wrap around, every sequence of writes of at most the free space, commits of any size and consumes of any size
  returns what the queue returns: a commit is cut to the free space, a consume to the bytes queued, and the bytes read are the oldest
  bytes committed. The system call that maps the memory and the memory are parameters.\<close>

theorem ring_buffer_refines:
  assumes "pages \<le> 2 ^ 18" "is_pow2 pages" "create (2 ^ (log2 pages + 12)) = Some (vma, addr)" "addr \<noteq> 0"
    and "mirrored tr addr (2 ^ (log2 pages + 12))"
  shows "rb_rep tr (rb_new create pages, mem) ([], cells tr addr (2 ^ (log2 pages + 12)) mem) \<and>
    (\<forall>s qf. rb_rep tr s qf \<longrightarrow> ring_ops_ok cs qf \<longrightarrow>
       fst (rb_run tr cs s) = fst (ring_spec_run cs qf) \<and> rb_rep tr (snd (rb_run tr cs s)) (snd (ring_spec_run cs qf)))"
  using rb_new_rep [of pages create vma addr tr mem, OF assms] rb_run_refines [of tr _ _ cs] by blast

definition example_tr :: "u64 \<Rightarrow> u64" where
  "example_tr v = (v - 0x10000) AND 0xfff"

lemma example_mirrored: "mirrored example_tr 0x10000 4096"
proof -
  have e: "example_tr (0x10000 + x) = take_bit 12 x" for x
    by (simp add: example_tr_def take_bit_eq_mask mask_eq_exp_minus_1)
  have "unat (take_bit 12 (of_nat i :: u64)) = i mod 4096" if "i < 8192" for i
    using that by (simp add: unsigned_take_bit_eq take_bit_nat_def unat_of_nat)
  then have "example_tr (0x10000 + of_nat i) = example_tr (0x10000 + of_nat j) \<longleftrightarrow> i mod 4096 = j mod 4096" if "i < 8192" "j < 8192" for i j
    unfolding e word_eq_unat using that by simp
  then show ?thesis by (auto simp: mirrored_def inj_on_def simp del: of_nat_add)
qed

theorem ring_buffer_refines_witness:
  "fst (rb_run example_tr [Ring_write [1, 2, 3], Ring_commit 2, Ring_write [4], Ring_commit 1, Ring_consume 2, Ring_consume 9]
     (rb_new (\<lambda>n. Some (7, 0x10000)) 1, \<lambda>_. 0)) = [Written, Committed 2, Written, Committed 1, Consumed [1, 2], Consumed [4]]"
proof -
  let ?cs = "[Ring_write [1, 2, 3], Ring_commit 2, Ring_write [4], Ring_commit 1, Ring_consume 2, Ring_consume 9]" and ?f = "cells example_tr 0x10000 4096 (\<lambda>_. 0)"
  have p: "log2 1 = 0" "is_pow2 1" by (simp_all add: log2_def is_pow2_def)
  have "length ?f = 4096" by simp
  then have "ring_ops_ok ?cs ([], ?f)" "fst (ring_spec_run ?cs ([], ?f)) = [Written, Committed 2, Written, Committed 1, Consumed [1, 2], Consumed [4]]"
    by (simp_all add: Let_def)
  then show ?thesis
    using ring_buffer_refines [of 1 "\<lambda>n. Some (7, 0x10000)" 7 "0x10000" example_tr "\<lambda>_. 0" ?cs] p example_mirrored by auto
qed


lemma ring_area_page:
  assumes "va_kind x = Ring sz" "tree_inv (va_mapped x) bs" "fa_wf bs" "Suc k \<le> frames_left bs" "unat offset < 2 ^ 54"
  shows "\<exists>p n bs'. va_get_page offset True x bs = Inr ((True, p), x\<lparr>va_mapped := Some n\<rparr>, bs') \<and> tree_inv (Some n) bs' \<and> fa_wf bs' \<and> k \<le> frames_left bs' \<and>
    (\<forall>j. frame_of (Some n) j = (if upper 0 j = upper 0 (if offset > sz then offset - sz else offset) then Some p else frame_of (va_mapped x) j)) \<and>
    (frame_of (va_mapped x) (if offset > sz then offset - sz else offset) = None \<or> frame_of (va_mapped x) (if offset > sz then offset - sz else offset) = Some p)"
proof -
  let ?key = "if offset > sz then offset - sz else offset"
  have "unat ?key < 2 ^ 54" using assms(5) by (auto simp: unat_sub_no_wrap word_less_nat_alt)
  then have key: "upper 7 ?key = 0" by (rule upper_7_zero)
  have left: "0 < frames_left bs" using assms(4) by simp
  obtain p n bs' where r: "page_tree_find_or_add (va_mapped x) ?key bs = Inr (Some p, n, bs')" "tree_inv (Some n) bs'" "fa_wf bs'" "frames_left bs \<le> Suc (frames_left bs')"
    "\<forall>k. frame_of (Some n) k = (if upper 0 k = upper 0 ?key then Some p else frame_of (va_mapped x) k)" "frame_of (va_mapped x) ?key = None \<or> frame_of (va_mapped x) ?key = Some p"
    by (rule page_tree_step [OF assms(2,3) left key]) (erule that; (assumption | blast | simp))
  have "va_get_page offset True x bs = Inr ((True, p), x\<lparr>va_mapped := Some n\<rparr>, bs')"
    using r(1) assms(1) by (simp add: va_get_page_def ring_get_page_def open_get_page_def del: if_split)
  then show ?thesis using r(2-6) assms(4) by (intro exI conjI) (assumption | simp)+
qed


lemma ring_area_pages:
  assumes wf: "fa_wf bs" "3 \<le> frames_left bs" and b: "12 \<le> b" "b < 31"
  obtains pl pm pz x1 x2 x3 b1 b2 b3 where "va_get_page (2 ^ b - 0x1000) True (va_ring (2 ^ b) flags) bs = Inr ((True, pl), x1, b1)"
    "va_get_page (2 ^ b) True x1 b1 = Inr ((True, pm), x2, b2)" "va_get_page 0 True x2 b2 = Inr ((True, pz), x3, b3)"
    "pm \<noteq> pz" "pl AND 0xfff = 0" "pm AND 0xfff = 0" "pz AND 0xfff = 0"
proof -
  let ?sz = "2 ^ b :: u64" and ?x = "va_ring (2 ^ b) flags"
  have pow: "unat ?sz = 2 ^ b" using b by (simp add: unat_exp_u64)
  have le: "(2 :: nat) ^ 12 \<le> 2 ^ b" "(2 :: nat) ^ b < 2 ^ 31" using power_increasing [of 12 b "2 :: nat"] power_strict_increasing [of b 31 "2 :: nat"] b by simp_all
  have last: "unat (?sz - 0x1000) = 2 ^ b - 4096" using pow le by (simp add: unat_sub_no_wrap)
  have K: "unat (?sz - 0x1000) < 2 ^ 54" "unat ?sz < 2 ^ 54" "unat (0 :: u64) < 2 ^ 54" using pow le last by simp_all
  have o: "\<not> ?sz < ?sz - 0x1000" using pow le last by (simp add: word_less_nat_alt)
  have x: "va_kind ?x = Ring ?sz" "va_mapped ?x = None" by (simp_all add: va_ring_def va_new_def)
  obtain pl n1 b1 where 1: "va_get_page (?sz - 0x1000) True ?x bs = Inr ((True, pl), ?x\<lparr>va_mapped := Some n1\<rparr>, b1)" "tree_inv (Some n1) b1" "fa_wf b1" "2 \<le> frames_left b1"
      "\<forall>j. frame_of (Some n1) j = (if upper 0 j = upper 0 (?sz - 0x1000) then Some pl else None)"
    using ring_area_page [OF x(1) _ wf(1), of 2 "?sz - 0x1000"] wf(2) K(1) o x(2) by (auto simp: tree_inv_None frame_of_None)
  let ?x1 = "?x\<lparr>va_mapped := Some n1\<rparr>"
  obtain pm n2 b2 where 2: "va_get_page ?sz True ?x1 b1 = Inr ((True, pm), ?x1\<lparr>va_mapped := Some n2\<rparr>, b2)" "tree_inv (Some n2) b2" "fa_wf b2" "1 \<le> frames_left b2"
      "\<forall>j. frame_of (Some n2) j = (if upper 0 j = upper 0 ?sz then Some pm else frame_of (Some n1) j)"
    using ring_area_page [of ?x1 ?sz b1 1 ?sz] 1 K(2) x by auto
  let ?x2 = "?x1\<lparr>va_mapped := Some n2\<rparr>"
  obtain pz n3 b3 where 3: "va_get_page 0 True ?x2 b2 = Inr ((True, pz), ?x2\<lparr>va_mapped := Some n3\<rparr>, b3)" "tree_inv (Some n3) b3"
      "\<forall>j. frame_of (Some n3) j = (if upper 0 j = upper 0 0 then Some pz else frame_of (Some n2) j)"
    using ring_area_page [of ?x2 ?sz b2 0 0] 2 x by auto
  have "(2 :: nat) ^ b div 4096 \<noteq> 0" using le by (simp add: div_eq_0_iff)
  then have ne: "upper 0 ?sz \<noteq> upper 0 0" by (simp add: upper_0_iff pow)
  have f: "frame_of (Some n3) 0 = Some pz" "frame_of (Some n3) ?sz = Some pm" "frame_of (Some n1) (?sz - 0x1000) = Some pl" using 1(5) 2(5) 3(3) ne by simp_all
  have "pm \<noteq> pz" using f(1,2) ne 3(2) unfolding tree_inv_def by metis
  moreover have "p AND 0xfff = 0" if F: "frame_of t k = Some p" for t k p
  proof -
    obtain e where "p = e AND NOT 0xfff" using F by (auto simp: frame_of_def split: option.splits if_splits)
    then show ?thesis by (simp add: and.assoc)
  qed
  ultimately show thesis using 1(1) 2(1) 3(1) f by (intro that) auto
qed

text \<open>C11. The kernel does not map a ring twice: \<open>vm_area_ring::get_page\<close> folds back only the offsets above the size of the buffer, so the first page of the second half is a
  page of its own. For every buffer of 2^12 to 2^30 bytes whose counters are one byte before the end of the area, two bytes written and committed across the end
  are not read back when they are consumed one at a time: the second read returns what the first page of the area held before.\<close>

theorem ring_area_loses_data:
  assumes "fa_wf bs" "3 \<le> frames_left bs" "12 \<le> b" "b < 31"
    and rb: "rb_bits rb = of_nat b" "rb_read rb = 2 ^ b - 1" "rb_write rb = 2 ^ b - 1"
  shows "\<exists>pl pm pz x1 x2 x3 b1 b2 b3. va_get_page (2 ^ b - 0x1000) True (va_ring (2 ^ b) flags) bs = Inr ((True, pl), x1, b1) \<and>
     va_get_page (2 ^ b) True x1 b1 = Inr ((True, pm), x2, b2) \<and> va_get_page 0 True x2 b2 = Inr ((True, pz), x3, b3) \<and> pm \<noteq> pz \<and>
     (\<forall>tr mem. tr (rb_data rb + (2 ^ b - 1)) = pl + 0xfff \<longrightarrow> tr (rb_data rb + 2 ^ b) = pm \<longrightarrow> tr (rb_data rb) = pz \<longrightarrow>
        fst (rb_run tr [Ring_write [v, w], Ring_commit 2, Ring_consume 1, Ring_consume 1] (rb, mem)) =
          [Written, Committed 2, Consumed [v], Consumed [mem pz]])"
proof -
  obtain pl pm pz x1 x2 x3 b1 b2 b3 where P: "va_get_page (2 ^ b - 0x1000) True (va_ring (2 ^ b) flags) bs = Inr ((True, pl), x1, b1)"
    "va_get_page (2 ^ b) True x1 b1 = Inr ((True, pm), x2, b2)" "va_get_page 0 True x2 b2 = Inr ((True, pz), x3, b3)"
    "pm \<noteq> pz" "pl AND 0xfff = 0" "pm AND 0xfff = 0" "pz AND 0xfff = 0" by (rule ring_area_pages [OF assms(1-4)])
  have al: "unat p mod 4096 = 0" if "p AND 0xfff = 0" for p :: u64
  proof -
    have "take_bit 12 p = 0" using that by (simp add: take_bit_eq_mask mask_eq_exp_minus_1)
    then have "unat (take_bit 12 p) = 0" by simp
    then show ?thesis by (simp add: unsigned_take_bit_eq take_bit_nat_def)
  qed
  have "unat (pl + 0xfff) mod 4096 = 4095" using unat_add_mod_pow2 [of 12 pl "0xfff"] al [OF P(5)] mod_add_left_eq [of "unat pl" 4096 4095] by simp
  then have d: "pl + 0xfff \<noteq> pm" "pl + 0xfff \<noteq> pz" using al [OF P(6)] al [OF P(7)] by auto
  have le: "(2 :: nat) ^ 12 \<le> 2 ^ b" using assms(3) by (intro power_increasing) simp_all
  have pow: "unat (2 ^ b :: u64) = 2 ^ b" using assms(4) by (simp add: unat_exp_u64)
  have bits: "unat (rb_bits rb) = b" using rb(1) assms(4) by (simp add: unat_of_nat)
  have u1: "unat (2 ^ b - 1 :: u64) = 2 ^ b - 1" using pow le by (simp add: unat_sub_no_wrap)
  have g: "rb_get r (2 ^ b - 1) = rb_data rb + (2 ^ b - 1)" "rb_get r (2 ^ b) = rb_data rb" if "rb_bits r = rb_bits rb" "rb_data r = rb_data rb" for r
    using rb_get_nat [of r] that bits assms(4) u1 pow by simp_all
  have sz: "rb_size r = 2 ^ b" if "rb_bits r = rb_bits rb" for r
    using that rb_size_nat [of r] bits assms(4) pow by (simp add: word_eq_unat)
  have big: "\<not> (2 ^ b :: u64) < 2" using le pow by (simp add: word_less_nat_alt)
  show ?thesis
    by (intro exI conjI allI impI) (rule P | use d P(4) in \<open>simp add: rb_write_ptr_def rb_commit_def rb_consume_def rb_free_def rb_used_def rb(2,3) sz g Let_def big mem_load_def\<close>)+
qed

theorem ring_area_loses_data_witness:
  "\<exists>pl pm pz x1 x2 x3 b1 b2 b3. va_get_page 0 True (va_ring 0x1000 0) [fb_example] = Inr ((True, pl), x1, b1) \<and>
     va_get_page 0x1000 True x1 b1 = Inr ((True, pm), x2, b2) \<and> va_get_page 0 True x2 b2 = Inr ((True, pz), x3, b3) \<and> pm \<noteq> pz \<and>
     (let tr = (\<lambda>v. if v = 0x10000fff then pl + 0xfff else if v = 0x10001000 then pm else pz) in
      fst (rb_run tr [Ring_write [5, 6], Ring_commit 2, Ring_consume 1, Ring_consume 1]
        (\<lparr>rb_bits = 12, rb_write = 0xfff, rb_read = 0xfff, rb_vma = 7, rb_data = 0x10000000\<rparr>, \<lambda>_. 0)) =
          [Written, Committed 2, Consumed [5], Consumed [0]])"
proof -
  have "3 \<le> frames_left [fb_example]" using fb_example_left by simp
  then obtain pl pm pz x1 x2 x3 b1 b2 b3 where P: "va_get_page 0 True (va_ring 0x1000 0) [fb_example] = Inr ((True, pl), x1, b1)"
      "va_get_page 0x1000 True x1 b1 = Inr ((True, pm), x2, b2)" "va_get_page 0 True x2 b2 = Inr ((True, pz), x3, b3)" "pm \<noteq> pz"
    and R: "\<forall>tr mem. tr 0x10000fff = pl + 0xfff \<longrightarrow> tr 0x10001000 = pm \<longrightarrow> tr 0x10000000 = pz \<longrightarrow>
        fst (rb_run tr [Ring_write [5, 6], Ring_commit 2, Ring_consume 1, Ring_consume 1]
          (\<lparr>rb_bits = 12, rb_write = 0xfff, rb_read = 0xfff, rb_vma = 7, rb_data = 0x10000000\<rparr>, mem)) =
          [Written, Committed 2, Consumed [5], Consumed [mem pz]]"
    using ring_area_loses_data [OF fb_example_wf, of 12 "\<lparr>rb_bits = 12, rb_write = 0xfff, rb_read = 0xfff, rb_vma = 7, rb_data = 0x10000000\<rparr>" 0 5 6]
    by (simp del: rb_run.simps) blast
  show ?thesis using P R [rule_format, of "\<lambda>v. if v = 0x10000fff then pl + 0xfff else if v = 0x10001000 then pm else pz" "\<lambda>_. 0"]
    by (intro exI conjI) (assumption | simp add: Let_def del: rb_run.simps)+
qed

end
