(* ===== verification/Byte_Pipe.thy ===== *)
theory Byte_Pipe
  imports J6_Prelude
begin

text \<open>
  Byte queues in a flat memory: slices of a memory and stores into it, and the contract
  \<open>fifo_pipe\<close> that a byte queue such as \<open>util::bip_buffer\<close>
  offers to its users: what is taken out is what was put in, in order.
\<close>

definition store_at :: "'a list \<Rightarrow> nat \<Rightarrow> 'a list \<Rightarrow> 'a list" where
  "store_at mem off bs = take off mem @ bs @ drop (off + length bs) mem"

definition slice :: "'a list \<Rightarrow> nat \<Rightarrow> nat \<Rightarrow> 'a list" where
  "slice mem off n = take n (drop off mem)"

datatype 'a pipe_op = Put "'a list" | Get nat

text \<open>
  A run of a list of operations collects the elements accepted by the pipe and the elements
  delivered by it.
\<close>

fun pipe_run ::
  "('a list \<Rightarrow> 's \<Rightarrow> (nat \<times> 's) res) \<Rightarrow> (nat \<Rightarrow> 's \<Rightarrow> ('a list \<times> 's) res) \<Rightarrow>
   'a pipe_op list \<Rightarrow> 's \<Rightarrow> ('a list \<times> 'a list \<times> 's) res" where
  "pipe_run put get [] s = Inr ([], [], s)"
| "pipe_run put get (Put bs # ops) s =
     bindE (put bs s) (\<lambda>(n, s1).
     bindE (pipe_run put get ops s1) (\<lambda>(acc, out, s2).
     Inr (take n bs @ acc, out, s2)))"
| "pipe_run put get (Get k # ops) s =
     bindE (get k s) (\<lambda>(bs, s1).
     bindE (pipe_run put get ops s1) (\<lambda>(acc, out, s2).
     Inr (acc, bs @ out, s2)))"

section \<open>Slices of a memory\<close>

lemma length_slice [simp]: "off + n \<le> length mem \<Longrightarrow> length (slice mem off n) = n"
  by (simp add: slice_def)

lemma slice_0 [simp]: "slice mem off 0 = []"
  by (simp add: slice_def)

lemma slice_append: "off' = off + n \<Longrightarrow> slice mem off n @ slice mem off' k = slice mem off (n + k)"
  by (simp add: slice_def take_add add.commute [of off n])

lemma drop_slice [simp]: "drop k (slice mem off n) = slice mem (off + k) (n - k)"
  by (simp add: slice_def drop_take add.commute)

lemma take_slice [simp]: "take k (slice mem off n) = slice mem off (min k n)"
  by (simp add: slice_def min.commute)

lemma length_store_at [simp]: "off + length bs \<le> length mem \<Longrightarrow> length (store_at mem off bs) = length mem"
  by (simp add: store_at_def)

lemma slice_store_at_same:
  "off + n \<le> length mem \<Longrightarrow> length bs \<le> n \<Longrightarrow>
     slice (store_at mem off bs) off n = bs @ drop (length bs) (slice mem off n)"
  by (simp add: slice_def store_at_def add.commute drop_take)

lemma slice_store_at_before:
  "off' + n \<le> off \<Longrightarrow> off + length bs \<le> length mem \<Longrightarrow> slice (store_at mem off bs) off' n = slice mem off' n"
  by (simp add: slice_def store_at_def) (simp add: drop_take min_absorb1)

lemma slice_store_at_after:
  "off + length bs \<le> off' \<Longrightarrow> off + length bs \<le> length mem \<Longrightarrow>
     slice (store_at mem off bs) off' n = slice mem off' n"
  by (simp add: slice_def store_at_def drop_append)

section \<open>The contract of a pipe\<close>

locale fifo_pipe =
  fixes ok :: "'s \<Rightarrow> bool" and queue :: "'s \<Rightarrow> 'a list"
    and put :: "'a list \<Rightarrow> 's \<Rightarrow> (nat \<times> 's) res" and get :: "nat \<Rightarrow> 's \<Rightarrow> ('a list \<times> 's) res"
  assumes put_law: "ok s \<Longrightarrow> \<exists>n s'. put bs s = Inr (n, s') \<and> ok s' \<and> n \<le> length bs \<and>
      queue s' = queue s @ take n bs"
    and get_law: "ok s \<Longrightarrow> \<exists>out s'. get k s = Inr (out, s') \<and> ok s' \<and> length out \<le> k \<and>
      queue s = out @ queue s'"
begin

text \<open>Every run succeeds, and the elements delivered followed by those still queued are the
  elements queued at the start followed by those accepted.\<close>

lemma run_fifo:
  assumes "ok s"
  shows "\<exists>acc out s'. pipe_run put get ops s = Inr (acc, out, s') \<and> ok s' \<and>
     queue s @ acc = out @ queue s'"
  using assms
proof (induction ops arbitrary: s)
  case Nil
  then show ?case by simp
next
  case (Cons c ops)
  show ?case
  proof (cases c)
    case (Put bs)
    obtain n s1 where 1: "put bs s = Inr (n, s1)" "ok s1" "queue s1 = queue s @ take n bs"
      using put_law [OF Cons.prems] by blast
    obtain acc out s2 where "pipe_run put get ops s1 = Inr (acc, out, s2)" "ok s2"
        "queue s1 @ acc = out @ queue s2"
      using Cons.IH [OF 1(2)] by blast
    with 1 show ?thesis by (simp add: Put)
  next
    case (Get k)
    obtain bs s1 where 1: "get k s = Inr (bs, s1)" "ok s1" "queue s = bs @ queue s1"
      using get_law [OF Cons.prems] by blast
    obtain acc out s2 where "pipe_run put get ops s1 = Inr (acc, out, s2)" "ok s2"
        "queue s1 @ acc = out @ queue s2"
      using Cons.IH [OF 1(2)] by blast
    with 1 show ?thesis by (simp add: Get)
  qed
qed

text \<open>From an empty pipe, what is delivered is a prefix of what was accepted.\<close>

lemma run_from_empty:
  assumes "ok s" "queue s = []" "pipe_run put get ops s = Inr (acc, out, s')"
  shows "acc = out @ queue s'"
  using run_fifo [OF assms(1), of ops] assms(2,3) by auto

end

end
