(* ===== verification/Bip_Buffer.thy ===== *)
theory Bip_Buffer
  imports Byte_Pipe
begin

text \<open>
  The bipartite circular buffer \<open>util::bip_buffer\<close> of
  \<open>src/src/libraries/util/bip_buffer.cpp\<close>, the byte queue below \<open>j6::channel\<close>.

  Committed data lies in region A and, once A has reached the end of the buffer, in region B
  at its start; R is the region of the write in progress. The buffer stands for the queue
  \<open>bip_contents\<close>: the bytes of A followed by those of B. \<open>bip_ok\<close> is the invariant.
  Producer and consumer calls may interleave: nothing below assumes that a reservation is
  committed before the next \<open>consume\<close>.
\<close>

section \<open>State\<close>

record bip_buffer =
  m_start_a :: u64
  m_start_b :: u64
  m_start_r :: u64
  m_size_a :: u64
  m_size_b :: u64
  m_size_r :: u64
  m_buffer_size :: u64
  m_buffer :: "u8 list"

section \<open>Operations\<close>

text \<open>
  The constructor is given the bytes of the header and the buffer together, and the bytes
  that follow the header; \<open>m_start_r\<close> is left uninitialised there, so its first value is
  the argument \<open>garbage\<close>.
\<close>

definition bip_sizeof :: u64 where
  "bip_sizeof = 64"

definition bip_new :: "u64 \<Rightarrow> u64 \<Rightarrow> u8 list \<Rightarrow> bip_buffer" where
  "bip_new garbage sz mem =
     \<lparr>m_start_a = 0, m_start_b = 0, m_start_r = garbage, m_size_a = 0, m_size_b = 0, m_size_r = 0,
      m_buffer_size = sz - bip_sizeof, m_buffer = mem\<rparr>"

definition bip_size :: "bip_buffer \<Rightarrow> u64" where
  "bip_size b = m_size_a b + m_size_b b"

definition bip_free_space :: "bip_buffer \<Rightarrow> u64" where
  "bip_free_space b = m_buffer_size b - bip_size b"

definition write_available :: "bip_buffer \<Rightarrow> u64" where
  "write_available b =
     (if m_size_r b \<noteq> 0 then 0
      else if m_size_b b \<noteq> 0 then m_start_a b - m_start_b b - m_size_b b
      else let remaining = m_buffer_size b - m_start_a b - m_size_a b in
        if m_start_a b > remaining then m_start_a b else remaining)"

text \<open>The area is the offset of its first byte in \<open>m_buffer\<close>, \<open>None\<close> for a null pointer.\<close>

definition bip_reserve :: "u64 \<Rightarrow> bip_buffer \<Rightarrow> u64 \<times> u64 option \<times> bip_buffer" where
  "bip_reserve sz b =
     (if m_size_r b \<noteq> 0 then (0, None, b)
      else
        let (remaining, start_r) =
          (if m_size_b b \<noteq> 0
           then (m_start_a b - m_start_b b - m_size_b b, m_start_b b + m_size_b b)
           else
             let remaining = m_buffer_size b - m_start_a b - m_size_a b in
             if remaining < sz \<and> m_start_a b > remaining then (m_start_a b, 0)
             else (remaining, m_start_a b + m_size_a b));
          b1 = b\<lparr>m_start_r := start_r\<rparr> in
        if remaining = 0 then (0, None, b1)
        else let size_r = (if remaining < sz then remaining else sz) in
          (size_r, Some start_r, b1\<lparr>m_size_r := size_r\<rparr>))"

definition bip_commit :: "u64 \<Rightarrow> bip_buffer \<Rightarrow> bip_buffer res" where
  "bip_commit sz b =
     bindE (guardE Assert_failed (sz \<le> m_size_r b)) (\<lambda>_.
     bindE (if m_size_r b \<noteq> 0 then
              if m_start_r b = m_start_a b + m_size_a b
              then Inr (b\<lparr>m_size_a := m_size_a b + sz\<rparr>)
              else bindE (guardE Assert_failed (m_start_r b = m_start_b b + m_size_b b)) (\<lambda>_.
                   Inr (b\<lparr>m_size_b := m_size_b b + sz\<rparr>))
            else Inr b) (\<lambda>b1.
     Inr (b1\<lparr>m_start_r := 0, m_size_r := 0\<rparr>)))"

definition bip_get_block :: "bip_buffer \<Rightarrow> u64 \<times> u64 option" where
  "bip_get_block b = (m_size_a b, if m_size_a b \<noteq> 0 then Some (m_start_a b) else None)"

definition bip_consume :: "u64 \<Rightarrow> bip_buffer \<Rightarrow> bip_buffer res" where
  "bip_consume sz b =
     bindE (guardE Assert_failed (sz \<le> m_size_a b)) (\<lambda>_.
     if sz \<ge> m_size_a b then
       if m_size_r b \<noteq> 0 \<and> m_start_r b = m_start_a b + m_size_a b
       then Inr (b\<lparr>m_start_a := m_start_r b, m_size_a := 0\<rparr>)
       else Inr (b\<lparr>m_size_a := m_size_b b, m_start_a := m_start_b b, m_size_b := 0, m_start_b := 0\<rparr>)
     else Inr (b\<lparr>m_size_a := m_size_a b - sz, m_start_a := m_start_a b + sz\<rparr>))"

text \<open>What the caller does with an area: it stores bytes from its first byte on.\<close>

definition bip_fill :: "u8 list \<Rightarrow> bip_buffer \<Rightarrow> bip_buffer" where
  "bip_fill bs b = b\<lparr>m_buffer := store_at (m_buffer b) (unat (m_start_r b)) bs\<rparr>"

text \<open>
  The calls of producer and consumer, one at a time in any order (each holds the lock), with
  the bytes that a call commits and the bytes that it consumes. \<open>Store\<close> is the producer
  writing through the pointer it was given; outside the reserved area that is out of bounds.
\<close>

datatype bip_call = Reserve u64 | Store "u8 list" | Commit u64 | Consume u64

fun bip_step :: "bip_call \<Rightarrow> bip_buffer \<Rightarrow> (u8 list \<times> u8 list \<times> bip_buffer) res" where
  "bip_step (Reserve n) b = Inr ([], [], snd (snd (bip_reserve n b)))"
| "bip_step (Store bs) b =
     (if length bs \<le> unat (m_size_r b) then Inr ([], [], bip_fill bs b) else Inl Out_of_bounds)"
| "bip_step (Commit n) b =
     bindE (bip_commit n b) (\<lambda>b'.
     Inr (slice (m_buffer b) (unat (m_start_r b)) (unat n), [], b'))"
| "bip_step (Consume n) b =
     bindE (bip_consume n b) (\<lambda>b'.
     Inr ([], slice (m_buffer b) (unat (m_start_a b)) (unat n), b'))"

fun bip_trace :: "bip_call list \<Rightarrow> bip_buffer \<Rightarrow> (u8 list \<times> u8 list \<times> bip_buffer) res" where
  "bip_trace [] b = Inr ([], [], b)"
| "bip_trace (c # cs) b =
     bindE (bip_step c b) (\<lambda>(i, out, b1).
     bindE (bip_trace cs b1) (\<lambda>(is, outs, b2).
     Inr (i @ is, out @ outs, b2)))"

text \<open>
  A whole write (reserve, fill what was granted, commit it) and a whole read (take the block,
  copy at most \<open>k\<close> bytes of it, consume those).
\<close>

definition bip_send :: "u8 list \<Rightarrow> bip_buffer \<Rightarrow> (nat \<times> bip_buffer) res" where
  "bip_send bs b =
     (case bip_reserve (of_nat (length bs)) b of (n, area, b1) \<Rightarrow>
        if area = None then Inr (0, b1)
        else bindE (bip_commit n (bip_fill (take (unat n) bs) b1)) (\<lambda>b2. Inr (unat n, b2)))"

definition bip_receive :: "nat \<Rightarrow> bip_buffer \<Rightarrow> (u8 list \<times> bip_buffer) res" where
  "bip_receive k b =
     (case bip_get_block b of
        (n, None) \<Rightarrow> Inr ([], b)
      | (n, Some area) \<Rightarrow>
          let m = min k (unat n) in
          bindE (bip_consume (of_nat m) b) (\<lambda>b1. Inr (slice (m_buffer b) (unat area) m, b1)))"

section \<open>Abstraction and invariant\<close>

definition bip_contents :: "bip_buffer \<Rightarrow> u8 list" where
  "bip_contents b = slice (m_buffer b) (unat (m_start_a b)) (unat (m_size_a b)) @
     slice (m_buffer b) (unat (m_start_b b)) (unat (m_size_b b))"

definition bip_pending :: "bip_buffer \<Rightarrow> u8 list" where
  "bip_pending b = slice (m_buffer b) (unat (m_start_r b)) (unat (m_size_r b))"

definition bip_reserved_ok :: "bip_buffer \<Rightarrow> bool" where
  "bip_reserved_ok b \<longleftrightarrow> m_size_r b = 0 \<or>
     unat (m_start_r b) = unat (m_start_a b) + unat (m_size_a b) \<and> m_size_b b = 0 \<and>
       unat (m_start_r b) + unat (m_size_r b) \<le> length (m_buffer b) \<or>
     unat (m_start_r b) = unat (m_size_b b) \<and> unat (m_start_r b) + unat (m_size_r b) \<le> unat (m_start_a b)"

text \<open>What the calls ask of their callers.\<close>

fun bip_allowed :: "bip_call \<Rightarrow> bip_buffer \<Rightarrow> bool" where
  "bip_allowed (Reserve n) b = True"
| "bip_allowed (Store bs) b = (length bs \<le> unat (m_size_r b))"
| "bip_allowed (Commit n) b = (n \<le> m_size_r b)"
| "bip_allowed (Consume n) b = (n \<le> m_size_a b)"

definition bip_ok :: "bip_buffer \<Rightarrow> bool" where
  "bip_ok b \<longleftrightarrow>
     length (m_buffer b) = unat (m_buffer_size b) \<and> m_start_b b = 0 \<and>
     unat (m_start_a b) + unat (m_size_a b) \<le> length (m_buffer b) \<and>
     unat (m_size_b b) \<le> unat (m_start_a b) \<and> bip_reserved_ok b"

text \<open>Region A is empty only while region B is, and then at the start of the buffer or with a
  write in progress right behind it.\<close>

definition bip_live :: "bip_buffer \<Rightarrow> bool" where
  "bip_live b \<longleftrightarrow> (m_size_a b = 0 \<longrightarrow> m_size_b b = 0 \<and>
     (m_start_a b = 0 \<or> m_size_r b \<noteq> 0 \<and> m_start_r b = m_start_a b))"

section \<open>Operations on well-formed buffers\<close>

lemma bip_new_ok:
  assumes "unat bip_sizeof \<le> unat sz" "length mem = unat sz - unat bip_sizeof"
  shows "bip_ok (bip_new g sz mem)" "bip_contents (bip_new g sz mem) = []"
    "bip_pending (bip_new g sz mem) = []"
  using assms by (simp_all add: bip_ok_def bip_reserved_ok_def bip_new_def bip_contents_def
      bip_pending_def word_nat)

lemmas bip_defs = bip_ok_def bip_reserved_ok_def bip_contents_def bip_pending_def

text \<open>The no-wrap facts of the invariant, in the form \<open>simp\<close> uses.\<close>

lemma bip_ok_nat:
  assumes "bip_ok b"
  shows "unat (m_start_a b + m_size_a b) = unat (m_start_a b) + unat (m_size_a b)"
    "unat (m_buffer_size b - m_start_a b - m_size_a b) =
       unat (m_buffer_size b) - unat (m_start_a b) - unat (m_size_a b)"
    "unat (m_start_a b - m_start_b b - m_size_b b) = unat (m_start_a b) - unat (m_size_b b)"
    "m_start_b b + m_size_b b = m_size_b b"
proof -
  have "unat (m_start_a b) + unat (m_size_a b) \<le> unat (m_buffer_size b)"
    using assms by (simp add: bip_ok_def)
  then have le: "unat (m_start_a b) + unat (m_size_a b) < 2 ^ 64"
    using order_le_less_trans unsigned_less [of "m_buffer_size b"] by fastforce
  then show 1: "unat (m_start_a b + m_size_a b) = unat (m_start_a b) + unat (m_size_a b)"
    by (simp add: unat_add_no_wrap)
  show "unat (m_buffer_size b - m_start_a b - m_size_a b) =
       unat (m_buffer_size b) - unat (m_start_a b) - unat (m_size_a b)"
    using assms by (simp add: bip_ok_def unat_sub_sub_no_wrap unat_sub_no_wrap)
  show "unat (m_start_a b - m_start_b b - m_size_b b) = unat (m_start_a b) - unat (m_size_b b)"
    using assms by (simp add: bip_ok_def unat_sub_sub_no_wrap unat_sub_no_wrap)
  show "m_start_b b + m_size_b b = m_size_b b" using assms by (simp add: bip_ok_def)
qed

lemma bip_reserved_after_A:
  assumes "bip_ok b" "m_size_r b \<noteq> 0" "m_start_r b = m_start_a b + m_size_a b"
  shows "m_size_b b = 0" "unat (m_start_r b) + unat (m_size_r b) \<le> length (m_buffer b)"
proof -
  have "0 < unat (m_size_r b)" using assms(2) by (simp add: unat_gt_0)
  moreover have "unat (m_start_r b) = unat (m_start_a b) + unat (m_size_a b)"
    unfolding assms(3) by (rule bip_ok_nat(1) [OF assms(1)])
  ultimately show "m_size_b b = 0" "unat (m_start_r b) + unat (m_size_r b) \<le> length (m_buffer b)"
    using assms(1,2) by (auto simp: bip_ok_def bip_reserved_ok_def)
qed

lemma bip_reserve_cases:
  assumes ok: "bip_ok b" and r: "m_size_r b = 0"
  obtains rem start where
    "bip_reserve sz b = (if rem = 0 then (0, None, b\<lparr>m_start_r := start\<rparr>)
       else ((if rem < sz then rem else sz), Some start, b\<lparr>m_start_r := start, m_size_r := (if rem < sz then rem else sz)\<rparr>))"
    "unat start = unat (m_start_a b) + unat (m_size_a b) \<and> m_size_b b = 0 \<and>
       unat start + unat rem \<le> length (m_buffer b) \<or>
     unat start = unat (m_size_b b) \<and> unat start + unat rem \<le> unat (m_start_a b)"
    "sz \<le> write_available b \<Longrightarrow> sz \<le> rem" "sz \<noteq> 0 \<Longrightarrow> rem = 0 \<longleftrightarrow> write_available b = 0"
proof -
  define left where "left = m_buffer_size b - m_start_a b - m_size_a b"
  note n = bip_ok_nat [OF ok, folded left_def]
  have len: "length (m_buffer b) = unat (m_buffer_size b)"
    "unat (m_start_a b) + unat (m_size_a b) \<le> unat (m_buffer_size b)"
    "unat (m_size_b b) \<le> unat (m_start_a b)" using ok by (simp_all add: bip_ok_def)
  consider (B) "m_size_b b \<noteq> 0" | (F) "m_size_b b = 0" "left < sz" "m_start_a b > left"
    | (A) "m_size_b b = 0" "\<not> (left < sz \<and> m_start_a b > left)" by blast
  then show thesis
  proof cases
    case B
    show thesis
      by (rule that [of "m_start_a b - m_start_b b - m_size_b b" "m_start_b b + m_size_b b"])
        (use B r n len in \<open>auto simp: bip_reserve_def write_available_def Let_def left_def [symmetric]\<close>)
  next
    case F
    show thesis
      by (rule that [of "m_start_a b" 0])
        (use F r n len in \<open>simp_all add: bip_reserve_def write_available_def Let_def left_def [symmetric]\<close>)
  next
    case A
    have w: "write_available b = (if m_start_a b > left then m_start_a b else left)"
      using r A(1) by (simp add: write_available_def Let_def left_def [symmetric])
    show thesis
    proof (rule that [of left "m_start_a b + m_size_a b"])
      show "bip_reserve sz b = (if left = 0 then (0, None, b\<lparr>m_start_r := m_start_a b + m_size_a b\<rparr>)
         else ((if left < sz then left else sz), Some (m_start_a b + m_size_a b),
           b\<lparr>m_start_r := m_start_a b + m_size_a b, m_size_r := (if left < sz then left else sz)\<rparr>))"
        using A r by (auto simp: bip_reserve_def Let_def left_def [symmetric])
      show "sz \<le> left" if "sz \<le> write_available b" using that A(2) w by (auto split: if_splits)
      show "left = 0 \<longleftrightarrow> write_available b = 0" if "sz \<noteq> 0"
        using that w A(2) by (auto simp: word_neq_0_conv)
    qed (use A(1) n len in simp)
  qed
qed

lemma bip_reserve_busy: "m_size_r b \<noteq> 0 \<Longrightarrow> bip_reserve sz b = (0, None, b)"
  by (simp add: bip_reserve_def)

lemma bip_reserve_ok:
  assumes "bip_ok b" "bip_reserve sz b = (n, area, b')"
  shows "bip_ok b'" and "bip_contents b' = bip_contents b"
proof -
  have "bip_ok b' \<and> bip_contents b' = bip_contents b"
  proof (cases "m_size_r b = 0")
    case True
    obtain rem start where r: "bip_reserve sz b = (if rem = 0 then (0, None, b\<lparr>m_start_r := start\<rparr>)
         else ((if rem < sz then rem else sz), Some start, b\<lparr>m_start_r := start, m_size_r := (if rem < sz then rem else sz)\<rparr>))"
      and s: "unat start = unat (m_start_a b) + unat (m_size_a b) \<and> m_size_b b = 0 \<and>
         unat start + unat rem \<le> length (m_buffer b) \<or>
       unat start = unat (m_size_b b) \<and> unat start + unat rem \<le> unat (m_start_a b)"
      by (rule bip_reserve_cases [OF assms(1) True, of sz])
    have m: "unat (if rem < sz then rem else sz) \<le> unat rem" by (simp add: word_less_nat_alt)
    have b': "b' = (if rem = 0 then b\<lparr>m_start_r := start\<rparr> else b\<lparr>m_start_r := start, m_size_r := (if rem < sz then rem else sz)\<rparr>)"
      using assms(2) r by (auto split: if_splits)
    show ?thesis using assms(1) True s m by (auto simp: b' bip_defs)
  next
    case False
    then show ?thesis using assms by (simp add: bip_reserve_busy)
  qed
  then show "bip_ok b'" and "bip_contents b' = bip_contents b" by simp_all
qed

lemma bip_reserve_grant:
  assumes "bip_ok b" "m_size_r b = 0" "bip_reserve sz b = (n, area, b')"
  shows "m_size_r b' = n" "n \<le> sz" "sz \<noteq> 0 \<Longrightarrow> area = (if write_available b = 0 then None else Some (m_start_r b'))"
    "sz \<le> write_available b \<Longrightarrow> n = sz"
proof -
  obtain rem start where r: "bip_reserve sz b = (if rem = 0 then (0, None, b\<lparr>m_start_r := start\<rparr>)
       else ((if rem < sz then rem else sz), Some start, b\<lparr>m_start_r := start, m_size_r := (if rem < sz then rem else sz)\<rparr>))"
    and s: "sz \<le> write_available b \<Longrightarrow> sz \<le> rem" "sz \<noteq> 0 \<Longrightarrow> rem = 0 \<longleftrightarrow> write_available b = 0"
    by (rule bip_reserve_cases [OF assms(1,2), of sz]) (rule that)
  show "m_size_r b' = n" "n \<le> sz" "sz \<noteq> 0 \<Longrightarrow> area = (if write_available b = 0 then None else Some (m_start_r b'))"
    "sz \<le> write_available b \<Longrightarrow> n = sz"
    using assms(2,3) r s by (auto split: if_splits)
qed

lemma bip_commit_ok:
  assumes ok: "bip_ok b" and sz: "sz \<le> m_size_r b"
  obtains b' where "bip_commit sz b = Inr b'" "bip_ok b'" "m_size_r b' = 0"
    "bip_contents b' = bip_contents b @ take (unat sz) (bip_pending b)"
proof (cases "m_size_r b = 0")
  case True
  with sz have "sz = 0" by simp
  with True that [of "b\<lparr>m_start_r := 0, m_size_r := 0\<rparr>"] ok show thesis
    by (simp add: bip_commit_def bip_defs)
next
  case False
  have le: "unat sz \<le> unat (m_size_r b)" using sz by (simp add: word_le_nat_alt)
  have len: "length (m_buffer b) = unat (m_buffer_size b)" "m_start_b b = 0"
    "unat (m_start_a b) + unat (m_size_a b) \<le> unat (m_buffer_size b)"
    "unat (m_size_b b) \<le> unat (m_start_a b)" "bip_reserved_ok b" using ok by (simp_all add: bip_ok_def)
  have lt: "length (m_buffer b) < 2 ^ 64" unfolding len(1) by simp
  from len(5) False consider
      (A) "unat (m_start_r b) = unat (m_start_a b) + unat (m_size_a b)" "m_size_b b = 0"
         "unat (m_start_r b) + unat (m_size_r b) \<le> length (m_buffer b)"
    | (B) "unat (m_start_r b) = unat (m_size_b b)" "unat (m_start_r b) + unat (m_size_r b) \<le> unat (m_start_a b)"
    unfolding bip_reserved_ok_def by blast
  then show thesis
  proof cases
    case A
    then have a: "m_start_r b = m_start_a b + m_size_a b"
      by (intro word_eq_unat [THEN iffD2]) (simp add: bip_ok_nat [OF ok])
    have u: "unat (m_size_a b + sz) = unat (m_size_a b) + unat sz"
      using A le lt by (simp add: unat_add_no_wrap)
    have "bip_commit sz b = Inr (b\<lparr>m_size_a := m_size_a b + sz, m_start_r := 0, m_size_r := 0\<rparr>)"
      using False sz a by (simp add: bip_commit_def)
    then show thesis
      by (rule that) (use ok A le u len in \<open>auto simp: bip_defs min_absorb1 slice_append\<close>)
  next
    case B
    have ne: "m_start_r b \<noteq> m_start_a b + m_size_a b"
    proof
      assume "m_start_r b = m_start_a b + m_size_a b"
      then have "unat (m_start_r b) = unat (m_start_a b) + unat (m_size_a b)"
        by (simp add: bip_ok_nat [OF ok])
      with B False show False by (simp add: unat_gt_0 [symmetric])
    qed
    have u: "unat (m_size_b b + sz) = unat (m_size_b b) + unat sz"
      using B le by (intro unat_add_bounded [of _ _ "m_start_a b"]) simp
    have "bip_commit sz b = Inr (b\<lparr>m_size_b := m_size_b b + sz, m_start_r := 0, m_size_r := 0\<rparr>)"
      using False sz ne len(2) word_eq_unat [THEN iffD2, OF B(1)] by (simp add: bip_commit_def)
    then show thesis
      by (rule that) (use ok B le u len in \<open>auto simp: bip_defs min_absorb1 slice_append\<close>)
  qed
qed

lemma bip_commit_too_much: "\<not> sz \<le> m_size_r b \<Longrightarrow> bip_commit sz b = Inl Assert_failed"
  by (simp add: bip_commit_def)

lemma bip_consume_ok:
  assumes ok: "bip_ok b" and sz: "sz \<le> m_size_a b"
  obtains b' where "bip_consume sz b = Inr b'" "bip_ok b'" "m_size_r b' = m_size_r b"
    "bip_contents b' = drop (unat sz) (bip_contents b)" "bip_pending b' = bip_pending b"
proof -
  have le: "unat sz \<le> unat (m_size_a b)" using sz by (simp add: word_le_nat_alt)
  have len: "length (m_buffer b) = unat (m_buffer_size b)" "m_start_b b = 0"
    "unat (m_start_a b) + unat (m_size_a b) \<le> unat (m_buffer_size b)"
    "unat (m_size_b b) \<le> unat (m_start_a b)" "bip_reserved_ok b" using ok by (simp_all add: bip_ok_def)
  have la: "length (slice (m_buffer b) (unat (m_start_a b)) (unat (m_size_a b))) = unat (m_size_a b)"
    using len by simp
  consider (part) "sz < m_size_a b"
    | (app) "sz = m_size_a b" "m_size_r b \<noteq> 0" "m_start_r b = m_start_a b + m_size_a b"
    | (all) "sz = m_size_a b" "m_size_r b = 0 \<or> m_start_r b \<noteq> m_start_a b + m_size_a b"
    using sz by fastforce
  then show thesis
  proof cases
    case part
    have u: "unat (m_start_a b + sz) = unat (m_start_a b) + unat sz"
      using len le by (intro unat_add_bounded [of _ _ "m_buffer_size b"]) simp
    have v: "unat (m_size_a b - sz) = unat (m_size_a b) - unat sz" using le by (rule unat_sub_no_wrap)
    have "bip_consume sz b = Inr (b\<lparr>m_size_a := m_size_a b - sz, m_start_a := m_start_a b + sz\<rparr>)"
      using part sz by (simp add: bip_consume_def)
    then show thesis
      by (rule that) (use len le u v la in \<open>auto simp: bip_defs\<close>)
  next
    case app
    have u: "unat (m_start_r b) = unat (m_start_a b) + unat (m_size_a b)"
      unfolding app(3) by (rule bip_ok_nat(1) [OF ok])
    note bip_reserved_after_A [OF ok app(2,3)]
    moreover have "bip_consume sz b = Inr (b\<lparr>m_start_a := m_start_r b, m_size_a := 0\<rparr>)"
      using app by (simp add: bip_consume_def)
    ultimately show thesis
      by (intro that [of "b\<lparr>m_start_a := m_start_r b, m_size_a := 0\<rparr>"]) (use len app(1) u la in \<open>auto simp: bip_defs\<close>)
  next
    case all
    have "bip_consume sz b = Inr (b\<lparr>m_size_a := m_size_b b, m_start_a := m_start_b b, m_size_b := 0, m_start_b := 0\<rparr>)"
      using all by (auto simp: bip_consume_def)
    moreover have "m_size_r b = 0 \<or> unat (m_start_r b) = unat (m_size_b b) \<and>
        unat (m_start_r b) + unat (m_size_r b) \<le> unat (m_start_a b)"
      using len(5) all(2) word_eq_unat [of "m_start_r b"] bip_ok_nat(1) [OF ok]
      by (auto simp: bip_reserved_ok_def)
    ultimately show thesis
      by (intro that [of "b\<lparr>m_size_a := m_size_b b, m_start_a := m_start_b b, m_size_b := 0, m_start_b := 0\<rparr>"])
        (use len all(1) la in \<open>auto simp: bip_defs\<close>)
  qed
qed

lemma bip_consume_too_much: "\<not> sz \<le> m_size_a b \<Longrightarrow> bip_consume sz b = Inl Assert_failed"
  by (simp add: bip_consume_def)

lemma bip_fill_ok:
  assumes ok: "bip_ok b" and len: "length bs \<le> unat (m_size_r b)"
  shows "bip_ok (bip_fill bs b)" "bip_contents (bip_fill bs b) = bip_contents b"
    "bip_pending (bip_fill bs b) = bs @ drop (length bs) (bip_pending b)"
proof -
  let ?s = "unat (m_start_r b)"
  have inv: "m_start_b b = 0" "unat (m_start_a b) + unat (m_size_a b) \<le> length (m_buffer b)"
    "unat (m_size_b b) \<le> unat (m_start_a b)" "bip_reserved_ok b" using ok by (simp_all add: bip_ok_def)
  have "bip_ok (bip_fill bs b) \<and> bip_contents (bip_fill bs b) = bip_contents b \<and>
    bip_pending (bip_fill bs b) = bs @ drop (length bs) (bip_pending b)"
  proof (cases "m_size_r b = 0")
    case True
    with len have "bip_fill bs b = b" by (simp add: bip_fill_def store_at_def)
    with True ok len show ?thesis by (simp add: bip_pending_def)
  next
    case False
    then have r: "?s = unat (m_start_a b) + unat (m_size_a b) \<and> m_size_b b = 0 \<or>
       ?s = unat (m_size_b b) \<and> ?s + unat (m_size_r b) \<le> unat (m_start_a b)"
      and end_r: "?s + unat (m_size_r b) \<le> length (m_buffer b)"
      using inv by (auto simp: bip_reserved_ok_def)
    have fits: "?s + length bs \<le> length (m_buffer b)" using end_r len by simp
    have "slice (m_buffer (bip_fill bs b)) (unat (m_start_a b)) (unat (m_size_a b)) =
        slice (m_buffer b) (unat (m_start_a b)) (unat (m_size_a b))"
      using r len fits by (auto simp: bip_fill_def slice_store_at_before slice_store_at_after)
    moreover have "slice (m_buffer (bip_fill bs b)) 0 (unat (m_size_b b)) =
        slice (m_buffer b) 0 (unat (m_size_b b))"
      using r fits by (auto simp: bip_fill_def slice_store_at_before)
    ultimately have "bip_contents (bip_fill bs b) = bip_contents b"
      using inv(1) by (simp add: bip_contents_def bip_fill_def)
    moreover have "bip_pending (bip_fill bs b) = bs @ drop (length bs) (bip_pending b)"
      using slice_store_at_same [OF end_r len] by (simp add: bip_pending_def bip_fill_def)
    moreover have "bip_ok (bip_fill bs b)"
      using ok fits by (auto simp: bip_fill_def bip_ok_def bip_reserved_ok_def)
    ultimately show ?thesis by blast
  qed
  then show "bip_ok (bip_fill bs b)" "bip_contents (bip_fill bs b) = bip_contents b"
    "bip_pending (bip_fill bs b) = bs @ drop (length bs) (bip_pending b)" by blast+
qed

lemma bip_get_block_prefix:
  assumes "bip_ok b"
  shows "slice (m_buffer b) (unat (m_start_a b)) (unat (m_size_a b)) = take (unat (m_size_a b)) (bip_contents b)"
  using assms by (simp add: bip_contents_def bip_ok_def)

lemma bip_size_contents:
  assumes "bip_ok b"
  shows "unat (bip_size b) = length (bip_contents b)"
  using assms unat_add_bounded [of "m_size_a b" "m_size_b b" "m_buffer_size b"]
  by (simp add: bip_ok_def bip_size_def bip_contents_def)

lemma bip_ok_pending_length:
  assumes "bip_ok b"
  shows "length (bip_pending b) = unat (m_size_r b)"
proof (cases "m_size_r b = 0")
  case False
  then have "unat (m_start_r b) + unat (m_size_r b) \<le> length (m_buffer b)"
    using assms by (auto simp: bip_ok_def bip_reserved_ok_def)
  then show ?thesis by (simp add: bip_pending_def)
qed (simp add: bip_pending_def)

lemma bip_step_ok:
  assumes ok: "bip_ok b" and al: "bip_allowed c b"
  obtains i out b' where "bip_step c b = Inr (i, out, b')" "bip_ok b'"
    "bip_contents b @ i = out @ bip_contents b'"
proof (cases c)
  case (Reserve n)
  obtain k area b' where r: "bip_reserve n b = (k, area, b')" by (metis prod_cases3)
  show thesis
    by (rule that [of "[]" "[]" b']) (use r bip_reserve_ok [OF ok r] in \<open>simp_all add: Reserve\<close>)
next
  case (Store bs)
  with al have "length bs \<le> unat (m_size_r b)" by simp
  from bip_fill_ok [OF ok this] that [of "[]" "[]" "bip_fill bs b"] this show thesis
    by (simp add: Store)
next
  case (Commit n)
  with al have n: "n \<le> m_size_r b" by simp
  then obtain b' where c: "bip_commit n b = Inr b'" "bip_ok b'"
      "bip_contents b' = bip_contents b @ take (unat n) (bip_pending b)"
    by (rule bip_commit_ok [OF ok])
  have "take (unat n) (bip_pending b) = slice (m_buffer b) (unat (m_start_r b)) (unat n)"
    using n by (simp add: bip_pending_def word_le_nat_alt min_absorb1)
  with c that [of _ "[]" b'] show thesis by (simp add: Commit)
next
  case (Consume n)
  with al have n: "n \<le> m_size_a b" by simp
  then obtain b' where c: "bip_consume n b = Inr b'" "bip_ok b'"
      "bip_contents b' = drop (unat n) (bip_contents b)"
    by (rule bip_consume_ok [OF ok])
  have "slice (m_buffer b) (unat (m_start_a b)) (unat n) = take (unat n) (bip_contents b)"
    using n bip_get_block_prefix [OF ok] ok
    by (simp add: bip_contents_def bip_ok_def word_le_nat_alt min_absorb1)
  with c that [of "[]" _ b'] show thesis by (simp add: Consume)
qed

lemma bip_step_refused: "\<not> bip_allowed c b \<Longrightarrow> \<exists>e. bip_step c b = Inl e"
  by (cases c) (simp_all add: bip_commit_too_much bip_consume_too_much)

lemma bip_trace_ok:
  assumes "bip_ok b" "bip_trace cs b = Inr (is, outs, b')"
  shows "bip_ok b' \<and> bip_contents b @ is = outs @ bip_contents b'"
  using assms
proof (induction cs arbitrary: b "is" outs)
  case Nil
  then show ?case by simp
next
  case (Cons c cs)
  obtain i out b1 is1 outs1 where 1: "bip_step c b = Inr (i, out, b1)"
      "bip_trace cs b1 = Inr (is1, outs1, b')" "is = i @ is1" "outs = out @ outs1"
    using Cons.prems(2) by (auto simp: bindE_Inr_iff)
  have "bip_allowed c b" using 1(1) bip_step_refused [of c b] by fastforce
  with Cons.prems(1) obtain i' out' b1' where 2: "bip_step c b = Inr (i', out', b1')" "bip_ok b1'"
    "bip_contents b @ i' = out' @ bip_contents b1'" by (rule bip_step_ok)
  with 1(1) have "bip_ok b1" "bip_contents b @ i = out @ bip_contents b1" by simp_all
  with Cons.IH [OF this(1) 1(2)] 1(3,4) show ?case by (metis append.assoc)
qed

lemma bip_send_ok:
  assumes "bip_ok b"
  shows "\<exists>n b'. bip_send bs b = Inr (n, b') \<and> bip_ok b' \<and> n \<le> length bs \<and>
     bip_contents b' = bip_contents b @ take n bs"
proof -
  obtain k area b1 where r: "bip_reserve (of_nat (length bs)) b = (k, area, b1)" by (metis prod_cases3)
  note ok1 = bip_reserve_ok [OF assms r]
  show ?thesis
  proof (cases "area = None")
    case True
    with r ok1 show ?thesis by (simp add: bip_send_def)
  next
    case False
    then have free: "m_size_r b = 0" using r bip_reserve_busy [of b "of_nat (length bs)"] by force
    note g = bip_reserve_grant [OF assms free r]
    have k: "unat k \<le> length bs"
      using g(2) unat_of_nat [of "length bs", where 'a=64] mod_less_eq_dividend [of "length bs" "2 ^ 64"]
      by (simp add: word_le_nat_alt)
    let ?b2 = "bip_fill (take (unat k) bs) b1"
    have f: "bip_ok ?b2" "bip_contents ?b2 = bip_contents b1" "bip_pending ?b2 = take (unat k) bs"
      using bip_fill_ok [OF ok1(1), of "take (unat k) bs"] k g(1) bip_ok_pending_length [OF ok1(1)] by simp_all
    have "k \<le> m_size_r ?b2" using g(1) by (simp add: bip_fill_def)
    with f(1) obtain b3 where "bip_commit k ?b2 = Inr b3" "bip_ok b3"
        "bip_contents b3 = bip_contents ?b2 @ take (unat k) (bip_pending ?b2)"
      by (rule bip_commit_ok)
    with f ok1(2) r False k show ?thesis by (auto simp: bip_send_def)
  qed
qed

lemma bip_receive_ok:
  assumes "bip_ok b"
  shows "\<exists>out b'. bip_receive k b = Inr (out, b') \<and> bip_ok b' \<and> length out \<le> k \<and>
     bip_contents b = out @ bip_contents b'"
proof (cases "m_size_a b = 0")
  case True
  with assms show ?thesis by (simp add: bip_receive_def bip_get_block_def)
next
  case False
  define m where "m = min k (unat (m_size_a b))"
  have m: "m \<le> unat (m_size_a b)" "m \<le> k" by (simp_all add: m_def)
  have u: "unat (of_nat m :: u64) = m"
    using m(1) by (rule unat_of_nat_bounded)
  then have "(of_nat m :: u64) \<le> m_size_a b" using m by (simp add: word_le_nat_alt)
  with assms obtain b1 where c: "bip_consume (of_nat m) b = Inr b1" "bip_ok b1"
      "bip_contents b1 = drop (unat (of_nat m :: u64)) (bip_contents b)"
    by (rule bip_consume_ok)
  have "slice (m_buffer b) (unat (m_start_a b)) m = take m (bip_contents b)"
    using m assms by (simp add: bip_contents_def bip_ok_def min_absorb1)
  moreover have "length (slice (m_buffer b) (unat (m_start_a b)) m) \<le> k"
    using m by (simp add: slice_def)
  ultimately show ?thesis
    using False c u by (simp add: bip_receive_def bip_get_block_def Let_def m_def [symmetric])
qed

interpretation bip: fifo_pipe bip_ok bip_contents bip_send bip_receive
  by unfold_locales (use bip_send_ok bip_receive_ok in blast)+


section \<open>A block is available whenever there is data\<close>

lemma bip_live_reserve:
  assumes "bip_ok b" "bip_live b"
  shows "bip_live (snd (snd (bip_reserve n b)))"
proof (cases "m_size_r b = 0 \<and> m_size_a b = 0")
  case True
  with assms(2) have "m_size_b b = 0" "m_start_a b = 0" by (auto simp: bip_live_def)
  with True show ?thesis by (simp add: bip_reserve_def bip_live_def Let_def)
next
  case False
  then show ?thesis using assms(2)
    by (cases "m_size_r b = 0") (auto simp: bip_reserve_def bip_live_def Let_def split: prod.splits)
qed

lemma bip_live_commit:
  assumes "bip_ok b" "bip_live b" "bip_commit n b = Inr b'" "n \<noteq> 0"
  shows "bip_live b'"
proof -
  have n: "n \<le> m_size_r b" using assms(3) bip_commit_too_much [of n b] by fastforce
  with assms(4) have r: "m_size_r b \<noteq> 0" by auto
  show ?thesis
  proof (cases "m_size_a b = 0")
    case True
    with assms(2) have "m_size_b b = 0" "m_start_a b = 0 \<or> m_start_r b = m_start_a b"
      by (auto simp: bip_live_def)
    moreover have "m_start_r b = m_start_a b" if "m_start_a b = 0"
      using assms(1) that True r by (auto simp: bip_ok_def bip_reserved_ok_def)
    ultimately show ?thesis using assms(3,4) True r n by (auto simp: bip_commit_def bip_live_def)
  next
    case False
    have "m_size_a b + n \<noteq> 0" if "m_start_r b = m_start_a b + m_size_a b"
    proof -
      have "unat (m_size_a b) + unat n \<le> unat (m_buffer_size b)"
        using bip_reserved_after_A(2) [OF assms(1) r that] that bip_ok_nat(1) [OF assms(1)] n assms(1)
        by (simp add: bip_ok_def word_le_nat_alt)
      then have "unat (m_size_a b + n) = unat (m_size_a b) + unat n" by (rule unat_add_bounded)
      with False show ?thesis by (metis add_is_0 unat_eq_0_iff)
    qed
    then show ?thesis using assms(3) False r n
      by (auto simp: bip_commit_def bip_live_def bindE_Inr_iff split: if_splits)
  qed
qed

lemma bip_live_consume:
  assumes "bip_ok b" "bip_live b" "bip_consume n b = Inr b'"
  shows "bip_live b'"
proof -
  have "m_start_b b = 0" using assms(1) by (simp add: bip_ok_def)
  moreover have "n < m_size_a b \<Longrightarrow> m_size_a b - n \<noteq> 0" by auto
  ultimately show ?thesis using assms(2,3) bip_reserved_after_A(1) [OF assms(1)]
    by (auto simp: bip_consume_def bip_live_def bindE_Inr_iff split: if_splits)
qed

lemma bip_live_trace:
  assumes "bip_ok b" "bip_live b" "Commit 0 \<notin> set cs" "bip_trace cs b = Inr (is, outs, b')"
  shows "bip_live b'"
  using assms
proof (induction cs arbitrary: b "is" outs)
  case Nil
  then show ?case by simp
next
  case (Cons c cs)
  obtain i out b1 is1 outs1 where 1: "bip_step c b = Inr (i, out, b1)"
      "bip_trace cs b1 = Inr (is1, outs1, b')"
    using Cons.prems(4) by (auto simp: bindE_Inr_iff)
  have al: "bip_allowed c b" using 1(1) bip_step_refused [of c b] by fastforce
  have ok: "bip_ok b1" using bip_step_ok [OF Cons.prems(1) al] 1(1) by (metis Inr_inject Pair_inject)
  have "bip_live b1"
  proof (cases c)
    case (Reserve n)
    with 1(1) bip_live_reserve [OF Cons.prems(1,2)] show ?thesis by auto
  next
    case (Store bs)
    with 1(1) Cons.prems(2) show ?thesis by (auto simp: bip_live_def bip_fill_def split: if_splits)
  next
    case (Commit n)
    with 1(1) Cons.prems(3) bip_live_commit [OF Cons.prems(1,2)] show ?thesis
      by (auto simp: bindE_Inr_iff)
  next
    case (Consume n)
    with 1(1) bip_live_consume [OF Cons.prems(1,2)] show ?thesis by (auto simp: bindE_Inr_iff)
  qed
  with Cons.IH [OF ok _ _ 1(2)] Cons.prems(3) show ?case by simp
qed

section \<open>Properties\<close>

text \<open>C26. FIFO under interleaving: whatever sequence of reserve, store, commit and consume calls
  producer and consumer make on a new buffer without a failed assertion, the bytes committed are the bytes
  consumed followed by the bytes in the buffer, the regions stay disjoint and inside the buffer,
  and the next call that keeps to the contract succeeds.\<close>

theorem bip_trace_fifo:
  assumes "64 \<le> unat sz" "length mem = unat sz - 64"
    and "bip_trace cs (bip_new g sz mem) = Inr (committed, consumed, b)"
  shows "committed = consumed @ bip_contents b \<and> bip_ok b \<and>
     (\<forall>c. bip_allowed c b \<longleftrightarrow> (\<exists>r. bip_step c b = Inr r))"
proof -
  have "bip_ok (bip_new g sz mem)" "bip_contents (bip_new g sz mem) = []"
    using bip_new_ok [of sz mem g] assms(1,2) by (simp_all add: bip_sizeof_def)
  with bip_trace_ok [OF this(1) assms(3)] have "committed = consumed @ bip_contents b" "bip_ok b"
    by simp_all
  moreover have "bip_allowed c b \<longleftrightarrow> (\<exists>r. bip_step c b = Inr r)" for c
    using bip_step_ok [OF \<open>bip_ok b\<close>, of c] bip_step_refused [of c b] by (metis Inl_Inr_False)
  ultimately show ?thesis by blast
qed

theorem bip_trace_fifo_witness:
  "\<exists>b. bip_trace [Reserve 6, Store [1, 2, 3, 4, 5, 6], Commit 6, Consume 5, Reserve 4, Store [7, 8, 9, 10],
       Consume 1, Commit 4, Consume 2] (bip_new 7 72 (replicate 8 0)) =
     Inr ([1, 2, 3, 4, 5, 6, 7, 8, 9, 10], [1, 2, 3, 4, 5, 6, 7, 8], b) \<and> bip_contents b = [9, 10]"
  (is "\<exists>b. ?t = _ \<and> _")
proof -
  have "map_sum id (\<lambda>(i, out, b). (i, out)) ?t =
      Inr ([1, 2, 3, 4, 5, 6, 7, 8, 9, 10], [1, 2, 3, 4, 5, 6, 7, 8])"
    by code_simp
  then obtain b where b: "?t = Inr ([1, 2, 3, 4, 5, 6, 7, 8, 9, 10], [1, 2, 3, 4, 5, 6, 7, 8], b)"
    by (cases "?t") (auto simp del: bip_trace.simps)
  show ?thesis using bip_trace_fifo [OF _ _ b] b by (auto simp del: bip_trace.simps)
qed

text \<open>C27. Availability: as long as no reservation is abandoned with \<open>commit(0)\<close>, a buffer that holds
  data gives the consumer a block that is not empty.\<close>

theorem bip_block_available:
  assumes "64 \<le> unat sz" "length mem = unat sz - 64" "Commit 0 \<notin> set cs"
    and "bip_trace cs (bip_new g sz mem) = Inr (committed, consumed, b)" "bip_contents b \<noteq> []"
  shows "\<exists>n. bip_get_block b = (n, Some (m_start_a b)) \<and> 0 < n \<and>
     slice (m_buffer b) (unat (m_start_a b)) (unat n) = take (unat n) (bip_contents b)"
proof -
  have ok: "bip_ok (bip_new g sz mem)" "bip_live (bip_new g sz mem)"
    using bip_new_ok [of sz mem g] assms(1,2) by (simp_all add: bip_sizeof_def) (simp add: bip_new_def bip_live_def)
  have "bip_ok b" "bip_live b"
    using bip_trace_ok [OF ok(1) assms(4)] bip_live_trace [OF ok assms(3,4)] by simp_all
  moreover from this have "m_size_a b \<noteq> 0"
    using assms(5) by (auto simp: bip_live_def bip_contents_def)
  ultimately show ?thesis
    by (simp add: bip_get_block_def bip_get_block_prefix word_neq_0_conv)
qed

theorem bip_block_available_witness:
  "\<exists>b n. bip_trace [Reserve 6, Store [1, 2, 3, 4, 5, 6], Commit 6, Consume 5, Reserve 4, Store [7, 8, 9, 10],
       Commit 4, Consume 1] (bip_new 7 72 (replicate 8 0)) = Inr ([1, 2, 3, 4, 5, 6, 7, 8, 9, 10], [1, 2, 3, 4, 5, 6], b) \<and>
     bip_get_block b = (n, Some 0)  \<and> 0 < n"
  (is "\<exists>b n. ?t = _ \<and> _")
proof -
  have "map_sum id (\<lambda>(i, out, b). (i, out, m_start_a b, bip_contents b)) ?t =
      Inr ([1, 2, 3, 4, 5, 6, 7, 8, 9, 10], [1, 2, 3, 4, 5, 6], 0, [7, 8, 9, 10])"
    by code_simp
  then obtain b where b: "?t = Inr ([1, 2, 3, 4, 5, 6, 7, 8, 9, 10], [1, 2, 3, 4, 5, 6], b)"
      "m_start_a b = 0" "bip_contents b \<noteq> []"
    by (cases "?t") (auto simp del: bip_trace.simps)
  show ?thesis using bip_block_available [OF _ _ _ b(1,3)] b by (auto simp del: bip_trace.simps)
qed

text \<open>An abandoned reservation can leave region A empty past the start of the buffer: the next
  write then goes to region B, and the consumer is given no block although the buffer holds data.\<close>

theorem bip_commit_zero_hides_data:
  "(case bip_trace [Reserve 6, Store [0, 0, 0, 0, 0, 0], Commit 6, Reserve 2, Consume 6, Commit 0,
       Reserve 4, Store [1, 2, 3, 4], Commit 4] (bip_new 7 72 (replicate 8 0)) of
      Inr (committed, consumed, b) \<Rightarrow> bip_contents b = [1, 2, 3, 4] \<and> bip_get_block b = (0, None)
    | Inl e \<Rightarrow> False)"
  by code_simp

end
