(* ===== verification/J6_Channel.thy ===== *)
theory J6_Channel
  imports Bip_Buffer
begin

text \<open>
  \<open>j6::channel\<close> of \<open>src/src/libraries/j6/channel.cpp\<close>: two shared memory areas, each with a
  mutex, a condition and a \<open>bip_buffer\<close>, one per direction. An end of the channel is the pair
  of the areas it sends to and receives from; the remote end has them the other way round.

  Each operation of a \<open>bip_buffer\<close> runs under the lock of that buffer. The calls of a channel are sequences of such operations and
  are not atomic: \<open>consume\<close> takes the mutex of the other area, so it may come between the test and the reservation of
  the sender. A run here is therefore any interleaving of the single operations of both ends, whether or not a mutex would allow it. A call that has to
  wait tests again after the wake.
\<close>

section \<open>State\<close>

record channel_memory_area =
  ca_waiting :: u32
  ca_buf :: bip_buffer

record channel_def =
  cd_tx :: u64
  cd_rx :: u64

type_synonym areas = "u64 \<rightharpoonup> channel_memory_area"

datatype 'a call_result = Returns 'a | Waits

definition j6_err_insufficient :: u64 where
  "j6_err_insufficient = 0x8000000000000005"

definition channel_area_sizeof :: u64 where
  "channel_area_sizeof = 72"

section \<open>Operations\<close>

definition check_channel_size :: "u64 \<Rightarrow> bool" where
  "check_channel_size s \<longleftrightarrow> \<not> (s < 0x1000 \<or> s AND (s - 1) \<noteq> 0)"

text \<open>The mapping gives the area its memory: the bytes behind the headers, of any value.\<close>

definition init_channel_memory_area :: "u64 \<Rightarrow> u64 \<Rightarrow> u8 list \<Rightarrow> channel_memory_area" where
  "init_channel_memory_area garbage sz mem =
     \<lparr>ca_waiting = 0, ca_buf = bip_new garbage (sz - channel_area_sizeof) mem\<rparr>"

text \<open>
  \<open>vma_create_map\<close> stands for the system call of that name: the handle of the new area and its
  memory, or an error. The areas already mapped keep their contents.
\<close>

definition channel_create ::
  "(u64 \<Rightarrow> areas \<Rightarrow> (u64 \<times> u64 \<times> u8 list) option) \<Rightarrow> u64 \<Rightarrow> u64 \<Rightarrow> areas \<Rightarrow> (channel_def \<times> areas) option" where
  "channel_create vma_create_map tx_size rx_size m =
     (let rx_size = (if rx_size = 0 then tx_size else rx_size) in
      if \<not> check_channel_size tx_size \<or> \<not> check_channel_size rx_size then None
      else case vma_create_map tx_size m of
          None \<Rightarrow> None
        | Some (tx_vma, g1, mem1) \<Rightarrow>
            let m1 = m(tx_vma \<mapsto> init_channel_memory_area g1 tx_size mem1) in
            case vma_create_map rx_size m1 of
              None \<Rightarrow> None
            | Some (rx_vma, g2, mem2) \<Rightarrow>
                Some (\<lparr>cd_tx = tx_vma, cd_rx = rx_vma\<rparr>,
                      m1(rx_vma \<mapsto> init_channel_memory_area g2 rx_size mem2)))"

definition remote_def :: "channel_def \<Rightarrow> channel_def" where
  "remote_def d = \<lparr>cd_tx = cd_rx d, cd_rx = cd_tx d\<rparr>"

text \<open>\<open>open\<close> maps the two areas; a handle without an area fails.\<close>

definition channel_open :: "channel_def \<Rightarrow> areas \<Rightarrow> channel_def option" where
  "channel_open d m = (if m (cd_tx d) = None \<or> m (cd_rx d) = None then None else Some d)"

definition condition_wake :: "channel_memory_area \<Rightarrow> channel_memory_area" where
  "condition_wake a = a\<lparr>ca_waiting := 0\<rparr>"

definition condition_wait :: "channel_memory_area \<Rightarrow> channel_memory_area" where
  "condition_wait a = a\<lparr>ca_waiting := ca_waiting a + 1\<rparr>"

definition channel_reserve ::
  "u64 \<Rightarrow> bool \<Rightarrow> channel_memory_area \<Rightarrow> (u64 \<times> u64 option) call_result \<times> channel_memory_area" where
  "channel_reserve sz block tx =
     (if sz > m_buffer_size (ca_buf tx) then (Returns (j6_err_insufficient, None), tx)
      else if write_available (ca_buf tx) < sz then
        if \<not> block then (Returns (0, None), tx) else (Waits, condition_wait tx)
      else case bip_reserve sz (ca_buf tx) of (n, area, b) \<Rightarrow> (Returns (n, area), tx\<lparr>ca_buf := b\<rparr>))"

definition channel_commit :: "u64 \<Rightarrow> channel_memory_area \<Rightarrow> channel_memory_area res" where
  "channel_commit sz tx =
     bindE (bip_commit sz (ca_buf tx)) (\<lambda>b.
     let tx1 = tx\<lparr>ca_buf := b\<rparr> in
     Inr (if sz = 0 then tx1 else condition_wake tx1))"

definition channel_get_block ::
  "bool \<Rightarrow> channel_memory_area \<Rightarrow> (u64 \<times> u64 option) call_result \<times> channel_memory_area" where
  "channel_get_block block rx =
     (if bip_size (ca_buf rx) = 0 then
        if \<not> block then (Returns (0, None), rx) else (Waits, condition_wait rx)
      else (Returns (bip_get_block (ca_buf rx)), rx))"

definition channel_consume :: "u64 \<Rightarrow> channel_memory_area \<Rightarrow> channel_memory_area res" where
  "channel_consume sz rx =
     bindE (bip_consume sz (ca_buf rx)) (\<lambda>b.
     let rx1 = rx\<lparr>ca_buf := b\<rparr> in
     Inr (if sz = 0 then rx1 else condition_wake rx1))"

text \<open>
  The calls of an end. \<open>Chan_store\<close> is the sender writing through the pointer it was given.
\<close>

datatype chan_call =
    Chan_reserve u64 bool
  | Chan_store "u8 list"
  | Chan_commit u64
  | Chan_get_block bool
  | Chan_consume u64

text \<open>The operations a call consists of, in order.\<close>

datatype chan_micro =
    Test_space u64 bool
  | Buf_reserve u64
  | Fill "u8 list"
  | Buf_commit u64
  | Test_data bool
  | Buf_get_block
  | Buf_consume u64
  | Wake_tx
  | Wake_rx

fun call_micros :: "chan_call \<Rightarrow> chan_micro list" where
  "call_micros (Chan_reserve sz block) = [Test_space sz block, Buf_reserve sz]"
| "call_micros (Chan_store bs) = [Fill bs]"
| "call_micros (Chan_commit sz) = Buf_commit sz # (if sz = 0 then [] else [Wake_tx])"
| "call_micros (Chan_get_block block) = [Test_data block, Buf_get_block]"
| "call_micros (Chan_consume sz) = Buf_consume sz # (if sz = 0 then [] else [Wake_rx])"

text \<open>What follows an operation: the next one, the return from the call, or the same test again.\<close>

datatype chan_flow = Go | Return | Again

fun micro_step :: "chan_micro \<Rightarrow> channel_memory_area \<Rightarrow> (chan_flow \<times> channel_memory_area) res" where
  "micro_step (Test_space sz block) a =
     Inr (if sz > m_buffer_size (ca_buf a) then (Return, a)
          else if write_available (ca_buf a) < sz then if \<not> block then (Return, a) else (Again, condition_wait a)
          else (Go, a))"
| "micro_step (Buf_reserve sz) a = Inr (Go, a\<lparr>ca_buf := snd (snd (bip_reserve sz (ca_buf a)))\<rparr>)"
| "micro_step (Fill bs) a =
     (if length bs \<le> unat (m_size_r (ca_buf a)) then Inr (Go, a\<lparr>ca_buf := bip_fill bs (ca_buf a)\<rparr>) else Inl Out_of_bounds)"
| "micro_step (Buf_commit sz) a = bindE (bip_commit sz (ca_buf a)) (\<lambda>b. Inr (Go, a\<lparr>ca_buf := b\<rparr>))"
| "micro_step (Test_data block) a =
     Inr (if bip_size (ca_buf a) = 0 then if \<not> block then (Return, a) else (Again, condition_wait a) else (Go, a))"
| "micro_step Buf_get_block a = Inr (Go, a)"
| "micro_step (Buf_consume sz) a = bindE (bip_consume sz (ca_buf a)) (\<lambda>b. Inr (Go, a\<lparr>ca_buf := b\<rparr>))"
| "micro_step Wake_tx a = Inr (Go, condition_wake a)"
| "micro_step Wake_rx a = Inr (Go, condition_wake a)"

text \<open>The area an operation works on: the sending calls use the transmit area, the others the receive area.\<close>

fun micro_area :: "channel_def \<Rightarrow> chan_micro \<Rightarrow> u64" where
  "micro_area d (Test_data _) = cd_rx d"
| "micro_area d Buf_get_block = cd_rx d"
| "micro_area d (Buf_consume _) = cd_rx d"
| "micro_area d Wake_rx = cd_rx d"
| "micro_area d _ = cd_tx d"

text \<open>The bytes an operation commits to, or consumes from, the area it works on.\<close>

fun micro_sent :: "chan_micro \<Rightarrow> channel_memory_area \<Rightarrow> u8 list" where
  "micro_sent (Buf_commit sz) a = slice (m_buffer (ca_buf a)) (unat (m_start_r (ca_buf a))) (unat sz)"
| "micro_sent _ a = []"

fun micro_received :: "chan_micro \<Rightarrow> channel_memory_area \<Rightarrow> u8 list" where
  "micro_received (Buf_consume sz) a = slice (m_buffer (ca_buf a)) (unat (m_start_a (ca_buf a))) (unat sz)"
| "micro_received _ a = []"

text \<open>
  The state of a run, for each end (\<open>True\<close> for the creating end): the calls to make, the rest of the current
  call, and the bytes the end has sent and received.
\<close>

record chan_state =
  ch_areas :: areas
  ch_todo :: "bool \<Rightarrow> chan_call list"
  ch_micros :: "bool \<Rightarrow> chan_micro list"
  ch_sent :: "bool \<Rightarrow> u8 list"
  ch_received :: "bool \<Rightarrow> u8 list"

definition end_def :: "channel_def \<Rightarrow> bool \<Rightarrow> channel_def" where
  "end_def d e = (if e then d else remote_def d)"

definition chan_start :: "areas \<Rightarrow> (bool \<Rightarrow> chan_call list) \<Rightarrow> chan_state" where
  "chan_start m todo = \<lparr>ch_areas = m, ch_todo = todo, ch_micros = (\<lambda>_. []), ch_sent = (\<lambda>_. []), ch_received = (\<lambda>_. [])\<rparr>"

text \<open>One operation of end \<open>e\<close>.\<close>

definition chan_step :: "channel_def \<Rightarrow> bool \<Rightarrow> chan_state \<Rightarrow> chan_state res" where
  "chan_step d e s = (case ch_micros s e of
       [] \<Rightarrow> (case ch_todo s e of [] \<Rightarrow> Inr s
           | c # cs \<Rightarrow> Inr (s\<lparr>ch_todo := (ch_todo s)(e := cs), ch_micros := (ch_micros s)(e := call_micros c)\<rparr>))
     | st # sts \<Rightarrow>
         let v = micro_area (end_def d e) st in
         case ch_areas s v of None \<Rightarrow> Inl Null_deref
         | Some a \<Rightarrow> bindE (micro_step st a) (\<lambda>(flow, a').
             Inr (s\<lparr>ch_areas := (ch_areas s)(v \<mapsto> a'),
                    ch_micros := (ch_micros s)(e := case flow of Go \<Rightarrow> sts | Return \<Rightarrow> [] | Again \<Rightarrow> st # sts),
                    ch_sent := (ch_sent s)(e := ch_sent s e @ micro_sent st a),
                    ch_received := (ch_received s)(e := ch_received s e @ micro_received st a)\<rparr>)))"

fun chan_run :: "channel_def \<Rightarrow> bool list \<Rightarrow> chan_state \<Rightarrow> chan_state res" where
  "chan_run d [] s = Inr s"
| "chan_run d (e # es) s = bindE (chan_step d e s) (chan_run d es)"

section \<open>Invariant\<close>

definition area_ok :: "channel_memory_area \<Rightarrow> u8 list \<Rightarrow> u8 list \<Rightarrow> bool" where
  "area_ok a ins outs \<longleftrightarrow> bip_ok (ca_buf a) \<and> ins = outs @ bip_contents (ca_buf a)"

text \<open>What an end sends goes through its transmit area to the other end.\<close>

definition chan_ok :: "channel_def \<Rightarrow> chan_state \<Rightarrow> bool" where
  "chan_ok d s \<longleftrightarrow> cd_tx d \<noteq> cd_rx d \<and>
     (\<forall>e. \<exists>a. ch_areas s (cd_tx (end_def d e)) = Some a \<and> area_ok a (ch_sent s e) (ch_received s (\<not> e)))"

text \<open>What the mapping call promises: a handle not in use and memory of the size asked for, of
  which the headers take 136 bytes.\<close>

definition fresh_mapping :: "(u64 \<Rightarrow> areas \<Rightarrow> (u64 \<times> u64 \<times> u8 list) option) \<Rightarrow> bool" where
  "fresh_mapping vma \<longleftrightarrow> (\<forall>sz m v g mem. vma sz m = Some (v, g, mem) \<longrightarrow>
     m v = None \<and> length mem = unat sz - 136)"

definition example_vma :: "u64 \<Rightarrow> areas \<Rightarrow> (u64 \<times> u64 \<times> u8 list) option" where
  "example_vma sz m =
     (if m 1 = None then Some (1, 9, replicate (unat sz - 136) 0)
      else if m 2 = None then Some (2, 9, replicate (unat sz - 136) 0) else None)"

section \<open>Calls keep the queues\<close>

lemma bip_step_fifo:
  assumes "bip_ok b" "bip_step c b = Inr (i, out, b')"
  shows "bip_ok b'" "bip_contents b @ i = out @ bip_contents b'"
proof -
  have "bip_allowed c b" using assms(2) bip_step_refused [of c b] by fastforce
  with assms(1) obtain i' out' b1 where "bip_step c b = Inr (i', out', b1)" "bip_ok b1"
    "bip_contents b @ i' = out' @ bip_contents b1" by (rule bip_step_ok)
  with assms(2) show "bip_ok b'" "bip_contents b @ i = out @ bip_contents b'" by simp_all
qed

lemma micro_step_ok:
  assumes "area_ok a ins outs" "micro_step c a = Inr (flow, a')"
  shows "area_ok a' (ins @ micro_sent c a) (outs @ micro_received c a)"
proof -
  have ok: "bip_ok (ca_buf a)" and q: "ins = outs @ bip_contents (ca_buf a)"
    using assms(1) by (simp_all add: area_ok_def)
  have step: "area_ok (a\<lparr>ca_buf := b\<rparr>) (ins @ i) (outs @ out)"
    if "bip_step bc (ca_buf a) = Inr (i, out, b)" for bc i out b
    using bip_step_fifo [OF ok that] q by (simp add: area_ok_def)
  show ?thesis
  proof (cases c)
    case (Buf_reserve sz)
    then show ?thesis using assms(2) step [of "Reserve sz" "[]" "[]"] by auto
  next
    case (Fill bs)
    then show ?thesis using assms(2) step [of "Store bs" "[]" "[]"] by (auto split: if_splits)
  next
    case (Buf_commit sz)
    then show ?thesis using assms(2) step [of "Commit sz"] by (auto simp: bindE_Inr_iff)
  next
    case (Buf_consume sz)
    then show ?thesis using assms(2) step [of "Consume sz"] by (auto simp: bindE_Inr_iff)
  qed (use assms in \<open>auto simp: area_ok_def condition_wait_def condition_wake_def split: if_splits\<close>)
qed

text \<open>An operation either sends, on the transmit area of its end, or receives, on the transmit area of the other end.\<close>

lemma micro_area_cases:
  obtains (tx) "micro_area (end_def d e) c = cd_tx (end_def d e)" "\<And>a. micro_received c a = []"
  | (rx) "micro_area (end_def d e) c = cd_tx (end_def d (\<not> e))" "\<And>a. micro_sent c a = []"
  by (cases c) (auto simp: end_def_def remote_def_def)

lemma chan_step_ok:
  assumes ok: "chan_ok d s" and st: "chan_step d e s = Inr s'"
  shows "chan_ok d s'"
proof (cases "ch_micros s e")
  case Nil
  then show ?thesis using assms by (auto simp: chan_step_def chan_ok_def split: list.splits)
next
  case (Cons c cs)
  let ?v = "micro_area (end_def d e) c"
  obtain a flow a' where a: "ch_areas s ?v = Some a" "micro_step c a = Inr (flow, a')"
    and s': "ch_areas s' = (ch_areas s)(?v \<mapsto> a')" "ch_sent s' = (ch_sent s)(e := ch_sent s e @ micro_sent c a)"
      "ch_received s' = (ch_received s)(e := ch_received s e @ micro_received c a)"
    using st Cons by (auto simp: chan_step_def Let_def bindE_Inr_iff split: option.splits)
  have ne: "cd_tx (end_def d e) \<noteq> cd_tx (end_def d (\<not> e))" using ok by (auto simp: chan_ok_def end_def_def remote_def_def)
  have K: "\<exists>a. ch_areas s (cd_tx (end_def d x)) = Some a \<and> area_ok a (ch_sent s x) (ch_received s (\<not> x))" for x using ok by (simp add: chan_ok_def)
  have "\<exists>a. ch_areas s' (cd_tx (end_def d x)) = Some a \<and> area_ok a (ch_sent s' x) (ch_received s' (\<not> x))" for x
  proof (cases d e c rule: micro_area_cases)
    case tx
    then have "area_ok a (ch_sent s e) (ch_received s (\<not> e))" using K [of e] a(1) by simp
    then have "area_ok a' (ch_sent s e @ micro_sent c a) (ch_received s (\<not> e))" using micro_step_ok [OF _ a(2)] tx(2) by fastforce
    then show ?thesis using K [of x] tx ne by (cases "x = e") (auto simp: s')
  next
    case rx
    then have "area_ok a (ch_sent s (\<not> e)) (ch_received s e)" using K [of "\<not> e"] a(1) by simp
    then have "area_ok a' (ch_sent s (\<not> e)) (ch_received s e @ micro_received c a)" using micro_step_ok [OF _ a(2)] rx(2) by fastforce
    then show ?thesis using K [of x] rx ne by (cases "x = e") (auto simp: s')
  qed
  then show ?thesis using ok by (simp add: chan_ok_def)
qed

lemma chan_run_ok: "chan_ok d s \<Longrightarrow> chan_run d es s = Inr s' \<Longrightarrow> chan_ok d s'"
  by (induction es arbitrary: s) (auto simp: bindE_Inr_iff dest: chan_step_ok)

text \<open>A call that nothing interrupts has the effect of its operations one after the other.\<close>

fun run_micros :: "chan_micro list \<Rightarrow> channel_memory_area \<Rightarrow> channel_memory_area res" where
  "run_micros [] a = Inr a"
| "run_micros (c # cs) a = bindE (micro_step c a) (\<lambda>(flow, a'). if flow = Go then run_micros cs a' else Inr a')"

lemma calls_uninterrupted:
  "run_micros (call_micros (Chan_reserve sz block)) a = Inr (snd (channel_reserve sz block a))"
  "run_micros (call_micros (Chan_commit sz)) a = channel_commit sz a"
  "run_micros (call_micros (Chan_get_block block)) a = Inr (snd (channel_get_block block a))"
  "run_micros (call_micros (Chan_consume sz)) a = channel_consume sz a"
proof -
  show "run_micros (call_micros (Chan_commit sz)) a = channel_commit sz a"
    by (cases "bip_commit sz (ca_buf a)") (auto simp: channel_commit_def)
  show "run_micros (call_micros (Chan_consume sz)) a = channel_consume sz a"
    by (cases "bip_consume sz (ca_buf a)") (auto simp: channel_consume_def)
qed (auto simp: channel_reserve_def channel_get_block_def split: prod.splits)

section \<open>New channels\<close>

lemma check_channel_size_bounds: "check_channel_size s \<Longrightarrow> 4096 \<le> unat s"
  by (simp add: check_channel_size_def word_less_nat_alt not_less)

lemma init_area_ok:
  assumes "check_channel_size sz" "length mem = unat sz - 136"
  shows "area_ok (init_channel_memory_area g sz mem) [] []" "bip_live (ca_buf (init_channel_memory_area g sz mem))"
proof -
  have u: "unat (sz - 72) = unat sz - 72"
    using check_channel_size_bounds [OF assms(1)] by (simp add: unat_sub_no_wrap)
  then show "area_ok (init_channel_memory_area g sz mem) [] []"
    using bip_new_ok [of "sz - 72" mem g] check_channel_size_bounds [OF assms(1)] assms(2)
    by (simp add: init_channel_memory_area_def area_ok_def channel_area_sizeof_def bip_sizeof_def)
  show "bip_live (ca_buf (init_channel_memory_area g sz mem))"
    by (simp add: init_channel_memory_area_def bip_live_def bip_new_def)
qed

lemma channel_create_ok:
  assumes create: "channel_create vma tx_size rx_size m = Some (d, m')"
    and vma: "fresh_mapping vma"
  shows "chan_ok d (chan_start m' todo)"
proof -
  have fits: "m v = None \<and> length mem = unat sz - 136" if "vma sz m = Some (v, g, mem)" for sz m v g mem
    using vma that unfolding fresh_mapping_def by blast
  define rx where "rx = (if rx_size = 0 then tx_size else rx_size)"
  obtain v1 g1 mem1 v2 g2 mem2 where c: "check_channel_size tx_size" "check_channel_size rx"
    and v1: "vma tx_size m = Some (v1, g1, mem1)"
    and v2: "vma rx (m(v1 \<mapsto> init_channel_memory_area g1 tx_size mem1)) = Some (v2, g2, mem2)"
    and d: "d = \<lparr>cd_tx = v1, cd_rx = v2\<rparr>"
    and m': "m' = m(v1 \<mapsto> init_channel_memory_area g1 tx_size mem1, v2 \<mapsto> init_channel_memory_area g2 rx mem2)"
    using create by (auto simp: channel_create_def rx_def [symmetric] Let_def split: if_splits option.splits)
  have ne: "v1 \<noteq> v2" using fits [OF v2] by auto
  then show "chan_ok d (chan_start m' todo)"
    using ne init_area_ok(1) [OF c(1)] init_area_ok(1) [OF c(2)] fits [OF v1] fits [OF v2]
    by (auto simp: chan_ok_def d m' chan_start_def end_def_def remote_def_def)
qed

lemma write_available_drained:
  assumes "bip_ok b" "bip_live b" "bip_contents b = []" "m_size_r b = 0"
  shows "write_available b = m_buffer_size b"
proof -
  have "m_size_a b = 0" "m_size_b b = 0"
    using assms(1,3) bip_size_contents [OF assms(1)] by (auto simp: bip_contents_def bip_ok_def dest: arg_cong [where f = length])
  with assms(2,4) have "m_start_a b = 0" by (simp add: bip_live_def)
  then show ?thesis using \<open>m_size_a b = 0\<close> \<open>m_size_b b = 0\<close> assms(4) by (simp add: write_available_def)
qed


section \<open>Properties\<close>

text \<open>C30. Both directions of a channel are FIFO byte streams from one end to the other: the two ends of a new channel make any sequences of calls, and their single
  operations are interleaved in any order. As long as no assertion fails, the bytes an end has committed are the bytes the other end has consumed followed by the bytes still
  in the area between them, and the other end can open the channel. The kernel is assumed to give a
  mapping of the requested size under a handle not in use.\<close>

theorem channel_fifo:
  assumes "fresh_mapping vma" and "channel_create vma tx_size rx_size m = Some (d, m1)"
    and "chan_run d es (chan_start m1 todo) = Inr s"
  shows "channel_open (remote_def d) (ch_areas s) = Some (remote_def d) \<and>
     (\<exists>a. ch_areas s (cd_tx d) = Some a \<and> bip_ok (ca_buf a) \<and> ch_sent s True = ch_received s False @ bip_contents (ca_buf a)) \<and>
     (\<exists>a. ch_areas s (cd_rx d) = Some a \<and> bip_ok (ca_buf a) \<and> ch_sent s False = ch_received s True @ bip_contents (ca_buf a))"
proof -
  have "chan_ok d s"
    using chan_run_ok [OF channel_create_ok [OF assms(2,1)] assms(3)] .
  then have "\<exists>a. ch_areas s (cd_tx (end_def d e)) = Some a \<and> area_ok a (ch_sent s e) (ch_received s (\<not> e))" for e by (simp add: chan_ok_def)
  from this [of True] this [of False] show ?thesis
    by (auto simp: area_ok_def channel_open_def end_def_def remote_def_def)
qed

theorem channel_fifo_witness:
  "\<exists>d m1 s. channel_create example_vma 4096 0 Map.empty = Some (d, m1) \<and>
     chan_run d [True, True, True, False, True, True, False, True, True, False, False, False, False]
       (chan_start m1 (\<lambda>e. if e then [Chan_reserve 3 True, Chan_store [1, 2, 3], Chan_commit 3] else [Chan_get_block True, Chan_consume 2])) = Inr s \<and>
     ch_sent s True = [1, 2, 3] \<and> ch_received s False = [1, 2] \<and>
     (\<exists>a. ch_areas s 1 = Some a \<and> ch_sent s True = ch_received s False @ bip_contents (ca_buf a))"
proof -
  let ?es = "[True, True, True, False, True, True, False, True, True, False, False, False, False]"
  let ?todo = "\<lambda>e. if e then [Chan_reserve 3 True, Chan_store [1, 2, 3], Chan_commit 3] else [Chan_get_block True, Chan_consume 2]"
  have "(case channel_create example_vma 4096 0 Map.empty of None \<Rightarrow> None | Some (d, m1) \<Rightarrow>
      Some (cd_tx d, cd_rx d, map_sum id (\<lambda>s. (ch_sent s True, ch_received s False)) (chan_run d ?es (chan_start m1 ?todo)))) =
    Some (1, 2, Inr ([1, 2, 3], [1, 2]))"
    by code_simp
  then obtain d m1 s where c: "channel_create example_vma 4096 0 Map.empty = Some (d, m1)"
      and r: "chan_run d ?es (chan_start m1 ?todo) = Inr s"
      and v: "cd_tx d = 1" "ch_sent s True = [1, 2, 3]" "ch_received s False = [1, 2]"
    by (auto split: option.splits simp: map_sum_Inr_iff simp del: chan_run.simps)
  have "fresh_mapping example_vma"
    by (auto simp: fresh_mapping_def example_vma_def split: if_splits)
  from channel_fifo [OF this c r] c r v show ?thesis by (auto simp del: chan_run.simps)
qed

text \<open>A reservation on a channel is all or nothing: within the size of the buffer the sender is
  granted all bytes asked for as soon as they are available in one piece, and otherwise gets
  nothing (or waits); a sender never waits on a buffer that has been drained. A request above the
  size of the buffer returns the status \<open>j6_err_insufficient\<close> in place of a byte count.\<close>

theorem channel_reserve_all_or_nothing:
  assumes "bip_ok (ca_buf tx)" "sz \<noteq> 0"
  shows "case channel_reserve sz block tx of
      (Waits, tx') \<Rightarrow> block \<and> write_available (ca_buf tx) < sz \<and> sz \<le> m_buffer_size (ca_buf tx) \<and>
        \<not> (bip_live (ca_buf tx) \<and> bip_contents (ca_buf tx) = [] \<and> m_size_r (ca_buf tx) = 0)
    | (Returns (n, area), tx') \<Rightarrow>
        if sz > m_buffer_size (ca_buf tx) then n = j6_err_insufficient \<and> area = None \<and> tx' = tx
        else if sz \<le> write_available (ca_buf tx) then n = sz \<and> area = Some (m_start_r (ca_buf tx')) \<and>
          m_size_r (ca_buf tx') = sz \<and> bip_ok (ca_buf tx') \<and> bip_contents (ca_buf tx') = bip_contents (ca_buf tx)
        else \<not> block \<and> n = 0 \<and> area = None \<and> tx' = tx"
proof -
  let ?b = "ca_buf tx"
  consider (big) "sz > m_buffer_size ?b"
    | (none) "sz \<le> m_buffer_size ?b" "write_available ?b < sz"
    | (all) "sz \<le> m_buffer_size ?b" "sz \<le> write_available ?b" by fastforce
  then show ?thesis
  proof cases
    case big
    then show ?thesis by (simp add: channel_reserve_def)
  next
    case none
    moreover have "\<not> (bip_live ?b \<and> bip_contents ?b = [] \<and> m_size_r ?b = 0)"
      using none write_available_drained [OF assms(1)] by auto
    ultimately show ?thesis by (auto simp: channel_reserve_def)
  next
    case all
    have free: "m_size_r ?b = 0"
    proof (rule ccontr)
      assume "m_size_r ?b \<noteq> 0"
      then have "write_available ?b = 0" by (simp add: write_available_def)
      with all(2) assms(2) show False by simp
    qed
    obtain n area b' where r: "bip_reserve sz ?b = (n, area, b')" by (metis prod_cases3)
    have "write_available ?b \<noteq> 0" using all assms(2) by auto
    with bip_reserve_grant [OF assms(1) free r] bip_reserve_ok [OF assms(1) r] all assms(2) r show ?thesis
      by (auto simp: channel_reserve_def)
  qed
qed

theorem channel_reserve_all_or_nothing_witness:
  "channel_reserve 5000 True (init_channel_memory_area 9 4096 (replicate 3960 0)) =
     (Returns (j6_err_insufficient, None), init_channel_memory_area 9 4096 (replicate 3960 0))"
proof -
  have ok: "bip_ok (ca_buf (init_channel_memory_area 9 4096 (replicate 3960 0)))"
    using init_area_ok(1) [of 4096 "replicate 3960 0" 9] by (simp add: area_ok_def check_channel_size_def)
  have "m_buffer_size (ca_buf (init_channel_memory_area 9 4096 (replicate 3960 0))) = 3960"
    by (simp add: init_channel_memory_area_def bip_new_def channel_area_sizeof_def bip_sizeof_def)
  with channel_reserve_all_or_nothing [OF ok, of 5000 True] show ?thesis
    by (auto split: prod.splits call_result.splits if_splits)
qed

end
