(* ===== verification/Vector.thy ===== *)
theory Vector
  imports Util_Basics "HOL-Library.Multiset"
begin

text \<open>
  The dynamic array \<open>util::vector\<close> of \<open>src/src/libraries/util/include/util/vector.h\<close>,
  with the element count type \<open>uint32_t\<close> all its users take, over the
  \<open>default_allocator\<close> of \<open>allocator.h\<close>. The storage is a list of cells; a cell is
  \<open>None\<close> while it holds no live object (fresh from the allocator, or destroyed). The top
  bit of \<open>m_capacity\<close> marks storage the vector does not own. \<open>vec_rep\<close> relates a vector
  to the list of its elements.
\<close>

unbundle bit_operations_syntax

section \<open>State\<close>

record 'a vec =
  v_size :: u32
  v_capacity :: u32
  v_elements :: "'a option list"

definition cap_mask :: u32 where
  "cap_mask = drop_bit 1 (- 1)"

definition vec_min_capacity :: u32 where
  "vec_min_capacity = 4"

section \<open>Storage\<close>

definition da_allocate :: "nat \<Rightarrow> 'a option list" where
  "da_allocate n = replicate n None"

text \<open>\<open>memcpy\<close> of the first \<open>n\<close> cells of the source over those of the destination.\<close>

definition cells_memcpy :: "'a option list \<Rightarrow> 'a option list \<Rightarrow> nat \<Rightarrow> 'a option list res" where
  "cells_memcpy dest src n =
     (if n \<le> length dest \<and> n \<le> length src then Inr (take n src @ drop n dest) else Inl Out_of_bounds)"

definition da_realloc :: "'a option list \<Rightarrow> nat \<Rightarrow> nat \<Rightarrow> 'a option list res" where
  "da_realloc p oldsize newsize = cells_memcpy (da_allocate newsize) p oldsize"

definition cell_get :: "'a option list \<Rightarrow> nat \<Rightarrow> 'a res" where
  "cell_get cs i = bindE (array_get cs i) (\<lambda>c. case c of None \<Rightarrow> Inl Use_after_free | Some x \<Rightarrow> Inr x)"

section \<open>Operations\<close>

definition vec_new :: "'a vec" where
  "vec_new = \<lparr>v_size = 0, v_capacity = 0, v_elements = []\<rparr>"

definition vec_static :: "'a option list \<Rightarrow> u32 \<Rightarrow> u32 \<Rightarrow> 'a vec" where
  "vec_static data sz capacity = \<lparr>v_size = sz, v_capacity = capacity OR NOT cap_mask, v_elements = data\<rparr>"

definition vec_move :: "'a vec \<Rightarrow> 'a vec \<times> 'a vec" where
  "vec_move other =
     (\<lparr>v_size = v_size other, v_capacity = v_capacity other, v_elements = v_elements other\<rparr>,
      other\<lparr>v_size := 0, v_capacity := 0, v_elements := []\<rparr>)"

definition vec_count :: "'a vec \<Rightarrow> u32" where
  "vec_count v = v_size v"

definition vec_empty :: "'a vec \<Rightarrow> bool" where
  "vec_empty v \<longleftrightarrow> v_size v = 0"

definition vec_cap :: "'a vec \<Rightarrow> u32" where
  "vec_cap v = v_capacity v AND cap_mask"

definition vec_at :: "'a vec \<Rightarrow> u32 \<Rightarrow> 'a res" where
  "vec_at v i = cell_get (v_elements v) (unat i)"

text \<open>\<open>remove()\<close>: the last element.\<close>

definition vec_remove_last :: "'a vec \<Rightarrow> 'a vec res" where
  "vec_remove_last v =
     bindE (guardE Assert_failed (v_size v \<noteq> 0)) (\<lambda>_.
     let v1 = v\<lparr>v_size := v_size v - 1\<rparr> in
     bindE (array_set (v_elements v1) (unat (v_size v1)) None) (\<lambda>cs.
     Inr (v1\<lparr>v_elements := cs\<rparr>)))"

lemma vec_remove_last_size: "vec_remove_last v = Inr v' \<Longrightarrow> unat (v_size v') < unat (v_size v)"
proof -
  assume r: "vec_remove_last v = Inr v'"
  then have "v_size v \<noteq> 0" "v_size v' = v_size v - 1"
    by (auto simp: vec_remove_last_def bindE_Inr_iff Let_def)
  then show ?thesis by (metis unat_1 unat_eq_0_iff unat_minus_one diff_less gr0I less_one)
qed

text \<open>The loop \<open>while (capacity < m_size) remove()\<close> of \<open>set_capacity\<close>.\<close>

function vec_trim :: "u32 \<Rightarrow> 'a vec \<Rightarrow> 'a vec res" where
  "vec_trim capacity v =
     (if capacity < v_size v
      then (case vec_remove_last v of Inl e \<Rightarrow> Inl e | Inr v' \<Rightarrow> vec_trim capacity v')
      else Inr v)"
  by auto
termination by (relation "measure (\<lambda>(_, v). unat (v_size v))") (auto simp: vec_remove_last_size)

declare vec_trim.simps [simp del]

definition vec_set_capacity :: "u32 \<Rightarrow> 'a vec \<Rightarrow> 'a vec res" where
  "vec_set_capacity capacity v =
     bindE (vec_trim capacity v) (\<lambda>v.
     bindE (if v_capacity v AND NOT cap_mask \<noteq> 0
            then cells_memcpy (da_allocate (unat capacity)) (v_elements v) (unat (v_size v))
            else da_realloc (v_elements v) (unat (v_capacity v)) (unat capacity)) (\<lambda>cs.
     Inr (v\<lparr>v_elements := cs, v_capacity := capacity\<rparr>)))"

definition vec_ensure_capacity :: "u32 \<Rightarrow> 'a vec \<Rightarrow> 'a vec res" where
  "vec_ensure_capacity sz v =
     (if sz \<le> vec_cap v then Inr v
      else
        bindE (shl64 1 (log2 (ucast sz))) (\<lambda>w.
        let capacity = (ucast w :: u32);
            capacity = (if capacity < vec_min_capacity then vec_min_capacity else capacity)
        in vec_set_capacity capacity v))"

definition vec_with_capacity :: "u32 \<Rightarrow> 'a vec res" where
  "vec_with_capacity capacity = vec_set_capacity capacity vec_new"

definition vec_copy :: "'a vec \<Rightarrow> 'a vec res" where
  "vec_copy other =
     bindE (vec_set_capacity (v_capacity other) vec_new) (\<lambda>v.
     bindE (cells_memcpy (v_elements v) (v_elements other) (unat (v_size other))) (\<lambda>cs.
     Inr (v\<lparr>v_elements := cs, v_size := v_size other\<rparr>)))"

definition vec_append :: "'a \<Rightarrow> 'a vec \<Rightarrow> 'a vec res" where
  "vec_append item v =
     bindE (vec_ensure_capacity (v_size v + 1) v) (\<lambda>v.
     bindE (array_set (v_elements v) (unat (v_size v)) (Some item)) (\<lambda>cs.
     Inr (v\<lparr>v_elements := cs, v_size := v_size v + 1\<rparr>)))"

text \<open>The loop of \<open>insert\<close> that moves the elements above \<open>i\<close> up, from \<open>j\<close> down.\<close>

fun vec_shift_up :: "nat \<Rightarrow> nat \<Rightarrow> 'a option list \<Rightarrow> 'a option list res" where
  "vec_shift_up i 0 cs = Inr cs"
| "vec_shift_up i (Suc j) cs =
     (if i < Suc j
      then bindE (array_get cs j) (\<lambda>c. bindE (array_set cs (Suc j) c) (vec_shift_up i j))
      else Inr cs)"

definition vec_insert :: "u32 \<Rightarrow> 'a \<Rightarrow> 'a vec \<Rightarrow> 'a vec res" where
  "vec_insert i item v =
     (if vec_count v \<le> i then vec_append item v
      else
        bindE (vec_ensure_capacity (v_size v + 1) v) (\<lambda>v.
        bindE (vec_shift_up (unat i) (unat (v_size v)) (v_elements v)) (\<lambda>cs.
        bindE (array_set cs (unat i) (Some item)) (\<lambda>cs.
        Inr (v\<lparr>v_elements := cs, v_size := v_size v + 1\<rparr>)))))"

text \<open>The binary search of \<open>sorted_insert\<close>; \<open>compare item other\<close> is \<open>item.compare(other)\<close>.\<close>

function vec_search :: "('a \<Rightarrow> 'a \<Rightarrow> int) \<Rightarrow> 'a \<Rightarrow> 'a option list \<Rightarrow> nat \<Rightarrow> nat \<Rightarrow> nat res" where
  "vec_search compare item cs start end =
     (if start < end
      then
        let m = start + (end - start) div 2
        in (case cell_get cs m of Inl e \<Rightarrow> Inl e
            | Inr x \<Rightarrow>
                if compare item x < 0 then vec_search compare item cs start m
                else vec_search compare item cs (m + 1) end)
      else Inr start)"
  by auto
termination by (relation "measure (\<lambda>(_, _, _, s, e). e - s)") auto

declare vec_search.simps [simp del]

definition vec_sorted_insert :: "('a \<Rightarrow> 'a \<Rightarrow> int) \<Rightarrow> 'a \<Rightarrow> 'a vec \<Rightarrow> (u32 \<times> 'a vec) res" where
  "vec_sorted_insert compare item v =
     bindE (vec_search compare item (v_elements v) 0 (unat (v_size v))) (\<lambda>start.
     bindE (vec_insert (of_nat start) item v) (\<lambda>v. Inr (of_nat start, v)))"

text \<open>The loops of \<open>remove_at\<close>: destroying the items (\<open>Inl\<close> the cells at the early return), and
  moving the later ones down.\<close>

function vec_destroy :: "nat \<Rightarrow> nat \<Rightarrow> nat \<Rightarrow> 'a option list \<Rightarrow> ('a option list + 'a option list) res" where
  "vec_destroy sz j stop cs =
     (if j < stop
      then if sz \<le> j then Inr (Inl cs)
           else if j < length cs then vec_destroy sz (j + 1) stop (cs[j := None])
           else Inl Out_of_bounds
      else Inr (Inr cs))"
  by auto
termination by (relation "measure (\<lambda>(_, j, stop, _). stop - j)") auto

declare vec_destroy.simps [simp del]

function vec_shift_down :: "nat \<Rightarrow> nat \<Rightarrow> nat \<Rightarrow> 'a option list \<Rightarrow> 'a option list res" where
  "vec_shift_down n i stop cs =
     (if i < stop
      then if i + n < length cs \<and> i < length cs then vec_shift_down n (i + 1) stop (cs[i := cs ! (i + n)])
           else Inl Out_of_bounds
      else Inr cs)"
  by auto
termination by (relation "measure (\<lambda>(_, i, stop, _). stop - i)") auto

declare vec_shift_down.simps [simp del]

definition vec_remove_at :: "u32 \<Rightarrow> u32 \<Rightarrow> 'a vec \<Rightarrow> 'a vec res" where
  "vec_remove_at i n v =
     bindE (vec_destroy (unat (v_size v)) (unat i) (unat (i + n)) (v_elements v)) (\<lambda>r.
     case r of
       Inl cs \<Rightarrow> Inr (v\<lparr>v_elements := cs\<rparr>)
     | Inr cs \<Rightarrow>
         bindE (vec_shift_down (unat n) (unat i) (unat (v_size v - n)) cs) (\<lambda>cs.
         Inr (v\<lparr>v_elements := cs, v_size := v_size v - n\<rparr>)))"

definition vec_remove_front :: "'a vec \<Rightarrow> 'a vec res" where
  "vec_remove_front v = bindE (guardE Assert_failed (v_size v \<noteq> 0)) (\<lambda>_. vec_remove_at 0 1 v)"

text \<open>The index loop of \<open>remove(item)\<close> and \<open>remove_swap\<close>.\<close>

function vec_index :: "'a \<Rightarrow> nat \<Rightarrow> nat \<Rightarrow> 'a option list \<Rightarrow> nat option res" where
  "vec_index item i sz cs =
     (if i < sz
      then (case cell_get cs i of Inl e \<Rightarrow> Inl e
            | Inr x \<Rightarrow> if x = item then Inr (Some i) else vec_index item (i + 1) sz cs)
      else Inr None)"
  by auto
termination by (relation "measure (\<lambda>(_, i, sz, _). sz - i)") auto

declare vec_index.simps [simp del]

definition vec_remove_item :: "'a \<Rightarrow> 'a vec \<Rightarrow> 'a vec res" where
  "vec_remove_item item v =
     bindE (guardE Assert_failed (v_size v \<noteq> 0)) (\<lambda>_.
     bindE (vec_index item 0 (unat (v_size v)) (v_elements v)) (\<lambda>r.
     case r of None \<Rightarrow> Inr v | Some i \<Rightarrow> vec_remove_at (of_nat i) 1 v))"

definition vec_remove_swap_at :: "u32 \<Rightarrow> 'a vec \<Rightarrow> 'a vec res" where
  "vec_remove_swap_at i v =
     (if vec_count v \<le> i then Inr v
      else
        bindE (array_set (v_elements v) (unat i) None) (\<lambda>cs.
        bindE (if i < v_size v - 1
               then bindE (array_get cs (unat (v_size v - 1))) (array_set cs (unat i))
               else Inr cs) (\<lambda>cs.
        Inr (v\<lparr>v_elements := cs, v_size := v_size v - 1\<rparr>))))"

definition vec_remove_swap :: "'a \<Rightarrow> 'a vec \<Rightarrow> 'a vec res" where
  "vec_remove_swap item v =
     bindE (vec_index item 0 (unat (v_size v)) (v_elements v)) (\<lambda>r.
     case r of None \<Rightarrow> Inr v | Some i \<Rightarrow> vec_remove_swap_at (of_nat i) v)"

definition vec_pop :: "'a vec \<Rightarrow> ('a \<times> 'a vec) res" where
  "vec_pop v =
     bindE (guardE Assert_failed (v_size v \<noteq> 0)) (\<lambda>_.
     bindE (vec_at v (v_size v - 1)) (\<lambda>temp.
     bindE (vec_remove_last v) (\<lambda>v. Inr (temp, v))))"

definition vec_pop_front :: "'a vec \<Rightarrow> ('a \<times> 'a vec) res" where
  "vec_pop_front v =
     bindE (guardE Assert_failed (v_size v \<noteq> 0)) (\<lambda>_.
     bindE (vec_at v 0) (\<lambda>temp.
     bindE (vec_remove_front v) (\<lambda>v. Inr (temp, v))))"

text \<open>\<open>set_size\<close>: each of the two loops sets a range of cells, to nothing or to the default
  constructed value \<open>fresh\<close>.\<close>

definition cells_fill :: "nat \<Rightarrow> nat \<Rightarrow> 'a option \<Rightarrow> 'a option list \<Rightarrow> 'a option list res" where
  "cells_fill i stop c cs =
     (if stop \<le> i then Inr cs
      else if stop \<le> length cs then Inr (take i cs @ replicate (stop - i) c @ drop stop cs)
      else Inl Out_of_bounds)"

definition vec_set_size :: "'a \<Rightarrow> u32 \<Rightarrow> 'a vec \<Rightarrow> 'a vec res" where
  "vec_set_size fresh sz v =
     bindE (vec_ensure_capacity sz v) (\<lambda>v.
     bindE (cells_fill (unat sz) (unat (v_size v)) None (v_elements v)) (\<lambda>cs.
     bindE (cells_fill (unat (v_size v)) (unat sz) (Some fresh) cs) (\<lambda>cs.
     Inr (v\<lparr>v_elements := cs, v_size := sz\<rparr>))))"

section \<open>Representation\<close>

definition vec_rep :: "'a vec \<Rightarrow> 'a list \<Rightarrow> bool" where
  "vec_rep v xs \<longleftrightarrow> length (v_elements v) = unat (vec_cap v) \<and> length xs = unat (v_size v) \<and>
     length xs \<le> length (v_elements v) \<and> (\<forall>i<length xs. v_elements v ! i = Some (xs ! i))"

lemma vec_repD:
  assumes "vec_rep v xs"
  shows "length (v_elements v) = unat (vec_cap v)" "length xs = unat (v_size v)"
    "length xs \<le> length (v_elements v)" "\<And>i. i < length xs \<Longrightarrow> v_elements v ! i = Some (xs ! i)"
  using assms by (auto simp: vec_rep_def)

lemma vec_rep_new: "vec_rep vec_new []"
  by (simp add: vec_rep_def vec_new_def vec_cap_def)

lemma cap_mask_eq: "cap_mask = mask 31"
  by (simp add: cap_mask_def mask_eq_exp_minus_1)

lemma cap_static_iff: "w AND NOT cap_mask \<noteq> 0 \<longleftrightarrow> 2 ^ 31 \<le> unat w"
proof -
  have "w AND NOT cap_mask = 0 \<longleftrightarrow> take_bit 31 w = w"
    by (auto simp: cap_mask_eq take_bit_eq_mask bit_eq_iff bit_and_iff bit_not_iff bit_mask_iff)
  also have "\<dots> \<longleftrightarrow> unat w < 2 ^ 31"
    by (metis take_bit_nat_eq_self_iff unsigned_take_bit_eq word_unat_eq_iff)
  finally show ?thesis by auto
qed

lemma cap_and_mask: "unat (w AND cap_mask) = unat w mod 2 ^ 31"
  by (simp add: cap_mask_eq flip: take_bit_eq_mask) (simp add: unsigned_take_bit_eq take_bit_nat_def)

lemma vec_static_rep:
  assumes "length xs = unat sz" "length xs + length rest = unat c" "unat c < 2 ^ 31"
  shows "vec_rep (vec_static (map Some xs @ rest) sz c) xs"
proof -
  have "(c OR NOT cap_mask) AND cap_mask = c AND cap_mask"
    by (rule bit_eqI) (auto simp: bit_and_iff bit_or_iff bit_not_iff)
  then show ?thesis using assms by (simp add: vec_rep_def vec_static_def vec_cap_def cap_and_mask nth_append)
qed

lemma vec_set_capacity_rep:
  assumes v: "vec_rep v xs" and c: "unat (vec_cap v) \<le> unat c" "unat c < 2 ^ 31"
  shows "\<exists>v'. vec_set_capacity c v = Inr v' \<and> vec_rep v' xs \<and> vec_cap v' = c \<and> v_size v' = v_size v"
proof -
  note D = vec_repD [OF v]
  have t: "vec_trim c v = Inr v"
    using c(1) D(1-3) by (subst vec_trim.simps) (simp add: word_less_nat_alt)
  have cap: "vec_cap (v\<lparr>v_elements := cs, v_capacity := c\<rparr>) = c" for cs
    using c(2) by (simp add: vec_cap_def word_eq_unat [THEN iffD2] cap_and_mask)
  show ?thesis
  proof (cases "v_capacity v AND NOT cap_mask \<noteq> 0")
    case True
    let ?cs = "take (unat (v_size v)) (v_elements v) @ drop (unat (v_size v)) (da_allocate (unat c))"
    have "vec_rep (v\<lparr>v_elements := ?cs, v_capacity := c\<rparr>) xs"
      unfolding vec_rep_def using D c(1) cap [of ?cs] by (simp add: da_allocate_def nth_append)
    with True t D c(1) cap [of ?cs] show ?thesis
      by (simp add: vec_set_capacity_def cells_memcpy_def da_allocate_def)
  next
    case False
    then have old: "unat (v_capacity v) = unat (vec_cap v)"
      using cap_static_iff [of "v_capacity v"] by (simp add: vec_cap_def cap_and_mask)
    let ?cs = "take (unat (v_capacity v)) (v_elements v) @ drop (unat (v_capacity v)) (da_allocate (unat c))"
    have "vec_rep (v\<lparr>v_elements := ?cs, v_capacity := c\<rparr>) xs"
      unfolding vec_rep_def using D c(1) cap [of ?cs] old by (simp add: da_allocate_def nth_append)
    with False t D c(1) old cap [of ?cs] show ?thesis
      by (simp add: vec_set_capacity_def da_realloc_def cells_memcpy_def da_allocate_def)
  qed
qed

text \<open>Growing rounds up to a power of two, of at least four.\<close>

lemma LENGTH_32: "LENGTH(32) = 32"
  by simp

lemma vec_capacity_for:
  assumes "unat (sz :: u32) \<le> 2 ^ 30"
  shows "\<exists>k\<le>30. shl64 1 (log2 (ucast sz)) = Inr (2 ^ k) \<and> unat sz \<le> 2 ^ k \<and> unat (ucast (2 ^ k :: u64) :: u32) = 2 ^ k"
proof -
  let ?s = "ucast sz :: u64"
  have s: "unat ?s = unat sz" by (rule unat_ucast_u32_u64)
  have "?s \<le> 2 ^ 30" using assms s by (simp add: word_le_nat_alt)
  then have k: "log2 ?s \<le> 30" by (rule log2_le) simp
  have "unat sz \<le> 2 ^ log2 ?s"
  proof (cases "2 \<le> ?s")
    case True
    then show ?thesis using log2_bounds(2) [OF True] s by simp
  next
    case False
    then have "unat sz < 2" using s by (simp add: word_le_nat_alt)
    moreover have "(1::nat) \<le> 2 ^ log2 ?s" by simp
    ultimately show ?thesis by linarith
  qed
  moreover have "unat (ucast (2 ^ log2 ?s :: u64) :: u32) = 2 ^ log2 ?s"
  proof -
    have "(2::nat) ^ log2 ?s < 2 ^ 32" using k by (intro power_strict_increasing) auto
    moreover have "unat (2 ^ log2 ?s :: u64) = 2 ^ log2 ?s" using k by (intro unat_exp_u64) simp
    ultimately show ?thesis by (simp only: unsigned_ucast_eq take_bit_nat_def mod_less LENGTH_32)
  qed
  moreover have "shl64 1 (log2 ?s) = Inr (2 ^ log2 ?s)" using k by (simp add: push_bit_eq_mult)
  ultimately show ?thesis using k by blast
qed

lemma vec_ensure_capacity_rep:
  assumes v: "vec_rep v xs" and sz: "unat sz \<le> 2 ^ 30"
  shows "\<exists>v'. vec_ensure_capacity sz v = Inr v' \<and> vec_rep v' xs \<and> unat sz \<le> length (v_elements v') \<and>
           v_size v' = v_size v"
proof (cases "sz \<le> vec_cap v")
  case True
  then show ?thesis using v vec_repD(1) [OF v] by (simp add: vec_ensure_capacity_def word_le_nat_alt)
next
  case False
  obtain k where k: "k \<le> 30" "shl64 1 (log2 (ucast sz)) = Inr (2 ^ k)" "unat sz \<le> 2 ^ k"
      "unat (ucast (2 ^ k :: u64) :: u32) = 2 ^ k" using vec_capacity_for [OF sz] by blast
  define c where "c = (if (ucast (2 ^ k :: u64) :: u32) < vec_min_capacity then vec_min_capacity else ucast (2 ^ k :: u64))"
  have "(2::nat) ^ k \<le> 2 ^ 30" using k(1) by (intro power_increasing) auto
  then have c: "unat sz \<le> unat c" "unat c < 2 ^ 31"
    using k(3,4) by (auto simp: c_def vec_min_capacity_def word_less_nat_alt)
  have "unat (vec_cap v) \<le> unat c" using False c(1) by (simp add: word_le_nat_alt)
  from vec_set_capacity_rep [OF v this c(2)] obtain v' where
    v': "vec_set_capacity c v = Inr v'" "vec_rep v' xs" "vec_cap v' = c" "v_size v' = v_size v" by blast
  have "vec_ensure_capacity sz v = vec_set_capacity c v"
    using False k(2) by (simp add: vec_ensure_capacity_def c_def Let_def)
  with v' vec_repD(1) [OF v'(2)] c(1) show ?thesis by simp
qed

section \<open>Adding elements\<close>

lemma vec_size_Suc:
  assumes "vec_rep v xs" "length xs < 2 ^ 30"
  shows "unat (v_size v + 1) = Suc (length xs)"
  using assms vec_repD(2) [OF assms(1)] by (simp add: unat_add_no_wrap)

lemma vec_append_rep:
  assumes v: "vec_rep v xs" and n: "length xs < 2 ^ 30"
  shows "\<exists>v'. vec_append x v = Inr v' \<and> vec_rep v' (xs @ [x])"
proof -
  have "unat (v_size v + 1) \<le> 2 ^ 30" using vec_size_Suc [OF v n] n by simp
  from vec_ensure_capacity_rep [OF v this] obtain w where
    w: "vec_ensure_capacity (v_size v + 1) v = Inr w" "vec_rep w xs" "unat (v_size v + 1) \<le> length (v_elements w)"
      "v_size w = v_size v" by blast
  note D = vec_repD [OF w(2)]
  have s: "unat (v_size v) = length xs" using D(2) w(4) by simp
  have len: "length xs < length (v_elements w)" using w(3) vec_size_Suc [OF v n] by simp
  have a: "vec_append x v = Inr (w\<lparr>v_elements := (v_elements w)[length xs := Some x], v_size := v_size v + 1\<rparr>)"
    using w(1,4) len by (simp add: vec_append_def s)
  show ?thesis unfolding a
    using D(1,4) vec_size_Suc [OF v n] len by (simp add: vec_rep_def vec_cap_def nth_append nth_list_update)
qed

lemma vec_shift_up_nth:
  assumes "i \<le> j" "j < length cs"
  shows "\<exists>cs'. vec_shift_up i j cs = Inr cs' \<and> length cs' = length cs \<and>
           (\<forall>k<length cs. cs' ! k = (if i < k \<and> k \<le> j then cs ! (k - 1) else cs ! k))"
  using assms
proof (induction j arbitrary: cs)
  case (Suc j)
  show ?case
  proof (cases "i = Suc j")
    case False
    let ?cs = "cs[Suc j := cs ! j]"
    have "i \<le> j" "j < length ?cs" using Suc.prems False by simp_all
    from Suc.IH [OF this] obtain cs' where
      c: "vec_shift_up i j ?cs = Inr cs'" "length cs' = length cs"
        "\<And>k. k < length cs \<Longrightarrow> cs' ! k = (if i < k \<and> k \<le> j then ?cs ! (k - 1) else ?cs ! k)" by auto
    have "cs' ! k = (if i < k \<and> k \<le> Suc j then cs ! (k - 1) else cs ! k)" if "k < length cs" for k
      using c(3) [OF that] Suc.prems that False by (auto simp: nth_list_update)
    moreover have "vec_shift_up i (Suc j) cs = Inr cs'" using c(1) Suc.prems False by simp
    ultimately show ?thesis using c(2) by blast
  qed auto
qed auto

lemma vec_insert_rep:
  assumes v: "vec_rep v xs" and n: "length xs < 2 ^ 30"
  shows "\<exists>v'. vec_insert i x v = Inr v' \<and> vec_rep v' (take (unat i) xs @ x # drop (unat i) xs)"
proof (cases "vec_count v \<le> i")
  case True
  then have "length xs \<le> unat i" using vec_repD(2) [OF v] by (simp add: vec_count_def word_le_nat_alt)
  then show ?thesis using True vec_append_rep [OF v n, of x] by (simp add: vec_insert_def)
next
  case False
  then have i: "unat i < length xs" using vec_repD(2) [OF v] by (simp add: vec_count_def word_le_nat_alt)
  have "unat (v_size v + 1) \<le> 2 ^ 30" using vec_size_Suc [OF v n] n by simp
  from vec_ensure_capacity_rep [OF v this] obtain w where
    w: "vec_ensure_capacity (v_size v + 1) v = Inr w" "vec_rep w xs" "unat (v_size v + 1) \<le> length (v_elements w)"
      "v_size w = v_size v" by blast
  note D = vec_repD [OF w(2)]
  have s: "unat (v_size v) = length xs" using D(2) w(4) by simp
  have len: "length xs < length (v_elements w)" using w(3) vec_size_Suc [OF v n] by simp
  obtain cs where cs: "vec_shift_up (unat i) (length xs) (v_elements w) = Inr cs" "length cs = length (v_elements w)"
      "\<And>k. k < length cs \<Longrightarrow> cs ! k = (if unat i < k \<and> k \<le> length xs then v_elements w ! (k - 1) else v_elements w ! k)"
    using vec_shift_up_nth [of "unat i" "length xs" "v_elements w"] i len by auto
  have "cs[unat i := Some x] ! k = Some ((take (unat i) xs @ x # drop (unat i) xs) ! k)" if "k < Suc (length xs)" for k
    using that cs(3) [of k] cs(2) D(4) [of k] D(4) [of "k - 1"] i len
    by (auto simp: nth_append nth_list_update nth_Cons' min_def)
  moreover have "vec_insert i x v = Inr (w\<lparr>v_elements := cs[unat i := Some x], v_size := v_size v + 1\<rparr>)"
    using w(1,4) False cs(1,2) i len by (simp add: vec_insert_def s)
  ultimately show ?thesis
    using D(1) cs(2) i len vec_size_Suc [OF v n] by (simp add: vec_rep_def vec_cap_def min_def)
qed

section \<open>Searching\<close>

lemma cell_get_rep: "vec_rep v xs \<Longrightarrow> i < length xs \<Longrightarrow> cell_get (v_elements v) i = Inr (xs ! i)"
  using vec_repD(3,4) [of v xs] by (simp add: cell_get_def)

text \<open>The binary search finds the boundary between the elements that \<open>item\<close> does not precede and
  those it precedes, whenever the elements are partitioned in that way.\<close>

lemma vec_search_boundary:
  assumes "vec_rep v xs" "start \<le> b" "b \<le> end" "end \<le> length xs"
    and below: "\<And>i. i < b \<Longrightarrow> 0 \<le> compare item (xs ! i)"
    and above: "\<And>i. b \<le> i \<Longrightarrow> i < length xs \<Longrightarrow> compare item (xs ! i) < 0"
  shows "vec_search compare item (v_elements v) start end = Inr b"
  using assms(2-4)
proof (induction "end - start" arbitrary: start "end" rule: less_induct)
  case less
  show ?case
  proof (cases "start < end")
    case True
    let ?m = "start + (end - start) div 2"
    have m: "start \<le> ?m" "?m < end" using True by auto
    then have g: "cell_get (v_elements v) ?m = Inr (xs ! ?m)" using assms(1) less.prems by (intro cell_get_rep) auto
    show ?thesis
    proof (cases "compare item (xs ! ?m) < 0")
      case neg: True
      then have "b \<le> ?m" using below [of ?m] by (meson linorder_not_le not_less)
      then have "vec_search compare item (v_elements v) start ?m = Inr b" using m less.prems by (intro less.hyps) auto
      with True g neg show ?thesis by (subst vec_search.simps) (simp add: Let_def)
    next
      case pos: False
      then have "?m < b" using above [of ?m] m less.prems by (meson linorder_not_le order_less_le_trans)
      then have "vec_search compare item (v_elements v) (?m + 1) end = Inr b" using m less.prems by (intro less.hyps) auto
      with True g pos show ?thesis by (subst vec_search.simps) (simp add: Let_def)
    qed
  next
    case False
    then show ?thesis using less.prems by (subst vec_search.simps) simp
  qed
qed

lemma vec_index_find:
  assumes "vec_rep v xs" "i \<le> length xs"
  shows "vec_index item i (length xs) (v_elements v) =
           Inr (if item \<in> set (drop i xs) then Some (i + length (takeWhile (\<lambda>y. y \<noteq> item) (drop i xs))) else None)"
  using assms(2)
proof (induction "length xs - i" arbitrary: i)
  case (Suc d)
  then have i: "i < length xs" by simp
  then have dr: "drop i xs = xs ! i # drop (Suc i) xs" by (rule Cons_nth_drop_Suc [symmetric])
  have "vec_index item (Suc i) (length xs) (v_elements v) =
     Inr (if item \<in> set (drop (Suc i) xs) then Some (Suc i + length (takeWhile (\<lambda>y. y \<noteq> item) (drop (Suc i) xs))) else None)"
    using Suc i by (intro Suc(1)) auto
  then show ?case using i cell_get_rep [OF assms(1) i] by (subst vec_index.simps) (auto simp: dr)
qed (simp add: vec_index.simps)

section \<open>Removing elements\<close>

lemma vec_destroy_in:
  assumes "stop \<le> sz" "stop \<le> length cs"
  shows "\<exists>cs'. vec_destroy sz j stop cs = Inr (Inr cs') \<and> length cs' = length cs \<and>
           (\<forall>k. k < j \<or> stop \<le> k \<longrightarrow> cs' ! k = cs ! k)"
  using assms(2)
proof (induction "stop - j" arbitrary: j cs)
  case (Suc d)
  have "d = stop - (j + 1)" "stop \<le> length (cs[j := None])" and j: "j < stop" using Suc by simp_all
  from Suc(1) [OF this(1,2)] obtain cs' where
    c: "vec_destroy sz (j + 1) stop (cs[j := None]) = Inr (Inr cs')" "length cs' = length cs"
      "\<forall>k. k < j + 1 \<or> stop \<le> k \<longrightarrow> cs' ! k = cs[j := None] ! k" by auto
  have "vec_destroy sz j stop cs = Inr (Inr cs')"
    using c(1) j Suc.prems assms(1) by (subst vec_destroy.simps) simp
  moreover have "\<forall>k. k < j \<or> stop \<le> k \<longrightarrow> cs' ! k = cs ! k" using c(3) Suc.hyps(2) by auto
  ultimately show ?case using c(2) by blast
qed (simp add: vec_destroy.simps)

lemma vec_shift_down_nth:
  assumes "stop + n \<le> length cs"
  shows "\<exists>cs'. vec_shift_down n i stop cs = Inr cs' \<and> length cs' = length cs \<and>
           (\<forall>k. cs' ! k = (if i \<le> k \<and> k < stop then cs ! (k + n) else cs ! k))"
  using assms
proof (induction "stop - i" arbitrary: i cs)
  case (Suc d)
  let ?cs = "cs[i := cs ! (i + n)]"
  have i: "i < stop" "i + n < length cs" using Suc by simp_all
  have "d = stop - (i + 1)" "stop + n \<le> length ?cs" using Suc by simp_all
  from Suc(1) [OF this] obtain cs' where
    c: "vec_shift_down n (i + 1) stop ?cs = Inr cs'" "length cs' = length cs"
      "\<And>k. cs' ! k = (if i + 1 \<le> k \<and> k < stop then ?cs ! (k + n) else ?cs ! k)" by auto
  have "vec_shift_down n i stop cs = Inr cs'" using c(1) i by (subst vec_shift_down.simps) simp
  moreover have "cs' ! k = (if i \<le> k \<and> k < stop then cs ! (k + n) else cs ! k)" for k
    using c(3) [of k] i by (auto simp: nth_list_update)
  ultimately show ?case using c(2) by blast
qed (auto simp: vec_shift_down.simps)

lemma vec_remove_at_rep:
  assumes v: "vec_rep v xs" and i: "unat i + unat n \<le> length xs"
  shows "\<exists>v'. vec_remove_at i n v = Inr v' \<and> vec_rep v' (take (unat i) xs @ drop (unat i + unat n) xs)"
proof -
  note D = vec_repD [OF v]
  have add: "unat (i + n) = unat i + unat n" using i D(2) by (intro unat_add_bounded [of _ _ "v_size v"]) simp
  have sub: "unat (v_size v - n) = length xs - unat n" using i D(2) by (simp add: unat_sub_no_wrap)
  obtain cs where cs: "vec_destroy (length xs) (unat i) (unat i + unat n) (v_elements v) = Inr (Inr cs)"
      "length cs = length (v_elements v)" "\<forall>k. k < unat i \<or> unat i + unat n \<le> k \<longrightarrow> cs ! k = v_elements v ! k"
    using vec_destroy_in [of "unat i + unat n" "length xs" "v_elements v" "unat i"] i D(3) by auto
  have "length xs - unat n + unat n \<le> length cs" using i D(3) cs(2) by simp
  from vec_shift_down_nth [OF this, of "unat i"] obtain cs' where
    c': "vec_shift_down (unat n) (unat i) (length xs - unat n) cs = Inr cs'" "length cs' = length cs"
      "\<And>k. cs' ! k = (if unat i \<le> k \<and> k < length xs - unat n then cs ! (k + unat n) else cs ! k)" by blast
  have "vec_remove_at i n v = Inr (v\<lparr>v_elements := cs', v_size := v_size v - n\<rparr>)"
    using cs(1) c'(1) by (simp add: vec_remove_at_def add sub flip: D(2))
  moreover have "cs' ! k = Some ((take (unat i) xs @ drop (unat i + unat n) xs) ! k)" if "k < length xs - unat n" for k
    using that c'(3) [of k] cs(3) D(4) [of k] D(4) [of "k + unat n"] i
    by (auto simp: nth_append min_def add.commute add.left_commute)
  moreover have "length (take (unat i) xs @ drop (unat i + unat n) xs) = length xs - unat n"
    "length xs - unat n \<le> length cs'" using i D(3) cs(2) c'(2) by simp_all
  ultimately show ?thesis
    using D(1) sub cs(2) c'(2) by (simp add: vec_rep_def vec_cap_def del: length_append)
qed

text \<open>A range that ends past the last element: the elements from \<open>i\<close> on are destroyed, the
  size stays, so the vector is left with dead elements.\<close>

lemma vec_destroy_past:
  assumes "sz < stop" "sz \<le> length cs" "j \<le> sz"
  shows "vec_destroy sz j stop cs = Inr (Inl (take j cs @ replicate (sz - j) None @ drop sz cs))"
  using assms(2,3)
proof (induction "sz - j" arbitrary: j cs)
  case 0
  then show ?case using assms(1) by (subst vec_destroy.simps) simp
next
  case (Suc d)
  have "vec_destroy sz (j + 1) stop (cs[j := None]) =
      Inr (Inl (take (j + 1) (cs[j := None]) @ replicate (sz - (j + 1)) None @ drop sz (cs[j := None])))"
    using Suc by (intro Suc(1)) simp_all
  moreover have "take (j + 1) (cs[j := None]) = take j cs @ [None]" using Suc by (simp add: take_Suc_conv_app_nth)
  moreover have "sz - j = Suc (sz - (j + 1))" using Suc by simp
  ultimately show ?case using Suc assms(1) by (subst vec_destroy.simps) simp
qed


lemma vec_remove_last_rep:
  assumes v: "vec_rep v xs" and ne: "xs \<noteq> []"
  shows "\<exists>v'. vec_remove_last v = Inr v' \<and> vec_rep v' (butlast xs)"
proof -
  note D = vec_repD [OF v]
  have nz: "v_size v \<noteq> 0" using D(2) ne by auto
  then have sub: "unat (v_size v - 1) = length xs - 1" using D(2) by (simp add: unat_minus_one)
  have "length xs - 1 < length (v_elements v)" using D(3) ne by (meson diff_less length_greater_0_conv less_le_trans zero_less_one)
  then show ?thesis using D nz sub
    by (simp add: vec_remove_last_def vec_rep_def vec_cap_def nth_butlast nth_list_update)
qed

lemma vec_remove_swap_at_rep:
  assumes v: "vec_rep v xs" and i: "unat i < length xs"
  shows "\<exists>v'. vec_remove_swap_at i v = Inr v' \<and> vec_rep v' (butlast (xs[unat i := last xs]))"
proof -
  note D = vec_repD [OF v]
  have nz: "v_size v \<noteq> 0" using D(2) i by auto
  then have sub: "unat (v_size v - 1) = length xs - 1" using D(2) by (simp add: unat_minus_one)
  have len: "unat i < length (v_elements v)" "length xs - 1 < length (v_elements v)" using D(3) i by auto
  have guard: "\<not> vec_count v \<le> i" using D(2) i by (simp add: vec_count_def word_le_nat_alt)
  have last: "last xs = xs ! (length xs - 1)" using i by (intro last_conv_nth) auto
  show ?thesis
  proof (cases "unat i < length xs - 1")
    case True
    have "vec_remove_swap_at i v =
        Inr (v\<lparr>v_elements := (v_elements v)[unat i := Some (last xs)], v_size := v_size v - 1\<rparr>)"
      using guard len True D(4) [of "length xs - 1"] sub last i
      by (simp add: vec_remove_swap_at_def word_less_nat_alt)
    then show ?thesis
      using D(1,3,4) sub i by (simp add: vec_rep_def vec_cap_def nth_butlast nth_list_update)
  next
    case False
    with i have li: "unat i = length xs - 1" by simp
    have "vec_remove_swap_at i v = Inr (v\<lparr>v_elements := (v_elements v)[unat i := None], v_size := v_size v - 1\<rparr>)"
      using guard len False sub by (simp add: vec_remove_swap_at_def word_less_nat_alt)
    then show ?thesis
      using D(1,3,4) sub i li by (simp add: vec_rep_def vec_cap_def nth_butlast nth_list_update)
  qed
qed

lemma vec_pop_rep:
  assumes v: "vec_rep v xs" and ne: "xs \<noteq> []"
  shows "\<exists>v'. vec_pop v = Inr (last xs, v') \<and> vec_rep v' (butlast xs)"
proof -
  note D = vec_repD [OF v]
  have nz: "v_size v \<noteq> 0" using D(2) ne by auto
  then have sub: "unat (v_size v - 1) = length xs - 1" using D(2) by (simp add: unat_minus_one)
  have "vec_at v (v_size v - 1) = Inr (last xs)"
    using cell_get_rep [OF v, of "length xs - 1"] ne by (simp add: vec_at_def sub last_conv_nth)
  with nz vec_remove_last_rep [OF v ne] show ?thesis by (auto simp: vec_pop_def)
qed

lemma vec_remove_front_rep:
  assumes v: "vec_rep v xs" and ne: "xs \<noteq> []"
  shows "\<exists>v'. vec_remove_front v = Inr v' \<and> vec_rep v' (tl xs)"
proof -
  have "v_size v \<noteq> 0" using vec_repD(2) [OF v] ne by auto
  moreover have "unat (0::u32) + unat (1::u32) \<le> length xs" using ne by (simp add: Suc_le_eq)
  ultimately show ?thesis using vec_remove_at_rep [OF v, of 0 1] by (simp add: vec_remove_front_def drop_Suc)
qed

lemma vec_pop_front_rep:
  assumes v: "vec_rep v xs" and ne: "xs \<noteq> []"
  shows "\<exists>v'. vec_pop_front v = Inr (hd xs, v') \<and> vec_rep v' (tl xs)"
proof -
  have "v_size v \<noteq> 0" using vec_repD(2) [OF v] ne by auto
  moreover have "vec_at v 0 = Inr (hd xs)"
    using cell_get_rep [OF v, of 0] ne by (simp add: vec_at_def hd_conv_nth length_greater_0_conv)
  ultimately show ?thesis using vec_remove_front_rep [OF v ne] by (auto simp: vec_pop_front_def)
qed

lemma split_first:
  assumes "x \<in> set xs"
  defines "k \<equiv> length (takeWhile (\<lambda>y. y \<noteq> x) xs)"
  shows "k < length xs" "remove1 x xs = take k xs @ drop (k + 1) xs" "xs ! k = x"
proof -
  have "takeWhile (\<lambda>y. y \<noteq> x) xs \<noteq> xs" using assms(1) by (metis (mono_tags, lifting) takeWhile_eq_all_conv)
  then show k: "k < length xs" unfolding k_def
    by (metis (no_types, lifting) length_takeWhile_le le_neq_implies_less takeWhile_eq_take take_all_iff order_refl)
  show "xs ! k = x" using nth_length_takeWhile [of "\<lambda>y. y \<noteq> x" xs] k unfolding k_def by simp
  show "remove1 x xs = take k xs @ drop (k + 1) xs" unfolding k_def using assms(1) by (induction xs) auto
qed

lemma vec_remove_item_rep:
  assumes v: "vec_rep v xs" and ne: "xs \<noteq> []"
  shows "\<exists>v'. vec_remove_item x v = Inr v' \<and> vec_rep v' (remove1 x xs)"
proof -
  note D = vec_repD [OF v]
  have nz: "v_size v \<noteq> 0" using D(2) ne by auto
  let ?k = "length (takeWhile (\<lambda>y. y \<noteq> x) xs)"
  show ?thesis
  proof (cases "x \<in> set xs")
    case True
    note k = split_first [OF True]
    have u: "unat (of_nat ?k :: u32) = ?k" using k(1) D(2) by (intro unat_of_nat_bounded [of _ "v_size v"]) simp
    have "vec_remove_item x v = vec_remove_at (of_nat ?k) 1 v"
      using nz True vec_index_find [OF v, of 0 x] D(2) by (simp add: vec_remove_item_def)
    with vec_remove_at_rep [OF v, of "of_nat ?k" 1] u k(1) show ?thesis unfolding k(2) by simp
  next
    case False
    then show ?thesis using v nz vec_index_find [OF v, of 0 x] D(2) by (simp add: vec_remove_item_def remove1_idem)
  qed
qed


lemma vec_remove_swap_rep:
  assumes v: "vec_rep v xs"
  shows "\<exists>v' ys. vec_remove_swap x v = Inr v' \<and> vec_rep v' ys \<and> mset ys = mset (remove1 x xs)"
proof (cases "x \<in> set xs")
  case True
  note D = vec_repD [OF v]
  let ?k = "length (takeWhile (\<lambda>y. y \<noteq> x) xs)"
  note k = split_first [OF True]
  have u: "unat (of_nat ?k :: u32) = ?k" using k(1) D(2) by (intro unat_of_nat_bounded [of _ "v_size v"]) simp
  have "vec_remove_swap x v = vec_remove_swap_at (of_nat ?k) v"
    using True vec_index_find [OF v, of 0 x] D(2) by (simp add: vec_remove_swap_def)
  moreover have "mset (butlast (xs[?k := last xs])) = mset (remove1 x xs)"
  proof -
    have ne: "xs[?k := last xs] \<noteq> []" using k(1) by auto
    have "last (xs[?k := last xs]) = last xs" using k(1) by (cases "xs = []") (auto simp: last_list_update)
    then have "mset (xs[?k := last xs]) = add_mset (last xs) (mset (butlast (xs[?k := last xs])))"
      using append_butlast_last_id [OF ne] by (metis add_mset_add_single mset.simps(1) mset.simps(2) union_code mset_append add.commute)
    moreover have "mset (xs[?k := last xs]) = add_mset (last xs) (mset xs - {#x#})"
      using k(1,3) by (simp add: mset_update)
    ultimately show ?thesis by simp
  qed
  ultimately show ?thesis using vec_remove_swap_at_rep [OF v, of "of_nat ?k"] u k(1) by auto
next
  case False
  then show ?thesis using v vec_index_find [OF v, of 0 x] vec_repD(2) [OF v]
    by (auto simp: vec_remove_swap_def remove1_idem)
qed

lemma vec_set_size_rep:
  assumes v: "vec_rep v xs" and n: "unat sz \<le> 2 ^ 30"
  shows "\<exists>v'. vec_set_size d sz v = Inr v' \<and> vec_rep v' (take (unat sz) xs @ replicate (unat sz - length xs) d)"
proof -
  from vec_ensure_capacity_rep [OF v n] obtain w where
    w: "vec_ensure_capacity sz v = Inr w" "vec_rep w xs" "unat sz \<le> length (v_elements w)" by blast
  note D = vec_repD [OF w(2)]
  let ?cs = "v_elements w"
  show ?thesis
  proof (cases "unat sz \<le> length xs")
    case True
    have "vec_set_size d sz v = Inr (w\<lparr>v_elements := take (unat sz) ?cs @ replicate (length xs - unat sz) None @ drop (length xs) ?cs,
        v_size := sz\<rparr>)"
      using w(1) D(2,3) True by (cases "unat sz = length xs") (auto simp: vec_set_size_def cells_fill_def)
    then show ?thesis using D(1,3,4) True w(3) by (simp add: vec_rep_def vec_cap_def nth_append)
  next
    case False
    have "vec_set_size d sz v = Inr (w\<lparr>v_elements := take (length xs) ?cs @ replicate (unat sz - length xs) (Some d) @ drop (unat sz) ?cs,
        v_size := sz\<rparr>)"
      using w(1,3) D(2) False by (simp add: vec_set_size_def cells_fill_def)
    then show ?thesis using D(1,3,4) False w(3) by (auto simp: vec_rep_def vec_cap_def nth_append)
  qed
qed

lemma vec_copy_rep:
  assumes v: "vec_rep v xs" and own: "unat (v_capacity v) < 2 ^ 31"
  shows "\<exists>v'. vec_copy v = Inr v' \<and> vec_rep v' xs"
proof -
  note D = vec_repD [OF v]
  have c: "unat (vec_cap v) = unat (v_capacity v)" using own by (simp add: vec_cap_def cap_and_mask)
  have "unat (vec_cap (vec_new :: 'a vec)) \<le> unat (v_capacity v)" by (simp add: vec_cap_def vec_new_def)
  from vec_set_capacity_rep [OF vec_rep_new this own] obtain w :: "'a vec" where
    w: "vec_set_capacity (v_capacity v) vec_new = Inr w" "vec_rep w []" "vec_cap w = v_capacity v" by blast
  have len: "length (v_elements w) = unat (v_capacity v)" using vec_repD(1) [OF w(2)] w(3) by simp
  have "vec_copy v = Inr (w\<lparr>v_elements := take (unat (v_size v)) (v_elements v) @ drop (unat (v_size v)) (v_elements w), v_size := v_size v\<rparr>)"
    using w(1) len D(1-3) c by (simp add: vec_copy_def cells_memcpy_def)
  then show ?thesis using D c len w(3) by (auto simp: vec_rep_def vec_cap_def nth_append)
qed

section \<open>Runs of operations\<close>

datatype 'a vec_op =
    V_append 'a
  | V_insert u32 'a
  | V_remove
  | V_remove_front
  | V_remove_item 'a
  | V_remove_at u32 u32
  | V_pop
  | V_pop_front
  | V_set_size u32
  | V_ensure u32

fun vec_exec :: "'a \<Rightarrow> 'a vec_op \<Rightarrow> 'a vec \<Rightarrow> 'a vec res" where
  "vec_exec d (V_append x) v = vec_append x v"
| "vec_exec d (V_insert i x) v = vec_insert i x v"
| "vec_exec d V_remove v = vec_remove_last v"
| "vec_exec d V_remove_front v = vec_remove_front v"
| "vec_exec d (V_remove_item x) v = vec_remove_item x v"
| "vec_exec d (V_remove_at i n) v = vec_remove_at i n v"
| "vec_exec d V_pop v = bindE (vec_pop v) (\<lambda>(_, v). Inr v)"
| "vec_exec d V_pop_front v = bindE (vec_pop_front v) (\<lambda>(_, v). Inr v)"
| "vec_exec d (V_set_size n) v = vec_set_size d n v"
| "vec_exec d (V_ensure n) v = vec_ensure_capacity n v"

fun vec_run :: "'a \<Rightarrow> 'a vec_op list \<Rightarrow> 'a vec \<Rightarrow> 'a vec res" where
  "vec_run d [] v = Inr v"
| "vec_run d (op # ops) v = bindE (vec_exec d op v) (vec_run d ops)"

text \<open>The same operations on lists, and when they are defined.\<close>

fun vec_spec :: "'a \<Rightarrow> 'a vec_op \<Rightarrow> 'a list \<Rightarrow> 'a list" where
  "vec_spec d (V_append x) xs = xs @ [x]"
| "vec_spec d (V_insert i x) xs = take (unat i) xs @ x # drop (unat i) xs"
| "vec_spec d V_remove xs = butlast xs"
| "vec_spec d V_remove_front xs = tl xs"
| "vec_spec d (V_remove_item x) xs = remove1 x xs"
| "vec_spec d (V_remove_at i n) xs = take (unat i) xs @ drop (unat i + unat n) xs"
| "vec_spec d V_pop xs = butlast xs"
| "vec_spec d V_pop_front xs = tl xs"
| "vec_spec d (V_set_size n) xs = take (unat n) xs @ replicate (unat n - length xs) d"
| "vec_spec d (V_ensure n) xs = xs"

fun vec_op_ok :: "'a vec_op \<Rightarrow> 'a list \<Rightarrow> bool" where
  "vec_op_ok (V_append x) xs \<longleftrightarrow> length xs < 2 ^ 30"
| "vec_op_ok (V_insert i x) xs \<longleftrightarrow> length xs < 2 ^ 30"
| "vec_op_ok (V_remove_at i n) xs \<longleftrightarrow> unat i + unat n \<le> length xs"
| "vec_op_ok (V_set_size n) xs \<longleftrightarrow> unat n \<le> 2 ^ 30"
| "vec_op_ok (V_ensure n) xs \<longleftrightarrow> unat n \<le> 2 ^ 30"
| "vec_op_ok _ xs \<longleftrightarrow> xs \<noteq> []"

fun vec_ops_ok :: "'a \<Rightarrow> 'a vec_op list \<Rightarrow> 'a list \<Rightarrow> bool" where
  "vec_ops_ok d [] xs \<longleftrightarrow> True"
| "vec_ops_ok d (op # ops) xs \<longleftrightarrow> vec_op_ok op xs \<and> vec_ops_ok d ops (vec_spec d op xs)"

lemma vec_exec_rep:
  assumes "vec_rep v xs" "vec_op_ok op xs"
  shows "\<exists>v'. vec_exec d op v = Inr v' \<and> vec_rep v' (vec_spec d op xs)"
proof (cases op)
  case V_pop
  then show ?thesis using assms vec_pop_rep [OF assms(1)] by auto
next
  case V_pop_front
  then show ?thesis using assms vec_pop_front_rep [OF assms(1)] by auto
next
  case (V_ensure n)
  then show ?thesis using assms(2) vec_ensure_capacity_rep [OF assms(1), of n] by auto
qed (use assms in \<open>simp_all add: vec_append_rep vec_insert_rep vec_remove_last_rep vec_remove_front_rep
       vec_remove_item_rep vec_remove_at_rep vec_set_size_rep\<close>)

lemma vec_run_rep:
  assumes "vec_rep v xs" "vec_ops_ok d ops xs"
  shows "\<exists>v'. vec_run d ops v = Inr v' \<and> vec_rep v' (fold (vec_spec d) ops xs)"
  using assms
proof (induction ops arbitrary: v xs)
  case (Cons op ops)
  obtain w where "vec_exec d op v = Inr w" "vec_rep w (vec_spec d op xs)" using vec_exec_rep Cons.prems by fastforce
  with Cons.IH [of w "vec_spec d op xs"] Cons.prems show ?case by auto
qed simp


section \<open>Properties\<close>

text \<open>C37. Every sequence of vector operations, with indices and sizes in range and at most
  \<open>2 ^ 30\<close> elements, runs without a fault and leaves the vector with the elements that the same
  operations on lists give.\<close>

theorem vector_refines_list:
  assumes "vec_ops_ok d ops []"
  shows "\<exists>v. vec_run d ops vec_new = Inr v \<and> vec_rep v (fold (vec_spec d) ops [])"
  by (rule vec_run_rep [OF vec_rep_new assms])

theorem vector_refines_list_witness:
  "\<exists>v. vec_run (0::int) [V_append 5, V_insert 0 6, V_set_size 4, V_append 7, V_remove_at 1 2, V_pop_front] vec_new = Inr v \<and>
     vec_rep v [0, 7]"
proof -
  let ?ops = "[V_append 5, V_insert 0 6, V_set_size 4, V_append 7, V_remove_at 1 2, V_pop_front] :: int vec_op list"
  have r: "replicate 2 (0::int) = [0, 0]" by (simp add: numeral_eq_Suc)
  have "vec_ops_ok 0 ?ops []" by (simp add: r)
  from vector_refines_list [OF this] show ?thesis by (simp add: r)
qed

text \<open>C38. On a vector sorted by a key that \<open>compare\<close> compares, the binary search of
  \<open>sorted_insert\<close> takes the position that a scan from the front for the first larger element
  would take, and the vector stays sorted.\<close>

theorem vector_sorted_insert:
  fixes key :: "'a \<Rightarrow> int"
  assumes v: "vec_rep v xs" and n: "length xs < 2 ^ 30" and srt: "sorted (map key xs)"
    and cmp: "\<And>a b. compare a b < 0 \<longleftrightarrow> key a < key b"
  shows "\<exists>v'. vec_sorted_insert compare x v = Inr (of_nat (length (takeWhile (\<lambda>y. key y \<le> key x) xs)), v') \<and>
     vec_rep v' (takeWhile (\<lambda>y. key y \<le> key x) xs @ x # dropWhile (\<lambda>y. key y \<le> key x) xs) \<and>
     sorted (map key (takeWhile (\<lambda>y. key y \<le> key x) xs @ x # dropWhile (\<lambda>y. key y \<le> key x) xs))"
proof -
  let ?P = "\<lambda>y. key y \<le> key x"
  let ?b = "length (takeWhile ?P xs)"
  have b: "?b \<le> length xs" by (rule length_takeWhile_le)
  have below: "key (xs ! i) \<le> key x" if "i < ?b" for i
    using that nth_mem [OF that] by (auto dest!: set_takeWhileD simp: takeWhile_nth)
  have above: "key x < key (xs ! i)" if "?b \<le> i" "i < length xs" for i
  proof -
    have "\<not> ?P (xs ! ?b)" using that nth_length_takeWhile [of ?P xs] by simp
    moreover have "key (xs ! ?b) \<le> key (xs ! i)" using sorted_nth_mono [OF srt that(1)] that by simp
    ultimately show ?thesis by simp
  qed
  have "vec_search compare x (v_elements v) 0 (length xs) = Inr ?b"
    using below above b cmp by (intro vec_search_boundary [OF v]) (force simp flip: not_less)+
  moreover have u: "unat (of_nat ?b :: u32) = ?b"
    using b vec_repD(2) [OF v] by (intro unat_of_nat_bounded [of _ "v_size v"]) simp
  moreover have "take ?b xs = takeWhile ?P xs" "drop ?b xs = dropWhile ?P xs"
    by (simp_all add: takeWhile_eq_take [symmetric] dropWhile_eq_drop [symmetric])
  moreover have "sorted (map key (takeWhile ?P xs @ x # dropWhile ?P xs))"
  proof -
    have "sorted (map key (takeWhile ?P xs @ dropWhile ?P xs))" using srt by simp
    moreover have "key x \<le> key z" if "z \<in> set (dropWhile ?P xs)" for z
    proof -
      from that obtain j where j: "j < length xs - ?b" "z = xs ! (?b + j)"
        by (auto simp: in_set_conv_nth dropWhile_eq_drop)
      have "?b + j < length xs" using j(1) by (simp only: less_diff_conv2 [OF b] add.commute)
      with above [of "?b + j"] j(2) show ?thesis by simp
    qed
    ultimately show ?thesis
      by (simp add: sorted_append del: takeWhile_dropWhile_id) (auto dest: set_takeWhileD)
  qed
  ultimately show ?thesis
    using vec_insert_rep [OF v n, of "of_nat ?b" x] vec_repD(2) [OF v] by (auto simp: vec_sorted_insert_def)
qed

theorem vector_sorted_insert_witness:
  "\<exists>v'. vec_sorted_insert (\<lambda>a b. a - b) 4 (vec_static (map Some [1, 4, 9 :: int]) 3 3) = Inr (2, v') \<and> vec_rep v' [1, 4, 4, 9]"
proof -
  have "vec_rep (vec_static (map Some [1, 4, 9 :: int]) 3 3) [1, 4, 9]"
    using vec_static_rep [of "[1, 4, 9 :: int]" 3 "[]" 3] by simp
  from vector_sorted_insert [OF this, of "\<lambda>x. x" "\<lambda>a b. a - b" 4] show ?thesis by simp
qed

text \<open>Removing a range that starts inside the vector and ends past its end destroys the
  elements from the start of the range on but keeps the size, so the vector holds dead elements.\<close>

theorem vector_remove_at_past_end:
  assumes v: "vec_rep v xs" and i: "unat i < length xs" "length xs < unat i + unat n" "unat i + unat n < 2 ^ 32"
  shows "\<exists>v'. vec_remove_at i n v = Inr v' \<and> vec_count v' = vec_count v \<and> vec_at v' i = Inl Use_after_free"
proof -
  note D = vec_repD [OF v]
  have "unat (i + n) = unat i + unat n" using i(3) by (intro unat_add_no_wrap) simp
  then have "vec_destroy (unat (v_size v)) (unat i) (unat (i + n)) (v_elements v) =
      Inr (Inl (take (unat i) (v_elements v) @ replicate (length xs - unat i) None @ drop (length xs) (v_elements v)))"
    using vec_destroy_past [of "length xs" "unat i + unat n" "v_elements v" "unat i"] D(2,3) i by simp
  then show ?thesis using D(3) i by (auto simp: vec_remove_at_def vec_count_def vec_at_def cell_get_def nth_append)
qed

theorem vector_remove_at_past_end_witness:
  "\<exists>v'. vec_remove_at 1 5 (vec_static (map Some [1, 4, 9 :: int]) 3 3) = Inr v' \<and> vec_count v' = 3 \<and>
     vec_at v' 1 = Inl Use_after_free"
proof -
  have "vec_rep (vec_static (map Some [1, 4, 9 :: int]) 3 3) [1, 4, 9]"
    using vec_static_rep [of "[1, 4, 9 :: int]" 3 "[]" 3] by simp
  from vector_remove_at_past_end [OF this, of 1 5] show ?thesis by (simp add: vec_count_def vec_static_def)
qed

text \<open>Shrinking the capacity of a vector that owns its storage overruns the new storage:
  \<open>realloc\<close> copies the old length. Growing it never does.\<close>

theorem vector_set_capacity_bounds:
  assumes v: "vec_rep v xs" and own: "unat (v_capacity v) < 2 ^ 31" and c: "unat c < 2 ^ 31" "length xs \<le> unat c"
  shows "vec_set_capacity c v = Inl Out_of_bounds \<longleftrightarrow> c < v_capacity v"
proof -
  have cap: "unat (vec_cap v) = unat (v_capacity v)" using own by (simp add: vec_cap_def cap_and_mask)
  have "vec_set_capacity c v = Inl Out_of_bounds" if "c < v_capacity v"
  proof -
    have "vec_trim c v = Inr v" using c(2) vec_repD(2) [OF v] by (subst vec_trim.simps) (simp add: word_less_nat_alt)
    moreover have "v_capacity v AND NOT cap_mask = 0" using cap_static_iff [of "v_capacity v"] own by auto
    ultimately show ?thesis using that
      by (simp add: vec_set_capacity_def da_realloc_def cells_memcpy_def da_allocate_def word_less_nat_alt)
  qed
  moreover have "vec_set_capacity c v \<noteq> Inl Out_of_bounds" if "\<not> c < v_capacity v"
    using vec_set_capacity_rep [OF v _ c(1)] that cap by (auto simp: word_less_nat_alt)
  ultimately show ?thesis by blast
qed

theorem vector_set_capacity_bounds_witness:
  "vec_set_capacity 2 (\<lparr>v_size = 1, v_capacity = 4, v_elements = [Some (8::int), None, None, None]\<rparr>) = Inl Out_of_bounds"
proof -
  have "vec_rep \<lparr>v_size = 1, v_capacity = 4, v_elements = [Some (8::int), None, None, None]\<rparr> [8]"
    by (simp add: vec_rep_def vec_cap_def cap_and_mask)
  from vector_set_capacity_bounds [OF this, of 2] show ?thesis by simp
qed

end
