(* ===== verification/Deque.thy ===== *)
theory Deque
  imports Linked_List
begin

text \<open>
  The double-ended queue \<open>util::deque\<close> of \<open>src/src/libraries/util/include/util/deque.h\<close>: a
  linked list of chunks of \<open>N\<close> items each (the template parameter), of which the first
  \<open>m_first\<close> items of the first chunk and those from \<open>m_next\<close> on in the last chunk are not in
  the queue. The list of chunks is the model of theory \<open>Linked_List\<close>; the heap holds the links
  and the items of the chunks, and \<open>new\<close> hands out addresses that were never used.
  \<open>dq_rep\<close> relates a deque to the list of its items.
\<close>

section \<open>State\<close>

record 'a dq_heap =
  dh_nodes :: nodes
  dh_items :: "addr \<Rightarrow> 'a list"
  dh_fresh :: addr

record deque =
  dq_first :: nat
  dq_next :: nat
  dq_list :: linked_list

type_synonym 'a dq_state = "'a dq_heap \<times> deque"

section \<open>Operations\<close>

definition dq_new :: "nat \<Rightarrow> deque" where
  "dq_new N = \<lparr>dq_first = 0, dq_next = N, dq_list = ll_new\<rparr>"

text \<open>The move constructor: the new deque and what is left of the other one.\<close>

definition dq_move :: "deque \<Rightarrow> deque \<times> deque" where
  "dq_move other =
     (case ll_move (dq_list other) of (l, l') \<Rightarrow>
        (\<lparr>dq_first = dq_first other, dq_next = dq_next other, dq_list = l\<rparr>, other\<lparr>dq_list := l'\<rparr>))"

definition dq_empty :: "deque \<Rightarrow> bool" where
  "dq_empty d \<longleftrightarrow> ll_empty (dq_list d) \<or> ll_length (dq_list d) = 1 \<and> dq_first d = dq_next d"

text \<open>A new chunk, cleared to \<open>zero\<close> by \<open>memset\<close>.\<close>

definition dq_new_chunk :: "nat \<Rightarrow> 'a \<Rightarrow> 'a dq_heap \<Rightarrow> addr \<times> 'a dq_heap" where
  "dq_new_chunk N zero h =
     (dh_fresh h, h\<lparr>dh_items := (dh_items h)(dh_fresh h := replicate N zero), dh_fresh := Suc (dh_fresh h)\<rparr>)"

definition dq_store :: "addr option \<Rightarrow> nat \<Rightarrow> 'a \<Rightarrow> 'a dq_heap \<Rightarrow> 'a dq_heap res" where
  "dq_store p i item h =
     (case p of None \<Rightarrow> Inl Null_deref
      | Some a \<Rightarrow> bindE (array_set (dh_items h a) i item) (\<lambda>xs. Inr (h\<lparr>dh_items := (dh_items h)(a := xs)\<rparr>)))"

definition dq_load :: "addr option \<Rightarrow> nat \<Rightarrow> 'a dq_heap \<Rightarrow> 'a res" where
  "dq_load p i h = (case p of None \<Rightarrow> Inl Null_deref | Some a \<Rightarrow> array_get (dh_items h a) i)"

definition dq_push_front :: "nat \<Rightarrow> 'a \<Rightarrow> 'a \<Rightarrow> 'a dq_state \<Rightarrow> 'a dq_state res" where
  "dq_push_front N zero item s =
     (let (h, d) = s;
          (h, d) = (if dq_first d = 0
                    then let (n, h) = dq_new_chunk N zero h;
                             (st, l) = ll_push_front (Some n) (dh_nodes h, dq_list d)
                         in (h\<lparr>dh_nodes := st\<rparr>, d\<lparr>dq_list := l, dq_first := N\<rparr>)
                    else (h, d));
          d = d\<lparr>dq_first := dq_first d - 1\<rparr>
      in bindE (dq_store (ll_front (dq_list d)) (dq_first d) item h) (\<lambda>h. Inr (h, d)))"

definition dq_push_back :: "nat \<Rightarrow> 'a \<Rightarrow> 'a \<Rightarrow> 'a dq_state \<Rightarrow> 'a dq_state res" where
  "dq_push_back N zero item s =
     (let (h, d) = s;
          (h, d) = (if dq_next d = N
                    then let (n, h) = dq_new_chunk N zero h;
                             (st, l) = ll_push_back (Some n) (dh_nodes h, dq_list d)
                         in (h\<lparr>dh_nodes := st\<rparr>, d\<lparr>dq_list := l, dq_next := 0\<rparr>)
                    else (h, d))
      in bindE (dq_store (ll_back (dq_list d)) (dq_next d) item h) (\<lambda>h.
         Inr (h, d\<lparr>dq_next := dq_next d + 1\<rparr>)))"

definition dq_pop_front :: "nat \<Rightarrow> 'a dq_state \<Rightarrow> ('a \<times> 'a dq_state) res" where
  "dq_pop_front N s =
     (let (h, d) = s in
      bindE (guardE Assert_failed (\<not> dq_empty d)) (\<lambda>_.
      bindE (dq_load (ll_front (dq_list d)) (dq_first d) h) (\<lambda>value.
      let d = d\<lparr>dq_first := dq_first d + 1\<rparr> in
      if dq_first d = N
      then let (_, st, l) = ll_pop_front (dh_nodes h, dq_list d);
               d = d\<lparr>dq_list := l, dq_first := 0\<rparr>;
               d = (if ll_empty (dq_list d) then d\<lparr>dq_next := N\<rparr> else d)
           in Inr (value, h\<lparr>dh_nodes := st\<rparr>, d)
      else Inr (value, h, d))))"

definition dq_pop_back :: "nat \<Rightarrow> 'a dq_state \<Rightarrow> ('a \<times> 'a dq_state) res" where
  "dq_pop_back N s =
     (let (h, d) = s in
      bindE (guardE Assert_failed (\<not> dq_empty d)) (\<lambda>_.
      let d = d\<lparr>dq_next := dq_next d - 1\<rparr> in
      bindE (dq_load (ll_back (dq_list d)) (dq_next d) h) (\<lambda>value.
      if dq_next d = 0
      then let (_, st, l) = ll_pop_back (dh_nodes h, dq_list d);
               d = d\<lparr>dq_list := l, dq_next := N\<rparr>;
               d = (if ll_empty (dq_list d) then d\<lparr>dq_first := 0\<rparr> else d)
           in Inr (value, h\<lparr>dh_nodes := st\<rparr>, d)
      else Inr (value, h, d))))"

definition dq_first_item :: "'a dq_state \<Rightarrow> 'a res" where
  "dq_first_item s =
     (let (h, d) = s in
      bindE (guardE Assert_failed (\<not> dq_empty d)) (\<lambda>_. dq_load (ll_front (dq_list d)) (dq_first d) h))"

definition dq_last_item :: "'a dq_state \<Rightarrow> 'a res" where
  "dq_last_item s =
     (let (h, d) = s in
      bindE (guardE Assert_failed (\<not> dq_empty d)) (\<lambda>_. dq_load (ll_back (dq_list d)) (dq_next d - 1) h))"

text \<open>The loop of \<open>clear\<close>; \<open>fuel\<close> bounds the number of chunks.\<close>

fun dq_clear_loop :: "nat \<Rightarrow> ll_state \<Rightarrow> ll_state option" where
  "dq_clear_loop 0 sl = (if ll_empty (snd sl) then Some sl else None)"
| "dq_clear_loop (Suc fuel) sl = (if ll_empty (snd sl) then Some sl else dq_clear_loop fuel (snd (ll_pop_front sl)))"

definition dq_clear :: "nat \<Rightarrow> nat \<Rightarrow> 'a dq_state \<Rightarrow> 'a dq_state option" where
  "dq_clear fuel N s =
     (case s of (h, d) \<Rightarrow>
        map_option (\<lambda>(st, l). (h\<lparr>dh_nodes := st\<rparr>, d\<lparr>dq_list := l, dq_first := 0, dq_next := N\<rparr>))
          (dq_clear_loop fuel (dh_nodes h, dq_list d)))"

text \<open>Iterators: a chunk and an index in it.\<close>

definition dq_iterator :: "nat \<Rightarrow> nodes \<Rightarrow> addr option \<Rightarrow> nat \<Rightarrow> addr option \<times> nat" where
  "dq_iterator N st n i =
     (case n of Some a \<Rightarrow> if N \<le> i then (n_next st a, 0) else (n, i) | None \<Rightarrow> (n, i))"

definition dq_begin :: "nat \<Rightarrow> 'a dq_state \<Rightarrow> addr option \<times> nat" where
  "dq_begin N s = (case s of (h, d) \<Rightarrow> dq_iterator N (dh_nodes h) (ll_front (dq_list d)) (dq_first d))"

definition dq_end :: "nat \<Rightarrow> 'a dq_state \<Rightarrow> addr option \<times> nat" where
  "dq_end N s = (case s of (h, d) \<Rightarrow> dq_iterator N (dh_nodes h) (ll_back (dq_list d)) (dq_next d))"

definition dq_iter_eq :: "addr option \<times> nat \<Rightarrow> addr option \<times> nat \<Rightarrow> bool" where
  "dq_iter_eq p q \<longleftrightarrow> fst p = None \<and> fst q = None \<or> snd p = snd q \<and> fst p = fst q"

definition dq_iter_incr :: "nat \<Rightarrow> nodes \<Rightarrow> addr option \<times> nat \<Rightarrow> (addr option \<times> nat) res" where
  "dq_iter_incr N st p =
     (case p of (n, i) \<Rightarrow>
        if N \<le> i + 1
        then (case n of None \<Rightarrow> Inl Null_deref | Some a \<Rightarrow> Inr (n_next st a, 0))
        else Inr (n, i + 1))"

text \<open>A loop over the items with the iterators; \<open>fuel\<close> bounds the number of items.\<close>

fun dq_iterate :: "nat \<Rightarrow> nat \<Rightarrow> 'a dq_heap \<Rightarrow> addr option \<times> nat \<Rightarrow> addr option \<times> nat \<Rightarrow> 'a list res option" where
  "dq_iterate N 0 h p e = (if dq_iter_eq p e then Some (Inr []) else None)"
| "dq_iterate N (Suc fuel) h p e =
     (if dq_iter_eq p e then Some (Inr [])
      else
        case (if fst p = None then Inl Assert_failed else dq_load (fst p) (snd p) h) of
          Inl f \<Rightarrow> Some (Inl f)
        | Inr x \<Rightarrow>
            (case dq_iter_incr N (dh_nodes h) p of
               Inl f \<Rightarrow> Some (Inl f)
             | Inr q \<Rightarrow> map_option (map_sum id ((#) x)) (dq_iterate N fuel h q e)))"

section \<open>Representation\<close>

definition dq_chunks :: "'a dq_heap \<Rightarrow> addr list \<Rightarrow> 'a list" where
  "dq_chunks h as = concat (map (dh_items h) as)"

definition dq_rep_at :: "nat \<Rightarrow> 'a dq_state \<Rightarrow> addr list \<Rightarrow> 'a list \<Rightarrow> bool" where
  "dq_rep_at N s as xs \<longleftrightarrow> (case s of (h, d) \<Rightarrow>
     ll_rep (dh_nodes h, dq_list d) as \<and>
     (\<forall>a\<in>set as. length (dh_items h a) = N \<and> a < dh_fresh h) \<and>
     (if as = [] then dq_first d = 0 \<and> dq_next d = N \<and> xs = []
      else dq_first d < N \<and> 0 < dq_next d \<and> dq_next d \<le> N \<and>
        (\<exists>pre post. dq_chunks h as = pre @ xs @ post \<and> length pre = dq_first d \<and> length post + dq_next d = N)))"

definition dq_rep :: "nat \<Rightarrow> 'a dq_state \<Rightarrow> 'a list \<Rightarrow> bool" where
  "dq_rep N s xs \<longleftrightarrow> length xs < 2 ^ 63 \<and> (\<exists>as. dq_rep_at N s as xs)"

lemma dq_chunks_simps [simp]: "dq_chunks h [] = []" "dq_chunks h (a # as) = dh_items h a @ dq_chunks h as"
  "dq_chunks h (as @ bs) = dq_chunks h as @ dq_chunks h bs" "dq_chunks (h\<lparr>dh_nodes := st\<rparr>) as = dq_chunks h as"
  by (simp_all add: dq_chunks_def)

lemma dq_chunks_length: "\<forall>a\<in>set as. length (dh_items h a) = N \<Longrightarrow> length (dq_chunks h as) = N * length as"
  by (induction as) auto

lemma dq_chunks_other:
  "a \<notin> set as \<Longrightarrow> dq_chunks (h\<lparr>dh_items := (dh_items h)(a := ys), dh_fresh := f\<rparr>) as = dq_chunks h as"
  "a \<notin> set as \<Longrightarrow> dq_chunks (h\<lparr>dh_items := (dh_items h)(a := ys)\<rparr>) as = dq_chunks h as"
  by (induction as) auto

lemma dq_rep_atD:
  assumes "dq_rep_at N (h, d) as xs"
  shows "ll_rep (dh_nodes h, dq_list d) as" "\<And>a. a \<in> set as \<Longrightarrow> length (dh_items h a) = N \<and> a < dh_fresh h"
    "distinct as" "ll_front (dq_list d) = first_or as None" "ll_back (dq_list d) = last_or None as"
    "length (dq_chunks h as) = N * length as"
  using assms dq_chunks_length [of as h N] by (auto simp: dq_rep_at_def ll_rep_def ll_front_def ll_back_def)

lemma dq_rep_atE:
  assumes "dq_rep_at N (h, d) as xs" "as \<noteq> []"
  obtains pre post where "dq_chunks h as = pre @ xs @ post" "length pre = dq_first d" "length post + dq_next d = N"
    "dq_first d < N" "0 < dq_next d" "dq_next d \<le> N"
  using assms by (auto simp: dq_rep_at_def)

lemma dq_rep_atI:
  assumes "ll_rep (dh_nodes h, dq_list d) as" "as \<noteq> []" "\<forall>a\<in>set as. length (dh_items h a) = N \<and> a < dh_fresh h"
    "dq_chunks h as = pre @ xs @ post" "length pre = dq_first d" "length post + dq_next d = N"
    "dq_first d < N" "0 < dq_next d"
  shows "dq_rep_at N (h, d) as xs"
  unfolding dq_rep_at_def using assms by auto

lemma dq_rep_new: "dq_rep N (h, dq_new N) []"
  by (auto simp: dq_rep_def dq_rep_at_def dq_new_def intro!: exI [of _ "[]"] ll_rep_empty)

text \<open>There are at most as many chunks as items, plus one.\<close>

lemma dq_chunk_bound:
  assumes "dq_rep_at N (h, d) as xs"
  shows "length as \<le> length xs + 1"
proof (cases "as = []")
  case False
  from assms False obtain pre post where p: "dq_chunks h as = pre @ xs @ post" "length pre = dq_first d"
    "length post + dq_next d = N" "dq_first d < N" "0 < dq_next d" by (rule dq_rep_atE)
  have len: "N * length as = dq_first d + length xs + (N - dq_next d)"
    using dq_rep_atD(6) [OF assms] p by simp
  show ?thesis
  proof (rule ccontr)
    assume "\<not> ?thesis"
    then have "length xs + 2 \<le> length as" by simp
    then have "N * (length xs + 2) \<le> N * length as" by (rule mult_le_mono2)
    moreover have "length xs \<le> N * length xs" using p(4) by (cases N) auto
    ultimately show False using len p(3-5) unfolding distrib_left by linarith
  qed
qed simp

lemma dq_empty_iff:
  assumes "dq_rep_at N (h, d) as xs" "length xs < 2 ^ 63"
  shows "dq_empty d \<longleftrightarrow> xs = []"
proof (cases "as = []")
  case True
  then show ?thesis using assms(1) by (auto simp: dq_rep_at_def dq_empty_def ll_rep_def ll_empty_def)
next
  case False
  from assms(1) False obtain pre post where p: "dq_chunks h as = pre @ xs @ post" "length pre = dq_first d"
    "length post + dq_next d = N" "dq_first d < N" "0 < dq_next d" "dq_next d \<le> N" by (rule dq_rep_atE)
  have len: "N * length as = dq_first d + length xs + (N - dq_next d)"
    using dq_rep_atD(6) [OF assms(1)] p by simp
  have small: "length as < 2 ^ 64" using dq_chunk_bound [OF assms(1)] assms(2) by simp
  have "ll_length (dq_list d) = of_nat (length as)" using assms(1) by (auto simp: dq_rep_at_def ll_rep_def ll_length_def)
  then have one: "ll_length (dq_list d) = 1 \<longleftrightarrow> length as = 1"
    using small word_eq_unat [of "of_nat (length as) :: u64" 1] by (simp add: unat_of_nat)
  have ne: "\<not> ll_empty (dq_list d)" using dq_rep_atD(4) [OF assms(1)] False by (simp add: ll_empty_def ll_front_def)
  show ?thesis
  proof (cases "length as = 1")
    case True
    then show ?thesis using ne one len p by (auto simp: dq_empty_def)
  next
    case many: False
    then have "2 \<le> length as" using False by (cases as rule: list.exhaust; cases "tl as") auto
    then have "N * 2 \<le> N * length as" by (rule mult_le_mono2)
    then have "xs \<noteq> []" using len p by auto
    with ne one many show ?thesis by (simp add: dq_empty_def)
  qed
qed

section \<open>Adding items\<close>

lemma dq_store_front:
  assumes "ll_front l = Some a" "as = a # as'" "distinct as" "i < length (dh_items h a)"
  shows "\<exists>h'. dq_store (ll_front l) i x h = Inr h' \<and> dq_chunks h' as = (dq_chunks h as)[i := x] \<and>
    dh_nodes h' = dh_nodes h \<and> dh_fresh h' = dh_fresh h \<and> (\<forall>b. length (dh_items h' b) = length (dh_items h b))"
  using assms by (simp add: dq_store_def dq_chunks_other list_update_append)

lemma dq_store_back:
  assumes "ll_back l = Some a" "as = as' @ [a]" "distinct as" "i < length (dh_items h a)"
  shows "\<exists>h'. dq_store (ll_back l) i x h = Inr h' \<and> dq_chunks h' as = (dq_chunks h as)[length (dq_chunks h as') + i := x] \<and>
    dh_nodes h' = dh_nodes h \<and> dh_fresh h' = dh_fresh h \<and> (\<forall>b. length (dh_items h' b) = length (dh_items h b))"
  using assms by (simp add: dq_store_def dq_chunks_other list_update_append)

lemma dq_push_front_rep_at:
  assumes r: "dq_rep_at N (h, d) as xs" and N: "0 < N"
  shows "\<exists>s' as'. dq_push_front N zero x (h, d) = Inr s' \<and> dq_rep_at N s' as' (x # xs)"
proof -
  note D = dq_rep_atD [OF r]
  show ?thesis
  proof (cases "dq_first d = 0")
    case True
    let ?n = "dh_fresh h"
    let ?h1 = "snd (dq_new_chunk N zero h)"
    obtain st l where p: "ll_push_front (Some ?n) (dh_nodes h, dq_list d) = (st, l)" by force
    have n: "?n \<notin> set as" using D(2) by blast
    have ll: "ll_rep (st, l) (?n # as)" using ll_rep_push_front [OF D(1) n] p by simp
    then have f: "ll_front l = Some ?n" by (simp add: ll_rep_def ll_front_def)
    let ?h2 = "?h1\<lparr>dh_nodes := st\<rparr>"
    have ch: "dq_chunks ?h2 (?n # as) = replicate N zero @ dq_chunks h as"
      using n by (simp add: dq_new_chunk_def dq_chunks_other)
    have i: "N - 1 < length (dh_items ?h2 ?n)" using N by (simp add: dq_new_chunk_def)
    obtain h' where h': "dq_store (ll_front l) (N - 1) x ?h2 = Inr h'"
        "dq_chunks h' (?n # as) = (dq_chunks ?h2 (?n # as))[N - 1 := x]" "dh_nodes h' = st" "dh_fresh h' = Suc ?n"
        "\<And>b. length (dh_items h' b) = length (dh_items ?h2 b)"
      using dq_store_front [OF f refl _ i, of as x] n D(3) by (auto simp: dq_new_chunk_def)
    have "(replicate N zero @ dq_chunks h as)[N - 1 := x] = replicate (N - 1) zero @ x # dq_chunks h as"
      using N by (cases N) (simp_all add: replicate_append_same [symmetric] list_update_append)
    with h'(2) ch have ch': "dq_chunks h' (?n # as) = replicate (N - 1) zero @ x # dq_chunks h as" by simp
    let ?d = "d\<lparr>dq_list := l, dq_first := N - 1\<rparr>"
    have "dq_push_front N zero x (h, d) = Inr (h', ?d)"
      using True p h'(1) by (simp add: dq_push_front_def dq_new_chunk_def)
    moreover have "dq_rep_at N (h', ?d) (?n # as) (x # xs)"
    proof -
      have "\<forall>a\<in>set (?n # as). length (dh_items h' a) = N \<and> a < dh_fresh h'"
        using h'(4,5) D(2) by (auto simp: dq_new_chunk_def less_SucI)
      moreover obtain post where "dq_chunks h as = xs @ post" "length post + dq_next d = N" "0 < dq_next d"
        using r True N by (auto simp: dq_rep_at_def split: if_splits)
      ultimately show ?thesis using ll h'(3) ch' N
        by (intro dq_rep_atI [where pre = "replicate (N - 1) zero" and post = post]) simp_all
    qed
    ultimately show ?thesis by blast
  next
    case False
    then have ne: "as \<noteq> []" using r by (auto simp: dq_rep_at_def)
    then obtain a as' where as: "as = a # as'" by (cases as) auto
    from r ne obtain pre post where pp: "dq_chunks h as = pre @ xs @ post" "length pre = dq_first d"
      "length post + dq_next d = N" "dq_first d < N" "0 < dq_next d" "dq_next d \<le> N" by (rule dq_rep_atE)
    have f: "ll_front (dq_list d) = Some a" using D(4) as by simp
    have i: "dq_first d - 1 < length (dh_items h a)" using D(2) [of a] as pp(4) by simp
    obtain h' where h': "dq_store (ll_front (dq_list d)) (dq_first d - 1) x h = Inr h'"
        "dq_chunks h' as = (dq_chunks h as)[dq_first d - 1 := x]" "dh_nodes h' = dh_nodes h" "dh_fresh h' = dh_fresh h"
        "\<And>b. length (dh_items h' b) = length (dh_items h b)"
      using dq_store_front [OF f as D(3) i, of x] by blast
    obtain pre' y where pre: "pre = pre' @ [y]" using pp(2) False by (cases pre rule: rev_cases) auto
    then have at: "dq_first d - 1 = length pre'" using pp(2) by simp
    have "dq_chunks h' as = pre' @ (x # xs) @ post" unfolding h'(2) pp(1) at pre by (simp add: list_update_append)
    then have "dq_rep_at N (h', d\<lparr>dq_first := dq_first d - 1\<rparr>) as (x # xs)"
      using D(1,2) ne h'(3-5) pp(2-6) pre by (intro dq_rep_atI [where pre = pre' and post = post]) auto
    with False h'(1) show ?thesis by (auto simp: dq_push_front_def)
  qed
qed


lemma dq_push_back_rep_at:
  assumes r: "dq_rep_at N (h, d) as xs" and N: "0 < N"
  shows "\<exists>s' as'. dq_push_back N zero x (h, d) = Inr s' \<and> dq_rep_at N s' as' (xs @ [x])"
proof -
  note D = dq_rep_atD [OF r]
  show ?thesis
  proof (cases "dq_next d = N")
    case True
    let ?n = "dh_fresh h"
    let ?h1 = "snd (dq_new_chunk N zero h)"
    obtain st l where p: "ll_push_back (Some ?n) (dh_nodes h, dq_list d) = (st, l)" by force
    have n: "?n \<notin> set as" using D(2) by blast
    have ll: "ll_rep (st, l) (as @ [?n])" using ll_rep_push_back [OF D(1) n] p by simp
    then have f: "ll_back l = Some ?n" by (simp add: ll_rep_def ll_back_def)
    let ?h2 = "?h1\<lparr>dh_nodes := st\<rparr>"
    have ch: "dq_chunks ?h2 (as @ [?n]) = dq_chunks h as @ replicate N zero" "dq_chunks ?h2 as = dq_chunks h as"
      using n by (simp_all add: dq_new_chunk_def dq_chunks_other)
    have i: "0 < length (dh_items ?h2 ?n)" using N by (simp add: dq_new_chunk_def)
    obtain h' where h': "dq_store (ll_back l) 0 x ?h2 = Inr h'"
        "dq_chunks h' (as @ [?n]) = (dq_chunks ?h2 (as @ [?n]))[length (dq_chunks ?h2 as) + 0 := x]"
        "dh_nodes h' = st" "dh_fresh h' = Suc ?n" "\<And>b. length (dh_items h' b) = length (dh_items ?h2 b)"
      using dq_store_back [OF f refl _ i, of as x] n D(3) by (auto simp: dq_new_chunk_def)
    have "(dq_chunks h as @ replicate N zero)[length (dq_chunks h as) := x] = dq_chunks h as @ x # replicate (N - 1) zero"
      using N by (cases N) (simp_all add: list_update_append)
    with h'(2) ch have ch': "dq_chunks h' (as @ [?n]) = dq_chunks h as @ x # replicate (N - 1) zero" by simp
    let ?d = "d\<lparr>dq_list := l, dq_next := 1\<rparr>"
    have "dq_push_back N zero x (h, d) = Inr (h', ?d)"
      using True p h'(1) by (simp add: dq_push_back_def dq_new_chunk_def)
    moreover have "dq_rep_at N (h', ?d) (as @ [?n]) (xs @ [x])"
    proof -
      have "\<forall>a\<in>set (as @ [?n]). length (dh_items h' a) = N \<and> a < dh_fresh h'"
        using h'(4,5) D(2) by (auto simp: dq_new_chunk_def less_SucI)
      moreover obtain pre where "dq_chunks h as = pre @ xs" "length pre = dq_first d" "dq_first d < N"
        using r True N by (auto simp: dq_rep_at_def split: if_splits)
      ultimately show ?thesis using ll h'(3) ch' N
        by (intro dq_rep_atI [where pre = pre and post = "replicate (N - 1) zero"]) simp_all
    qed
    ultimately show ?thesis by blast
  next
    case False
    then have ne: "as \<noteq> []" using r by (auto simp: dq_rep_at_def)
    then obtain a as' where as: "as = as' @ [a]" by (cases as rule: rev_cases) auto
    from r ne obtain pre post where pp: "dq_chunks h as = pre @ xs @ post" "length pre = dq_first d"
      "length post + dq_next d = N" "dq_first d < N" "0 < dq_next d" "dq_next d \<le> N" by (rule dq_rep_atE)
    have f: "ll_back (dq_list d) = Some a" using D(5) as by simp
    have i: "dq_next d < length (dh_items h a)" using D(2) [of a] as pp(6) False by simp
    obtain h' where h': "dq_store (ll_back (dq_list d)) (dq_next d) x h = Inr h'"
        "dq_chunks h' as = (dq_chunks h as)[length (dq_chunks h as') + dq_next d := x]" "dh_nodes h' = dh_nodes h"
        "dh_fresh h' = dh_fresh h" "\<And>b. length (dh_items h' b) = length (dh_items h b)"
      using dq_store_back [OF f as D(3) i, of x] by blast
    obtain y post' where post: "post = y # post'" using pp(3,6) False by (cases post) auto
    have "length (dq_chunks h as) = length (dq_chunks h as') + N" using as D(2) [of a] by simp
    then have "length (dq_chunks h as') + dq_next d = length (pre @ xs)" using pp(1,3) by simp
    then have "dq_chunks h' as = pre @ (xs @ [x]) @ post'" using h'(2) pp(1) post by (simp add: list_update_append)
    then have "dq_rep_at N (h', d\<lparr>dq_next := dq_next d + 1\<rparr>) as (xs @ [x])"
      using D(1,2) ne h'(3-5) pp(2-6) post by (intro dq_rep_atI [where pre = pre and post = post']) auto
    with False h'(1) show ?thesis by (auto simp: dq_push_back_def)
  qed
qed

section \<open>Removing items\<close>

lemma dq_load_front:
  assumes r: "dq_rep_at N (h, d) as (x # xs)"
  shows "dq_load (ll_front (dq_list d)) (dq_first d) h = Inr x" "as \<noteq> []"
proof -
  show ne: "as \<noteq> []" using r by (auto simp: dq_rep_at_def)
  then obtain a as' where as: "as = a # as'" by (cases as) auto
  from r ne obtain pre post where pp: "dq_chunks h as = pre @ (x # xs) @ post" "length pre = dq_first d"
    "dq_first d < N" by (rule dq_rep_atE)
  have len: "length (dh_items h a) = N" using dq_rep_atD(2) [OF r, of a] as by simp
  then have "dh_items h a ! dq_first d = dq_chunks h as ! dq_first d" using as pp(3) by (simp add: nth_append)
  also have "\<dots> = x" using pp(1,2) by (simp add: nth_append)
  finally show "dq_load (ll_front (dq_list d)) (dq_first d) h = Inr x"
    using len pp(3) dq_rep_atD(4) [OF r] as by (simp add: dq_load_def)
qed

lemma dq_load_back:
  assumes r: "dq_rep_at N (h, d) as (xs @ [x])"
  shows "dq_load (ll_back (dq_list d)) (dq_next d - 1) h = Inr x" "as \<noteq> []"
proof -
  show ne: "as \<noteq> []" using r by (auto simp: dq_rep_at_def)
  then obtain a as' where as: "as = as' @ [a]" by (cases as rule: rev_cases) auto
  from r ne obtain pre post where pp: "dq_chunks h as = pre @ (xs @ [x]) @ post" "length post + dq_next d = N"
    "0 < dq_next d" "dq_next d \<le> N" by (rule dq_rep_atE)
  have len: "length (dh_items h a) = N" using dq_rep_atD(2) [OF r, of a] as by simp
  have "length (dq_chunks h as) = length (dq_chunks h as') + N" using as len by simp
  then have at: "length (dq_chunks h as') + (dq_next d - 1) = length (pre @ xs)" using pp by simp
  have "dh_items h a ! (dq_next d - 1) = dq_chunks h as ! (length (dq_chunks h as') + (dq_next d - 1))"
    using as by simp
  also have "\<dots> = x" unfolding at pp(1) by (simp add: nth_append)
  finally show "dq_load (ll_back (dq_list d)) (dq_next d - 1) h = Inr x"
    using len pp(3,4) dq_rep_atD(5) [OF r] as by (simp add: dq_load_def)
qed

lemma dq_pop_front_rep_at:
  assumes r: "dq_rep_at N (h, d) as (x # xs)" and small: "length (x # xs) < 2 ^ 63"
  shows "\<exists>s' as'. dq_pop_front N (h, d) = Inr (x, s') \<and> dq_rep_at N s' as' xs"
proof -
  note D = dq_rep_atD [OF r]
  note ld = dq_load_front [OF r]
  have ne: "\<not> dq_empty d" using dq_empty_iff [OF r small] by simp
  obtain a as' where as: "as = a # as'" using ld(2) by (cases as) auto
  from r ld(2) obtain pre post where pp: "dq_chunks h as = pre @ (x # xs) @ post" "length pre = dq_first d"
    "length post + dq_next d = N" "dq_first d < N" "0 < dq_next d" "dq_next d \<le> N" by (rule dq_rep_atE)
  show ?thesis
  proof (cases "dq_first d + 1 = N")
    case True
    obtain st l where p: "ll_pop_front (dh_nodes h, dq_list d) = (Some a, st, l)"
      using ll_rep_pop_front(1) [OF D(1)] as by (metis first_or_simps(2) surj_pair)
    have ll: "ll_rep (st, l) as'" using ll_rep_pop_front(2) [OF D(1)] p as by simp
    have emp: "ll_empty l \<longleftrightarrow> as' = []" using ll by (simp add: ll_rep_def ll_empty_def)
    have len: "length (dh_items h a) = length (pre @ [x])" using D(2) [of a] as True pp(2) by simp
    have "dh_items h a @ dq_chunks h as' = (pre @ [x]) @ xs @ post" using pp(1) as by simp
    with len have ch: "dq_chunks h as' = xs @ post" by (subst (asm) append_eq_append_conv) auto
    let ?d = "d\<lparr>dq_list := l, dq_first := 0, dq_next := (if as' = [] then N else dq_next d)\<rparr>"
    have "dq_pop_front N (h, d) = Inr (x, h\<lparr>dh_nodes := st\<rparr>, ?d)"
      using ne ld(1) True p emp by (simp add: dq_pop_front_def)
    moreover have "dq_rep_at N (h\<lparr>dh_nodes := st\<rparr>, ?d) as' xs"
    proof (cases "as' = []")
      case True
      then show ?thesis using ch ll by (simp add: dq_rep_at_def)
    next
      case False
      then show ?thesis using ch ll pp(3-6) D(2) as
        by (intro dq_rep_atI [where pre = "[]" and post = post]) auto
    qed
    ultimately show ?thesis by blast
  next
    case False
    have "dq_rep_at N (h, d\<lparr>dq_first := dq_first d + 1\<rparr>) as xs"
      using D(1,2) ld(2) pp False by (intro dq_rep_atI [where pre = "pre @ [x]" and post = post]) auto
    with False ne ld(1) show ?thesis by (auto simp: dq_pop_front_def)
  qed
qed

lemma dq_pop_back_rep_at:
  assumes r: "dq_rep_at N (h, d) as (xs @ [x])" and small: "length (xs @ [x]) < 2 ^ 63"
  shows "\<exists>s' as'. dq_pop_back N (h, d) = Inr (x, s') \<and> dq_rep_at N s' as' xs"
proof -
  note D = dq_rep_atD [OF r]
  note ld = dq_load_back [OF r]
  have ne: "\<not> dq_empty d" using dq_empty_iff [OF r small] by simp
  obtain a as' where as: "as = as' @ [a]" using ld(2) by (cases as rule: rev_cases) auto
  from r ld(2) obtain pre post where pp: "dq_chunks h as = pre @ (xs @ [x]) @ post" "length pre = dq_first d"
    "length post + dq_next d = N" "dq_first d < N" "0 < dq_next d" "dq_next d \<le> N" by (rule dq_rep_atE)
  show ?thesis
  proof (cases "dq_next d = 1")
    case True
    obtain st l where p: "ll_pop_back (dh_nodes h, dq_list d) = (Some a, st, l)"
      using ll_rep_pop_back(1) [OF D(1)] as by (metis last_or_simps(2) surj_pair)
    have ll: "ll_rep (st, l) as'" using ll_rep_pop_back(2) [OF D(1)] p as by simp
    have emp: "ll_empty l \<longleftrightarrow> as' = []" using ll by (simp add: ll_rep_def ll_empty_def)
    have len: "length (dh_items h a) = length (x # post)" using D(2) [of a] as True pp(3) by simp
    have "dq_chunks h as' @ dh_items h a = (pre @ xs) @ (x # post)" using pp(1) as by simp
    with len have ch: "dq_chunks h as' = pre @ xs" by (subst (asm) append_eq_append_conv) auto
    let ?d = "d\<lparr>dq_list := l, dq_next := N, dq_first := (if as' = [] then 0 else dq_first d)\<rparr>"
    have "dq_pop_back N (h, d) = Inr (x, h\<lparr>dh_nodes := st\<rparr>, ?d)"
      using ne ld(1) True p emp by (simp add: dq_pop_back_def)
    moreover have "dq_rep_at N (h\<lparr>dh_nodes := st\<rparr>, ?d) as' xs"
    proof (cases "as' = []")
      case True
      then show ?thesis using ch ll by (simp add: dq_rep_at_def)
    next
      case False
      then show ?thesis using ch ll pp(2-6) D(2) as
        by (intro dq_rep_atI [where pre = pre and post = "[]"]) auto
    qed
    ultimately show ?thesis by blast
  next
    case False
    have "dq_rep_at N (h, d\<lparr>dq_next := dq_next d - 1\<rparr>) as xs"
      using D(1,2) ld(2) pp False by (intro dq_rep_atI [where pre = pre and post = "x # post"]) auto
    with False ne ld(1) pp(5) show ?thesis by (auto simp: dq_pop_back_def)
  qed
qed


section \<open>Iterating\<close>

text \<open>The iterator at the \<open>k\<close>-th cell of the chunks.\<close>

definition dq_pos :: "nat \<Rightarrow> addr list \<Rightarrow> nat \<Rightarrow> addr option \<times> nat" where
  "dq_pos N as k = (if k = N * length as then (None, 0) else (Some (as ! (k div N)), k mod N))"

lemma dseg_next:
  "dseg st p as n \<Longrightarrow> j < length as \<Longrightarrow> n_next st (as ! j) = (if Suc j < length as then Some (as ! Suc j) else n)"
proof (induction as arbitrary: p j)
  case (Cons a as)
  then show ?case by (cases j) (auto simp: first_or_def split: list.split)
qed simp

lemma dq_chunks_nth:
  assumes "\<forall>a\<in>set as. length (dh_items h a) = N" "k < N * length as"
  shows "dq_chunks h as ! k = dh_items h (as ! (k div N)) ! (k mod N)"
  using assms
proof (induction as arbitrary: k)
  case (Cons a as)
  show ?case
  proof (cases "k < N")
    case False
    then have "k = N + (k - N)" "0 < N" using Cons.prems by (cases N; simp)+
    then have "k div N = Suc ((k - N) div N)" "k mod N = (k - N) mod N"
      by (metis div_add_self1 less_numeral_extra(3) Suc_eq_plus1, metis mod_add_self1)
    then show ?thesis using False Cons.prems Cons.IH [of "k - N"] by (simp add: nth_append)
  qed (use Cons.prems in \<open>simp add: nth_append\<close>)
qed simp

lemma dq_pos_eq:
  assumes "distinct as" "j \<le> N * length as" "k \<le> N * length as" "0 < N"
  shows "dq_iter_eq (dq_pos N as j) (dq_pos N as k) \<longleftrightarrow> j = k"
proof -
  have lt: "i div N < length as" if "i \<le> N * length as" "i \<noteq> N * length as" for i
    using that assms(4) by (metis div_less_iff_less_mult mult.commute nat_less_le)
  have "j = k" if "j div N = k div N" "j mod N = k mod N" using that by (metis div_mult_mod_eq)
  then show ?thesis
    using assms(1-3) lt [of j] lt [of k] by (auto simp: dq_iter_eq_def dq_pos_def nth_eq_iff_index_eq)
qed

lemma dq_pos_incr:
  assumes "dseg st None as None" "k < N * length as"
  shows "dq_iter_incr N st (dq_pos N as k) = Inr (dq_pos N as (k + 1))"
proof -
  have N: "0 < N" using assms(2) by (cases N) auto
  then have j: "k div N < length as" using assms(2) by (metis div_less_iff_less_mult mult.commute)
  have m: "k mod N < N" using N by simp
  have k: "k = N * (k div N) + k mod N" by simp
  show ?thesis
  proof (cases "k mod N + 1 = N")
    case True
    then have k1: "k + 1 = N * Suc (k div N)" using k by (metis add.assoc mult_Suc_right add.commute)
    then have "(k + 1) div N = Suc (k div N)" "(k + 1) mod N = 0" using N by (simp_all del: mult_Suc_right)
    moreover have "k + 1 = N * length as \<longleftrightarrow> Suc (k div N) = length as" using k1 N by (metis mult_left_cancel not_gr0)
    ultimately show ?thesis
      using True assms(2) j dseg_next [OF assms(1) j] m by (auto simp: dq_iter_incr_def dq_pos_def)
  next
    case False
    then have "(k + 1) div N = k div N" "(k + 1) mod N = k mod N + 1"
      by (simp_all add: div_Suc mod_Suc)
    moreover have "k + 1 \<noteq> N * length as" using calculation(2) by auto
    ultimately show ?thesis using False assms(2) m by (auto simp: dq_iter_incr_def dq_pos_def)
  qed
qed

lemma dq_iterate_pos:
  assumes "dseg (dh_nodes h) None as None" "distinct as" "\<forall>a\<in>set as. length (dh_items h a) = N" "0 < N"
    "e \<le> N * length as" "k \<le> e" "e - k \<le> fuel"
  shows "dq_iterate N fuel h (dq_pos N as k) (dq_pos N as e) = Some (Inr (take (e - k) (drop k (dq_chunks h as))))"
  using assms(6,7)
proof (induction fuel arbitrary: k)
  case 0
  then show ?case using assms(2,4,5) by (simp add: dq_pos_eq)
next
  case (Suc fuel)
  show ?case
  proof (cases "k = e")
    case True
    then show ?thesis using assms(2,4,5) by (simp add: dq_pos_eq)
  next
    case False
    then have k: "k < e" "k < N * length as" using Suc.prems assms(5) by simp_all
    have "k div N < length as" using k(2) assms(4) by (metis div_less_iff_less_mult mult.commute)
    then have "length (dh_items h (as ! (k div N))) = N" using assms(3) by simp
    then have ld: "dq_load (fst (dq_pos N as k)) (snd (dq_pos N as k)) h = Inr (dq_chunks h as ! k)"
      using k(2) assms(4) dq_chunks_nth [OF assms(3) k(2)] by (simp add: dq_load_def dq_pos_def)
    have "fst (dq_pos N as k) \<noteq> None" using k(2) by (simp add: dq_pos_def)
    moreover have "\<not> dq_iter_eq (dq_pos N as k) (dq_pos N as e)"
      using False k(2) assms(2,4,5) by (simp add: dq_pos_eq)
    moreover have "take (e - k) (drop k (dq_chunks h as)) = dq_chunks h as ! k # take (e - (k + 1)) (drop (k + 1) (dq_chunks h as))"
      using k dq_chunks_length [OF assms(3)] by (simp add: Suc_diff_Suc Cons_nth_drop_Suc [symmetric] take_Cons')
    ultimately show ?thesis
      using ld dq_pos_incr [OF assms(1) k(2)] Suc.IH [of "k + 1"] Suc.prems k by simp
  qed
qed

lemma dq_iterate_items:
  assumes r: "dq_rep_at N (h, d) as xs" and N: "0 < N"
  shows "dq_iterate N (length xs) h (dq_begin N (h, d)) (dq_end N (h, d)) = Some (Inr xs)"
proof (cases "as = []")
  case True
  then show ?thesis using r dq_rep_atD(4,5) [OF r]
    by (simp add: dq_rep_at_def dq_begin_def dq_end_def dq_iterator_def dq_iter_eq_def)
next
  case False
  note D = dq_rep_atD [OF r]
  from r False obtain pre post where pp: "dq_chunks h as = pre @ xs @ post" "length pre = dq_first d"
    "length post + dq_next d = N" "dq_first d < N" "0 < dq_next d" "dq_next d \<le> N" by (rule dq_rep_atE)
  obtain as' a where as: "as = as' @ [a]" using False by (cases as rule: rev_cases) auto
  have seg: "dseg (dh_nodes h) None as None" using D(1) by (simp add: ll_rep_def)
  have len: "N * length as = dq_first d + length xs + (N - dq_next d)" using D(6) pp by simp
  then have e: "dq_first d + length xs = N * length as' + dq_next d" using as pp(6) by simp
  have b: "dq_begin N (h, d) = dq_pos N as (dq_first d)"
    using D(4) False pp(4) by (cases as) (auto simp: dq_begin_def dq_iterator_def dq_pos_def)
  have "dq_end N (h, d) = dq_pos N as (dq_first d + length xs)"
  proof (cases "dq_next d = N")
    case True
    then show ?thesis using D(5) as seg e by (simp add: dq_end_def dq_iterator_def dq_pos_def)
  next
    case False
    then have "(N * length as' + dq_next d) div N = length as'" "(N * length as' + dq_next d) mod N = dq_next d"
      using pp(6) N by (simp_all add: div_add1_eq)
    then show ?thesis using False pp(6) D(5) as e N by (auto simp: dq_end_def dq_iterator_def dq_pos_def nth_append)
  qed
  moreover have "take (length xs) (drop (dq_first d) (dq_chunks h as)) = xs" using pp(1,2) by simp
  ultimately show ?thesis
    using dq_iterate_pos [OF seg D(3) _ N, of "dq_first d + length xs" "dq_first d" "length xs"] D(2) b len by simp
qed


lemma dq_clear_rep:
  assumes r: "dq_rep_at N (h, d) as xs" and f: "length as \<le> fuel"
  shows "\<exists>s'. dq_clear fuel N (h, d) = Some s' \<and> dq_rep_at N s' [] []"
proof -
  have "\<exists>st l. dq_clear_loop fuel sl = Some (st, l) \<and> ll_rep (st, l) []" if "ll_rep sl as" for sl
    using that f
  proof (induction as arbitrary: sl fuel)
    case Nil
    then have "ll_empty (snd sl)" by (cases sl) (simp add: ll_rep_def ll_empty_def)
    then show ?case using Nil(1) by (cases sl; cases fuel) auto
  next
    case (Cons a as)
    then obtain f' where fu: "fuel = Suc f'" "length as \<le> f'" by (cases fuel) auto
    have "\<not> ll_empty (snd sl)" using Cons.prems by (cases sl) (simp add: ll_rep_def ll_empty_def)
    then show ?case using Cons.IH [OF _ fu(2)] ll_rep_pop_front(2) [OF Cons.prems(1)] fu(1) by simp
  qed
  from this [OF dq_rep_atD(1) [OF r]] show ?thesis by (auto simp: dq_clear_def dq_rep_at_def)
qed

section \<open>The interface of a double-ended queue\<close>

datatype 'a dq_op = Add_front 'a | Add_back 'a | Take_front | Take_back

text \<open>A run of pushes and pops: the items popped, in order, and the last state.\<close>

fun dq_run :: "('a \<Rightarrow> 's \<Rightarrow> 's res) \<Rightarrow> ('a \<Rightarrow> 's \<Rightarrow> 's res) \<Rightarrow> ('s \<Rightarrow> ('a \<times> 's) res) \<Rightarrow> ('s \<Rightarrow> ('a \<times> 's) res) \<Rightarrow>
    'a dq_op list \<Rightarrow> 's \<Rightarrow> ('a list \<times> 's) res" where
  "dq_run pushf pushb popf popb [] s = Inr ([], s)"
| "dq_run pushf pushb popf popb (Add_front x # ops) s = bindE (pushf x s) (dq_run pushf pushb popf popb ops)"
| "dq_run pushf pushb popf popb (Add_back x # ops) s = bindE (pushb x s) (dq_run pushf pushb popf popb ops)"
| "dq_run pushf pushb popf popb (Take_front # ops) s =
     bindE (popf s) (\<lambda>(x, s). bindE (dq_run pushf pushb popf popb ops s) (\<lambda>(xs, s). Inr (x # xs, s)))"
| "dq_run pushf pushb popf popb (Take_back # ops) s =
     bindE (popb s) (\<lambda>(x, s). bindE (dq_run pushf pushb popf popb ops s) (\<lambda>(xs, s). Inr (x # xs, s)))"

fun dq_spec :: "nat \<Rightarrow> 'a dq_op list \<Rightarrow> 'a list \<Rightarrow> ('a list \<times> 'a list) option" where
  "dq_spec room [] xs = Some ([], xs)"
| "dq_spec room (Add_front x # ops) xs = (if length xs < room then dq_spec room ops (x # xs) else None)"
| "dq_spec room (Add_back x # ops) xs = (if length xs < room then dq_spec room ops (xs @ [x]) else None)"
| "dq_spec room (Take_front # ops) xs =
     (if xs = [] then None else map_option (\<lambda>(ys, zs). (hd xs # ys, zs)) (dq_spec room ops (tl xs)))"
| "dq_spec room (Take_back # ops) xs =
     (if xs = [] then None else map_option (\<lambda>(ys, zs). (last xs # ys, zs)) (dq_spec room ops (butlast xs)))"

locale double_ended =
  fixes rep :: "'s \<Rightarrow> 'a list \<Rightarrow> bool" and push_front push_back :: "'a \<Rightarrow> 's \<Rightarrow> 's res"
    and pop_front pop_back :: "'s \<Rightarrow> ('a \<times> 's) res" and is_empty :: "'s \<Rightarrow> bool" and room :: nat
  assumes push_front_law: "rep s xs \<Longrightarrow> length xs < room \<Longrightarrow> \<exists>s'. push_front x s = Inr s' \<and> rep s' (x # xs)"
    and push_back_law: "rep s xs \<Longrightarrow> length xs < room \<Longrightarrow> \<exists>s'. push_back x s = Inr s' \<and> rep s' (xs @ [x])"
    and pop_front_law: "rep s (x # xs) \<Longrightarrow> \<exists>s'. pop_front s = Inr (x, s') \<and> rep s' xs"
    and pop_back_law: "rep s (xs @ [x]) \<Longrightarrow> \<exists>s'. pop_back s = Inr (x, s') \<and> rep s' xs"
    and empty_law: "rep s xs \<Longrightarrow> is_empty s \<longleftrightarrow> xs = []"
    and pop_empty_law: "rep s [] \<Longrightarrow> pop_front s = Inl Assert_failed \<and> pop_back s = Inl Assert_failed"
begin

lemma run_refines:
  assumes "rep s xs" "dq_spec room ops xs = Some (out, ys)"
  shows "\<exists>s'. dq_run push_front push_back pop_front pop_back ops s = Inr (out, s') \<and> rep s' ys"
  using assms
proof (induction ops arbitrary: s xs out)
  case (Cons op ops)
  show ?case
  proof (cases op)
    case (Add_front x)
    then show ?thesis using Cons.prems Cons.IH push_front_law [of s xs x] by (fastforce split: if_splits)
  next
    case (Add_back x)
    then show ?thesis using Cons.prems Cons.IH push_back_law [of s xs x] by (fastforce split: if_splits)
  next
    case Take_front
    then obtain x xs' out' where x: "xs = x # xs'" "dq_spec room ops xs' = Some (out', ys)" "out = x # out'"
      using Cons.prems(2) by (cases xs) (auto split: if_splits)
    obtain s' where "pop_front s = Inr (x, s')" "rep s' xs'" using pop_front_law Cons.prems(1) x(1) by blast
    with Cons.IH [of s' xs' out'] x Take_front show ?thesis by auto
  next
    case Take_back
    then obtain x xs' out' where x: "xs = xs' @ [x]" "dq_spec room ops xs' = Some (out', ys)" "out = x # out'"
      using Cons.prems(2) by (cases xs rule: rev_cases) (auto split: if_splits)
    obtain s' where "pop_back s = Inr (x, s')" "rep s' xs'" using pop_back_law Cons.prems(1) x(1) by blast
    with Cons.IH [of s' xs' out'] x Take_back show ?thesis by auto
  qed
qed auto

text \<open>Queue discipline: what was pushed at the back comes out at the front, in order.\<close>

lemma drain:
  assumes "rep s xs"
  shows "\<exists>s'. dq_run push_front push_back pop_front pop_back (replicate (length xs) Take_front) s = Inr (xs, s') \<and> rep s' []"
proof -
  have "dq_spec room (replicate (length xs) Take_front) xs = Some (xs, [])" by (induction xs) auto
  then show ?thesis using run_refines [OF assms] by blast
qed

end

text \<open>The deque of chunks of \<open>N\<close> items (at least one; the source never takes \<open>N = 0\<close>).\<close>

interpretation dq: double_ended "dq_rep (Suc n)" "dq_push_front (Suc n) zero" "dq_push_back (Suc n) zero"
    "dq_pop_front (Suc n)" "dq_pop_back (Suc n)" "\<lambda>s. dq_empty (snd s)" "2 ^ 62" for n zero
proof unfold_locales
  fix s :: "'a dq_state" and xs x
  obtain h d where s: "s = (h, d)" by (cases s)
  show "\<exists>s'. dq_push_front (Suc n) zero x s = Inr s' \<and> dq_rep (Suc n) s' (x # xs)"
    if r: "dq_rep (Suc n) s xs" and len: "length xs < 2 ^ 62"
  proof -
    obtain as where "dq_rep_at (Suc n) (h, d) as xs" using r by (auto simp: dq_rep_def s)
    from dq_push_front_rep_at [OF this, of zero x] len show ?thesis by (auto simp: dq_rep_def s)
  qed
  show "\<exists>s'. dq_push_back (Suc n) zero x s = Inr s' \<and> dq_rep (Suc n) s' (xs @ [x])"
    if r: "dq_rep (Suc n) s xs" and len: "length xs < 2 ^ 62"
  proof -
    obtain as where "dq_rep_at (Suc n) (h, d) as xs" using r by (auto simp: dq_rep_def s)
    from dq_push_back_rep_at [OF this, of zero x] len show ?thesis by (auto simp: dq_rep_def s)
  qed
  show "\<exists>s'. dq_pop_front (Suc n) s = Inr (x, s') \<and> dq_rep (Suc n) s' xs" if r: "dq_rep (Suc n) s (x # xs)"
  proof -
    obtain as where "dq_rep_at (Suc n) (h, d) as (x # xs)" "length (x # xs) < 2 ^ 63" using r by (auto simp: dq_rep_def s)
    from dq_pop_front_rep_at [OF this] this(2) show ?thesis by (auto simp: dq_rep_def s)
  qed
  show "\<exists>s'. dq_pop_back (Suc n) s = Inr (x, s') \<and> dq_rep (Suc n) s' xs" if r: "dq_rep (Suc n) s (xs @ [x])"
  proof -
    obtain as where "dq_rep_at (Suc n) (h, d) as (xs @ [x])" "length (xs @ [x]) < 2 ^ 63" using r by (auto simp: dq_rep_def s)
    from dq_pop_back_rep_at [OF this] this(2) show ?thesis by (auto simp: dq_rep_def s)
  qed
  show "dq_empty (snd s) \<longleftrightarrow> xs = []" if "dq_rep (Suc n) s xs"
    using that dq_empty_iff [of "Suc n" h d _ xs] by (auto simp: dq_rep_def s)
  show "dq_pop_front (Suc n) s = Inl Assert_failed \<and> dq_pop_back (Suc n) s = Inl Assert_failed" if "dq_rep (Suc n) s []"
  proof -
    have "dq_empty d" using that dq_empty_iff by (fastforce simp: dq_rep_def s)
    then show ?thesis by (simp add: dq_pop_front_def dq_pop_back_def s)
  qed
qed

section \<open>Properties\<close>

text \<open>C36. A deque refines a list: any run of pushes and pops at both ends that never pops an empty
  queue returns what the same run on a list returns, whatever the chunk size.\<close>

theorem deque_refines_list:
  assumes "dq_spec (2 ^ 62) ops [] = Some (out, ys)"
  shows "\<exists>s. dq_run (dq_push_front (Suc n) zero) (dq_push_back (Suc n) zero) (dq_pop_front (Suc n)) (dq_pop_back (Suc n)) ops
           (h, dq_new (Suc n)) = Inr (out, s) \<and> dq_rep (Suc n) s ys \<and>
         dq_iterate (Suc n) (length ys) (fst s) (dq_begin (Suc n) s) (dq_end (Suc n) s) = Some (Inr ys)"
proof -
  from dq.run_refines [OF dq_rep_new assms] obtain s where
    s: "dq_run (dq_push_front (Suc n) zero) (dq_push_back (Suc n) zero) (dq_pop_front (Suc n)) (dq_pop_back (Suc n)) ops
           (h, dq_new (Suc n)) = Inr (out, s)" "dq_rep (Suc n) s ys" by blast
  obtain h' d' where "s = (h', d')" by (cases s)
  with s(2) dq_iterate_items [of "Suc n"] have
    "dq_iterate (Suc n) (length ys) (fst s) (dq_begin (Suc n) s) (dq_end (Suc n) s) = Some (Inr ys)"
    by (auto simp: dq_rep_def)
  with s show ?thesis by blast
qed

theorem deque_refines_list_witness:
  "\<exists>s. dq_run (dq_push_front (Suc 1) 0) (dq_push_back (Suc 1) 0) (dq_pop_front (Suc 1)) (dq_pop_back (Suc 1))
       [Add_back 1, Add_front 2, Add_back 3, Take_back, Take_front, Add_back 4, Take_front]
       (\<lparr>dh_nodes = \<lparr>n_next = \<lambda>_. None, n_prev = \<lambda>_. None\<rparr>, dh_items = \<lambda>_. [], dh_fresh = 5\<rparr>, dq_new (Suc 1)) =
     Inr ([3, 2, 1], s) \<and> dq_rep (Suc 1) s [4 :: int]"
  using deque_refines_list [of "[Add_back 1, Add_front 2, Add_back 3, Take_back, Take_front, Add_back 4, Take_front]"
      "[3, 2, 1]" "[4]" 1 0] by fastforce

text \<open>The move constructor and the move assignment take the chunks but leave the indices of
  the other deque as they were; when those are not the ones of an empty deque, its next push at the
  back dereferences a null pointer.\<close>

theorem deque_moved_from_push:
  assumes "dq_rep N (h, d) xs" "xs \<noteq> []" "dq_next d < N"
  shows "dq_push_back N zero x (h, snd (dq_move d)) = Inl Null_deref \<and> dq_rep N (h, fst (dq_move d)) xs"
proof -
  have "fst (dq_move d) = d" by (simp add: dq_move_def ll_move_def)
  then show ?thesis using assms
    by (simp, simp add: dq_push_back_def dq_store_def dq_move_def ll_move_def ll_back_def)
qed

theorem deque_moved_from_push_witness:
  "map_sum id (\<lambda>(h, d). dq_push_back 4 0 (8::int) (h, snd (dq_move d)))
     (dq_push_back 4 0 7 (\<lparr>dh_nodes = \<lparr>n_next = \<lambda>_. None, n_prev = \<lambda>_. None\<rparr>, dh_items = \<lambda>_. [], dh_fresh = 5\<rparr>, dq_new 4)) =
   Inr (Inl Null_deref)"
proof -
  let ?h = "\<lparr>dh_nodes = \<lparr>n_next = \<lambda>_. None, n_prev = \<lambda>_. None\<rparr>, dh_items = \<lambda>_. [], dh_fresh = 5\<rparr> :: int dq_heap"
  obtain h d where p: "dq_push_back (Suc 3) 0 7 (?h, dq_new (Suc 3)) = Inr (h, d)" "dq_rep (Suc 3) (h, d) [7]"
    using dq.push_back_law [OF dq_rep_new [of "Suc 3" ?h], of 0 7] by auto
  have "dq_next d = 1" using p(1) by (auto simp: dq_push_back_def dq_new_def dq_new_chunk_def bindE_Inr_iff Let_def split: prod.splits)
  with deque_moved_from_push [OF p(2), of 0 8] p(1) show ?thesis by simp
qed

end
