(* ===== verification/Robin_Hood.thy ===== *)
theory Robin_Hood
  imports J6_Prelude "HOL-Library.Multiset"
begin

text \<open>
  Robin Hood hashing with linear probing and backward shift deletion, the algorithm behind both
  hash tables of \<open>libraries/util\<close> (theories \<open>Hash_Map\<close> and \<open>Node_Map\<close>), on plain natural
  number slots. A table is a list of cells; \<open>home\<close> gives the slot a node hashes to. Every loop
  walks the slots in a circle and runs on fuel.
\<close>

section \<open>Slots in a circle\<close>

definition nxt :: "nat \<Rightarrow> nat \<Rightarrow> nat" where
  "nxt n i = (if Suc i = n then 0 else Suc i)"

text \<open>The distance of slot \<open>i\<close> from slot \<open>h\<close>, going up.\<close>

definition dst :: "nat \<Rightarrow> nat \<Rightarrow> nat \<Rightarrow> nat" where
  "dst n h i = (if h \<le> i then i - h else i + n - h)"

lemma nxt_less [simp]: "i < n \<Longrightarrow> nxt n i < n"
  by (auto simp: nxt_def)

lemma nxt_mod: "i < n \<Longrightarrow> (i + 1) mod n = nxt n i"
  by (auto simp: nxt_def)

lemma dst_mod: "h < n \<Longrightarrow> i < n \<Longrightarrow> (i + n - h) mod n = dst n h i"
  by (auto simp: dst_def mod_if)

lemma dst_less [simp]: "h < n \<Longrightarrow> i < n \<Longrightarrow> dst n h i < n"
  by (auto simp: dst_def)

lemma dst_self [simp]: "dst n h h = 0"
  by (simp add: dst_def)

lemma dst_nxt: "h < n \<Longrightarrow> i < n \<Longrightarrow> Suc (dst n h i) < n \<Longrightarrow> dst n h (nxt n i) = Suc (dst n h i)"
  by (auto simp: dst_def nxt_def)

lemma dst_nxt_wrap: "h < n \<Longrightarrow> i < n \<Longrightarrow> \<not> Suc (dst n h i) < n \<Longrightarrow> nxt n i = h"
  by (auto simp: dst_def nxt_def split: if_splits)

lemma dst_eq_0: "h < n \<Longrightarrow> i < n \<Longrightarrow> dst n h i = 0 \<longleftrightarrow> i = h"
  by (auto simp: dst_def)

lemma dst_inj: "h < n \<Longrightarrow> i < n \<Longrightarrow> j < n \<Longrightarrow> dst n h i = dst n h j \<longleftrightarrow> i = j"
  by (auto simp: dst_def split: if_splits)

lemma dst_from_nxt: "i < n \<Longrightarrow> e < n \<Longrightarrow> i \<noteq> e \<Longrightarrow> dst n i e = Suc (dst n (nxt n i) e)"
  by (auto simp: dst_def nxt_def)

lemma dst_before_nxt:
  "h < n \<Longrightarrow> i < n \<Longrightarrow> j < n \<Longrightarrow> Suc (dst n h i) < n \<Longrightarrow> dst n h j < dst n h (nxt n i) \<longleftrightarrow> j = i \<or> dst n h j < dst n h i"
  by (auto simp: dst_nxt less_Suc_eq dst_inj)

section \<open>The loops\<close>

type_synonym 'n table = "'n option list"

fun rh_insert :: "nat \<Rightarrow> ('n \<Rightarrow> nat) \<Rightarrow> 'n table \<Rightarrow> 'n \<Rightarrow> nat \<Rightarrow> nat \<Rightarrow> 'n table option" where
  "rh_insert 0 home t x i d = None"
| "rh_insert (Suc fuel) home t x i d =
     (case t ! i of
        None \<Rightarrow> Some (t[i := Some x])
      | Some y \<Rightarrow>
          let p = dst (length t) (home y) i in
          if p < d then rh_insert fuel home (t[i := Some x]) y (nxt (length t) i) (p + 1)
          else rh_insert fuel home t x (nxt (length t) i) (d + 1))"

text \<open>\<open>early\<close> says whether a match is tested before the distance, as \<open>node_map\<close> does.\<close>

fun rh_lookup :: "nat \<Rightarrow> bool \<Rightarrow> ('n \<Rightarrow> nat) \<Rightarrow> ('n \<Rightarrow> bool) \<Rightarrow> 'n table \<Rightarrow> nat \<Rightarrow> nat \<Rightarrow> nat option option" where
  "rh_lookup 0 early home match t i d = None"
| "rh_lookup (Suc fuel) early home match t i d =
     (case t ! i of
        None \<Rightarrow> Some None
      | Some y \<Rightarrow>
          if early \<and> match y then Some (Some i)
          else if dst (length t) (home y) i < d then Some None
          else if match y then Some (Some i)
          else rh_lookup fuel early home match t (nxt (length t) i) (d + 1))"

fun rh_shift :: "nat \<Rightarrow> ('n \<Rightarrow> nat) \<Rightarrow> 'n table \<Rightarrow> nat \<Rightarrow> 'n table option" where
  "rh_shift 0 home t i = None"
| "rh_shift (Suc fuel) home t i =
     (let j = nxt (length t) i in
      case t ! j of
        None \<Rightarrow> Some t
      | Some y \<Rightarrow> if home y = j then Some t else rh_shift fuel home (t[i := Some y, j := None]) j)"

section \<open>Invariant\<close>

text \<open>
  Every slot that a node's probe sequence passes before its own slot holds a node that is at least
  as far from its home as the probe is from the node's home.
\<close>

definition rh_path :: "('n \<Rightarrow> nat) \<Rightarrow> 'n table \<Rightarrow> 'n \<Rightarrow> nat \<Rightarrow> bool" where
  "rh_path home t x i \<longleftrightarrow> (\<forall>j<length t. dst (length t) (home x) j < dst (length t) (home x) i \<longrightarrow>
     (\<exists>y. t ! j = Some y \<and> dst (length t) (home x) j \<le> dst (length t) (home y) j))"

definition rh_inv :: "('n \<Rightarrow> nat) \<Rightarrow> 'n table \<Rightarrow> bool" where
  "rh_inv home t \<longleftrightarrow> (\<forall>i<length t. \<forall>x. t ! i = Some x \<longrightarrow> home x < length t \<and> rh_path home t x i)"

definition rh_nodes :: "'n table \<Rightarrow> 'n multiset" where
  "rh_nodes t = image_mset the (filter_mset (\<lambda>c. c \<noteq> None) (mset t))"

lemma rh_nodes_replicate [simp]: "rh_nodes (replicate n None) = {#}"
  by (simp add: rh_nodes_def)

lemma rh_inv_replicate: "rh_inv home (replicate n None)"
  by (simp add: rh_inv_def)

lemma mset_split_nth: "i < length t \<Longrightarrow> mset t = add_mset (t ! i) (mset t - {#t ! i#})"
  by (simp add: nth_mem_mset)

lemma rh_nodes_fill: "i < length t \<Longrightarrow> t ! i = None \<Longrightarrow> rh_nodes (t[i := Some x]) = add_mset x (rh_nodes t)"
  using mset_split_nth [of i t] by (simp add: rh_nodes_def mset_update filter_diff_mset)

lemma rh_nodes_swap: "i < length t \<Longrightarrow> t ! i = Some y \<Longrightarrow> add_mset y (rh_nodes (t[i := Some x])) = add_mset x (rh_nodes t)"
proof -
  assume i: "i < length t" "t ! i = Some y"
  then have m: "mset t = add_mset (Some y) (mset t - {#Some y#})" using mset_split_nth [of i t] by simp
  have "rh_nodes t = add_mset y (image_mset the (filter_mset (\<lambda>c. c \<noteq> None) (mset t - {#Some y#})))"
    unfolding rh_nodes_def by (subst m) simp
  then show ?thesis using i by (simp add: rh_nodes_def mset_update)
qed

lemma rh_nodes_clear: "i < length t \<Longrightarrow> t ! i = Some y \<Longrightarrow> rh_nodes t = add_mset y (rh_nodes (t[i := None]))"
proof -
  assume i: "i < length t" "t ! i = Some y"
  then have m: "mset t = add_mset (Some y) (mset t - {#Some y#})" using mset_split_nth [of i t] by simp
  show ?thesis using i unfolding rh_nodes_def by (subst m) (simp add: mset_update)
qed

lemma rh_nodes_iff: "x \<in># rh_nodes t \<longleftrightarrow> (\<exists>i<length t. t ! i = Some x)"
  by (force simp: rh_nodes_def in_set_conv_nth)

section \<open>Insertion\<close>

lemma rh_pathD:
  "rh_path home t x i \<Longrightarrow> j < length t \<Longrightarrow> dst (length t) (home x) j < dst (length t) (home x) i \<Longrightarrow>
     \<exists>y. t ! j = Some y \<and> dst (length t) (home x) j \<le> dst (length t) (home y) j"
  by (auto simp: rh_path_def)

text \<open>Replacing an occupant by one further from its home keeps every probe sequence intact.\<close>

lemma rh_path_replace:
  assumes "rh_path home t z k" "i < length t" "\<And>y. t ! i = Some y \<Longrightarrow> dst (length t) (home y) i \<le> dst (length t) (home x) i"
  shows "rh_path home (t[i := Some x]) z k"
  unfolding rh_path_def length_list_update
proof (intro allI impI)
  fix j assume j: "j < length t" "dst (length t) (home z) j < dst (length t) (home z) k"
  from rh_pathD [OF assms(1) this] obtain w where
    w: "t ! j = Some w" "dst (length t) (home z) j \<le> dst (length t) (home w) j" by blast
  show "\<exists>v. t[i := Some x] ! j = Some v \<and> dst (length t) (home z) j \<le> dst (length t) (home v) j"
    using w j(1) assms(2) assms(3) [of w] by (cases "j = i") auto
qed

lemma rh_inv_replace:
  assumes "rh_inv home t" "i < length t" "home x < length t" "rh_path home t x i"
    "\<And>y. t ! i = Some y \<Longrightarrow> dst (length t) (home y) i \<le> dst (length t) (home x) i"
  shows "rh_inv home (t[i := Some x])"
  unfolding rh_inv_def length_list_update
proof (intro allI impI)
  fix k z assume k: "k < length t" "t[i := Some x] ! k = Some z"
  show "home z < length t \<and> rh_path home (t[i := Some x]) z k"
  proof (cases "k = i")
    case True
    then have "z = x" using k assms(2) by simp
    then show ?thesis using True assms(3) rh_path_replace [OF assms(4,2,5)] by simp
  next
    case False
    then have "t ! k = Some z" using k by simp
    then have "home z < length t" "rh_path home t z k" using assms(1) k(1) by (auto simp: rh_inv_def)
    then show ?thesis using rh_path_replace [of home t z k i x] assms(2,5) by blast
  qed
qed

text \<open>A probe goes on past an occupied slot; it cannot get around the whole table while there is
  an empty slot.\<close>

lemma rh_path_advance:
  assumes "rh_path home t x i" "i < length t" "home x < length t" "t ! i = Some y"
    "dst (length t) (home x) i \<le> dst (length t) (home y) i" "e < length t" "t ! e = None"
  shows "Suc (dst (length t) (home x) i) < length t" "rh_path home t x (nxt (length t) i)"
proof -
  let ?n = "length t"
  show 1: "Suc (dst ?n (home x) i) < ?n"
  proof (rule ccontr)
    assume a: "\<not> Suc (dst ?n (home x) i) < ?n"
    have "dst ?n (home x) e \<noteq> dst ?n (home x) i" using assms by (auto simp: dst_inj)
    with a have "dst ?n (home x) e < dst ?n (home x) i" using dst_less [OF assms(3,6)] by linarith
    with rh_pathD [OF assms(1,6)] assms(7) show False by simp
  qed
  show "rh_path home t x (nxt ?n i)"
    unfolding rh_path_def
  proof (intro allI impI)
    fix j assume j: "j < ?n" "dst ?n (home x) j < dst ?n (home x) (nxt ?n i)"
    then have "j = i \<or> dst ?n (home x) j < dst ?n (home x) i" using dst_before_nxt [OF assms(3,2) _ 1] by simp
    then show "\<exists>y. t ! j = Some y \<and> dst ?n (home x) j \<le> dst ?n (home y) j"
      using assms(4,5) rh_pathD [OF assms(1) j(1)] by auto
  qed
qed

lemma rh_insert_correct:
  assumes "rh_inv home t" "i < length t" "home x < length t" "rh_path home t x i" "d = dst (length t) (home x) i"
    "e < length t" "t ! e = None" "dst (length t) i e < fuel"
  shows "\<exists>t'. rh_insert fuel home t x i d = Some t' \<and> length t' = length t \<and> rh_inv home t' \<and>
           rh_nodes t' = add_mset x (rh_nodes t)"
  using assms
proof (induction fuel arbitrary: t x i d)
  case (Suc fuel)
  let ?n = "length t"
  show ?case
  proof (cases "t ! i")
    case None
    then show ?thesis using Suc.prems rh_inv_replace [OF Suc.prems(1-4)] by (simp add: rh_nodes_fill)
  next
    case (Some y)
    let ?p = "dst ?n (home y) i"
    have ie: "i \<noteq> e" using Some Suc.prems(7) by auto
    then have left: "dst ?n (nxt ?n i) e < fuel" using dst_from_nxt [OF Suc.prems(2,6) ie] Suc.prems(8) by simp
    have y: "home y < ?n" "rh_path home t y i" using Suc.prems(1,2) Some by (auto simp: rh_inv_def)
    show ?thesis
    proof (cases "?p < d")
      case True
      let ?t = "t[i := Some x]"
      have le: "dst ?n (home z) i \<le> dst ?n (home x) i" if "t ! i = Some z" for z using that True Some Suc.prems(5) by simp
      have inv: "rh_inv home ?t" by (rule rh_inv_replace [OF Suc.prems(1-4) le])
      have "rh_path home ?t y i" by (rule rh_path_replace [OF y(2) Suc.prems(2) le])
      moreover have "e < length ?t" "?t ! e = None" using ie Suc.prems(6,7) by simp_all
      ultimately have adv: "Suc ?p < ?n" "rh_path home ?t y (nxt ?n i)"
        using rh_path_advance [of home ?t y i x e] Suc.prems(2,5) y(1) True by simp_all
      have "\<exists>t'. rh_insert fuel home ?t y (nxt ?n i) (?p + 1) = Some t' \<and> length t' = length ?t \<and> rh_inv home t' \<and>
           rh_nodes t' = add_mset y (rh_nodes ?t)"
        using inv adv left y(1) Suc.prems(2,6,7) ie dst_nxt [OF y(1) Suc.prems(2) adv(1)] by (intro Suc.IH) simp_all
      then show ?thesis using Some True rh_nodes_swap [OF Suc.prems(2) Some, of x] by (auto simp: Let_def)
    next
      case False
      note adv = rh_path_advance [OF Suc.prems(4,2,3) Some _ Suc.prems(6,7)]
      have "\<exists>t'. rh_insert fuel home t x (nxt ?n i) (d + 1) = Some t' \<and> length t' = length t \<and> rh_inv home t' \<and>
           rh_nodes t' = add_mset x (rh_nodes t)"
        using False adv Suc.prems left dst_nxt [OF Suc.prems(3,2)] by (intro Suc.IH) auto
      then show ?thesis using Some False by (auto simp: Let_def)
    qed
  qed
qed simp

section \<open>Lookup\<close>

lemma rh_lookup_found:
  assumes "rh_inv home t" "k < length t" "t ! k = Some x" "match x"
    and uniq: "\<And>j y. j < length t \<Longrightarrow> t ! j = Some y \<Longrightarrow> match y \<Longrightarrow> j = k"
    and "i < length t" "dst (length t) (home x) i \<le> dst (length t) (home x) k" "d = dst (length t) (home x) i"
    "dst (length t) (home x) k - d < fuel"
  shows "rh_lookup fuel early home match t i d = Some (Some k)"
  using assms(6-9)
proof (induction fuel arbitrary: i d)
  case (Suc fuel)
  let ?n = "length t"
  have x: "home x < ?n" "rh_path home t x k" using assms(1-3) by (auto simp: rh_inv_def)
  show ?case
  proof (cases "i = k")
    case True
    then show ?thesis using assms(3,4) Suc.prems(3) by simp
  next
    case False
    then have lt: "dst ?n (home x) i < dst ?n (home x) k"
      using Suc.prems(1,2) dst_inj [OF x(1) Suc.prems(1) assms(2)] by simp
    from rh_pathD [OF x(2) Suc.prems(1) lt] obtain y where
      y: "t ! i = Some y" "dst ?n (home x) i \<le> dst ?n (home y) i" by blast
    have "\<not> match y" using uniq [OF Suc.prems(1) y(1)] False by blast
    moreover have s: "Suc (dst ?n (home x) i) < ?n" using lt dst_less [OF x(1) assms(2)] by simp
    have "rh_lookup fuel early home match t (nxt ?n i) (d + 1) = Some (Some k)"
      using Suc.prems lt dst_nxt [OF x(1) Suc.prems(1) s] by (intro Suc.IH) auto
    ultimately show ?thesis using y Suc.prems(3) by simp
  qed
qed simp

lemma rh_lookup_missing:
  assumes "\<And>j y. j < length t \<Longrightarrow> t ! j = Some y \<Longrightarrow> \<not> match y" "i < length t"
    "e < length t" "t ! e = None" "dst (length t) i e < fuel"
  shows "rh_lookup fuel early home match t i d = Some None"
  using assms(2,5)
proof (induction fuel arbitrary: i d)
  case (Suc fuel)
  show ?case
  proof (cases "t ! i")
    case (Some y)
    then have "i \<noteq> e" "\<not> match y" using assms(1,4) Suc.prems(1) by auto
    then show ?thesis
      using Some Suc.IH [of "nxt (length t) i" "d + 1"] Suc.prems dst_from_nxt [OF Suc.prems(1) assms(3)] by simp
  qed simp
qed simp

section \<open>Deletion\<close>

text \<open>The cell to be closed holds a stand-in \<open>g\<close> for the proof; copying the next node over it keeps
  the invariant.\<close>

lemma rh_inv_shift:
  assumes inv: "rh_inv home t" and i: "i < length t" "t ! i = Some g" and z: "t ! nxt (length t) i = Some z"
    and away: "home z \<noteq> nxt (length t) i"
  shows "rh_inv home (t[i := Some z])"
proof -
  let ?n = "length t" and ?j = "nxt (length t) i"
  have j: "?j < ?n" using i(1) by simp
  have hz: "home z < ?n" "rh_path home t z ?j" using inv j z by (auto simp: rh_inv_def)
  have sz: "Suc (dst ?n (home z) i) < ?n" using dst_nxt_wrap [OF hz(1) i(1)] away by metis
  note zj = dst_nxt [OF hz(1) i(1) sz]
  show ?thesis
    unfolding rh_inv_def length_list_update
  proof (intro allI impI)
    fix k w assume k: "k < ?n" "t[i := Some z] ! k = Some w"
    show "home w < ?n \<and> rh_path home (t[i := Some z]) w k"
    proof (cases "k = i")
      case True
      then have "w = z" using k i(1) by simp
      moreover have "rh_path home (t[i := Some z]) z i"
        using hz(2) i(1) zj by (auto simp: rh_path_def nth_list_update)
      ultimately show ?thesis using True hz(1) by simp
    next
      case False
      then have w: "t ! k = Some w" using k by simp
      then have hw: "home w < ?n" "rh_path home t w k" using inv k(1) by (auto simp: rh_inv_def)
      have "dst ?n (home w) i \<le> dst ?n (home z) i" if lt: "dst ?n (home w) i < dst ?n (home w) k"
      proof -
        have s: "Suc (dst ?n (home w) i) < ?n" using lt dst_less [OF hw(1) k(1)] by simp
        note wj = dst_nxt [OF hw(1) i(1) s]
        show ?thesis
        proof (cases "k = ?j")
          case True
          then show ?thesis using w z by simp
        next
          case far: False
          then have "dst ?n (home w) ?j < dst ?n (home w) k"
            using wj lt dst_inj [OF hw(1) j k(1)] by linarith
          from rh_pathD [OF hw(2) j this] z wj zj show ?thesis by simp
        qed
      qed
      then have "rh_path home (t[i := Some z]) w k"
        using hw(2) i(1) by (auto simp: rh_path_def nth_list_update)
      with hw(1) show ?thesis by simp
    qed
  qed
qed

text \<open>When the next slot is empty or holds a node at home, nothing probes across the cell.\<close>

lemma rh_inv_clear:
  assumes inv: "rh_inv home t" and i: "i < length t"
    and stop: "\<And>z. t ! nxt (length t) i = Some z \<Longrightarrow> home z = nxt (length t) i"
  shows "rh_inv home (t[i := None])"
  unfolding rh_inv_def length_list_update
proof (intro allI impI)
  let ?n = "length t" and ?j = "nxt (length t) i"
  have j: "?j < ?n" using i by simp
  fix k w assume k: "k < ?n" "t[i := None] ! k = Some w"
  then have ki: "k \<noteq> i" using i by auto
  then have w: "t ! k = Some w" using k by simp
  then have hw: "home w < ?n" "rh_path home t w k" using inv k(1) by (auto simp: rh_inv_def)
  have "\<not> dst ?n (home w) i < dst ?n (home w) k"
  proof
    assume lt: "dst ?n (home w) i < dst ?n (home w) k"
    have s: "Suc (dst ?n (home w) i) < ?n" using lt dst_less [OF hw(1) k(1)] by simp
    note wj = dst_nxt [OF hw(1) i s]
    show False
    proof (cases "k = ?j")
      case True
      then show ?thesis using stop w wj hw(1) dst_self by (metis nat.distinct(1))
    next
      case False
      then have "dst ?n (home w) ?j < dst ?n (home w) k" using wj lt dst_inj [OF hw(1) j k(1)] by linarith
      from rh_pathD [OF hw(2) j this] stop wj show False by auto
    qed
  qed
  then have "rh_path home (t[i := None]) w k" using hw(2) i by (auto simp: rh_path_def nth_list_update)
  with hw(1) show "home w < ?n \<and> rh_path home (t[i := None]) w k" by simp
qed

lemma rh_shift_correct:
  assumes "rh_inv home (t[i := Some g])" "i < length t" "t ! i = None" "e < length t" "t ! e = None" "e \<noteq> i"
    "dst (length t) i e \<le> fuel"
  shows "\<exists>t'. rh_shift fuel home t i = Some t' \<and> length t' = length t \<and> rh_inv home t' \<and> rh_nodes t' = rh_nodes t"
  using assms
proof (induction fuel arbitrary: t i g)
  case 0
  then show ?case using dst_eq_0 [OF 0(2,4)] by simp
next
  case (Suc fuel)
  let ?n = "length t" and ?j = "nxt (length t) i"
  have ji: "?j \<noteq> i" using Suc.prems(2,4,6) by (auto simp: nxt_def split: if_splits)
  have j: "?j < ?n" using Suc.prems(2) by simp
  have upd: "t[i := Some g, i := None] = t" using Suc.prems(3) by (metis list_update_id list_update_overwrite)
  show ?case
  proof (cases "\<exists>y. t ! ?j = Some y \<and> home y \<noteq> ?j")
    case False
    then have "rh_inv home (t[i := Some g, i := None])"
      using Suc.prems(1,2) ji by (intro rh_inv_clear) auto
    moreover have "rh_shift (Suc fuel) home t i = Some t" using False by (auto simp: Let_def split: option.split)
    ultimately show ?thesis using upd by simp
  next
    case True
    then obtain y where y: "t ! ?j = Some y" "home y \<noteq> ?j" by blast
    let ?t = "t[i := Some y, ?j := None]"
    have "rh_inv home (t[i := Some g, i := Some y])"
      using Suc.prems(1,2) y ji by (intro rh_inv_shift [of home "t[i := Some g]" i g y]) auto
    moreover have "?t[?j := Some y] = t[i := Some y]"
      using y(1) ji by (metis list_update_id list_update_overwrite nth_list_update_neq)
    ultimately have inv: "rh_inv home (?t[?j := Some y])" by simp
    have je: "?j \<noteq> e" using y(1) Suc.prems(5) by auto
    have "dst ?n ?j e \<le> fuel" using dst_from_nxt [OF Suc.prems(2,4)] Suc.prems(6,7) by auto
    then have "\<exists>t'. rh_shift fuel home ?t ?j = Some t' \<and> length t' = length ?t \<and> rh_inv home t' \<and> rh_nodes t' = rh_nodes ?t"
      using inv j je Suc.prems(4-6) by (intro Suc.IH) simp_all
    moreover have "rh_nodes ?t = rh_nodes t"
    proof -
      have "rh_nodes (t[i := Some y]) = add_mset y (rh_nodes ?t)" using y(1) ji j by (intro rh_nodes_clear) simp_all
      then show ?thesis using rh_nodes_fill [OF Suc.prems(2,3), of y] by simp
    qed
    ultimately show ?thesis using y by (simp add: Let_def)
  qed
qed


section \<open>Occupancy\<close>

lemma rh_empty_slot:
  assumes "size (rh_nodes t) < length t"
  shows "\<exists>e<length t. t ! e = None"
proof (rule ccontr)
  assume "\<not> ?thesis"
  then have "filter_mset (\<lambda>c. c \<noteq> None) (mset t) = mset t"
    by (auto simp: filter_mset_eq_conv in_set_conv_nth)
  with assms show False by (simp add: rh_nodes_def)
qed

lemma rh_nodes_twice:
  assumes "i < length t" "j < length t" "i \<noteq> j" "t ! i = Some x" "t ! j = Some x"
  shows "2 \<le> count (rh_nodes t) x"
proof -
  have "rh_nodes t = add_mset x (rh_nodes (t[i := None]))" using assms by (intro rh_nodes_clear)
  also have "rh_nodes (t[i := None]) = add_mset x (rh_nodes (t[i := None, j := None]))"
    using assms by (intro rh_nodes_clear) simp_all
  finally show ?thesis by simp
qed

lemma rh_path_home: "home x < length t \<Longrightarrow> rh_path home t x (home x)"
  by (simp add: rh_path_def)

text \<open>Inserting from the home slot, into a table that is not full.\<close>

lemma rh_insert_home:
  assumes "rh_inv home t" "home x < length t" "size (rh_nodes t) < length t" "length t < fuel"
  shows "\<exists>t'. rh_insert fuel home t x (home x) 0 = Some t' \<and> length t' = length t \<and> rh_inv home t' \<and>
           rh_nodes t' = add_mset x (rh_nodes t)"
proof -
  obtain e where e: "e < length t" "t ! e = None" using rh_empty_slot [OF assms(3)] by blast
  have "dst (length t) (home x) e < fuel" using dst_less [OF assms(2) e(1)] assms(4) by simp
  then show ?thesis using rh_insert_correct [of home t "home x" x 0 e fuel] rh_path_home [of home x t] assms(1,2) e by simp
qed

text \<open>Looking up from the home slot \<open>h\<close> of the nodes that match.\<close>

lemma rh_lookup_home:
  assumes "rh_inv home t" "h < length t" "size (rh_nodes t) < length t" "length t < fuel"
    and home: "\<And>y. y \<in># rh_nodes t \<Longrightarrow> match y \<Longrightarrow> home y = h"
    and uniq: "\<And>y z. y \<in># rh_nodes t \<Longrightarrow> z \<in># rh_nodes t \<Longrightarrow> match y \<Longrightarrow> match z \<Longrightarrow> y = z \<and> count (rh_nodes t) y = 1"
  shows "(\<exists>k x. rh_lookup fuel early home match t h 0 = Some (Some k) \<and> k < length t \<and> t ! k = Some x \<and> match x) \<or>
         rh_lookup fuel early home match t h 0 = Some None \<and> (\<forall>y. y \<in># rh_nodes t \<longrightarrow> \<not> match y)"
proof (cases "\<exists>y. y \<in># rh_nodes t \<and> match y")
  case True
  then obtain k x where k: "k < length t" "t ! k = Some x" "match x" by (auto simp: rh_nodes_iff)
  then have x: "x \<in># rh_nodes t" by (auto simp: rh_nodes_iff)
  have u: "j = k" if j: "j < length t" "t ! j = Some y" "match y" for j y
  proof (rule ccontr)
    assume ne: "j \<noteq> k"
    have "y \<in># rh_nodes t" using j by (auto simp: rh_nodes_iff)
    then have "y = x" "count (rh_nodes t) x = 1" using uniq x k(3) j(3) by blast+
    with rh_nodes_twice [OF j(1) k(1) ne, of x] j(2) k(2) show False by simp
  qed
  have hx: "home x = h" using home x k(3) by blast
  have "dst (length t) h k < fuel" using dst_less [OF assms(2) k(1)] assms(4) by simp
  then have "rh_lookup fuel early home match t h 0 = Some (Some k)"
    using hx assms(2) by (intro rh_lookup_found [where x = x] assms(1) k u) simp_all
  with k show ?thesis by blast
next
  case False
  obtain e where e: "e < length t" "t ! e = None" using rh_empty_slot [OF assms(3)] by blast
  have "dst (length t) h e < fuel" using dst_less [OF assms(2) e(1)] assms(4) by simp
  then have "rh_lookup fuel early home match t h 0 = Some None"
    using False assms(2) e by (intro rh_lookup_missing) (auto simp: rh_nodes_iff)
  with False show ?thesis by blast
qed

text \<open>Deleting the node of a slot.\<close>

lemma rh_delete:
  assumes "rh_inv home t" "i < length t" "t ! i = Some x" "size (rh_nodes t) < length t" "length t \<le> fuel"
  shows "\<exists>t'. rh_shift fuel home (t[i := None]) i = Some t' \<and> length t' = length t \<and> rh_inv home t' \<and>
           add_mset x (rh_nodes t') = rh_nodes t"
proof -
  obtain e where e: "e < length t" "t ! e = None" using rh_empty_slot [OF assms(4)] by blast
  have "t[i := None, i := Some x] = t" using assms(3) by (metis list_update_id list_update_overwrite)
  moreover have "e \<noteq> i" using e assms(3) by auto
  moreover have "dst (length t) i e \<le> fuel" using dst_less [OF assms(2) e(1)] assms(5) by simp
  ultimately show ?thesis
    using rh_shift_correct [of home "t[i := None]" i x e fuel] assms(1,2) e rh_nodes_clear [OF assms(2,3)] by auto
qed

section \<open>Masks\<close>

text \<open>Both tables have a power of two as capacity and reduce slots with a mask.\<close>

lemma unat_and_mask:
  assumes "unat c = 2 ^ k"
  shows "unat (x AND (c - 1) :: u64) = unat x mod unat c"
proof -
  have "(2::nat) ^ k < 2 ^ 64" using unsigned_less [of c, where ?'a = nat] assms by simp
  then have k: "k < 64" by (rule power_less_imp_less_exp [rotated]) simp
  have "c = 2 ^ k" using assms unat_exp_u64 [OF k] by (simp add: word_eq_unat [THEN iffD2])
  then have "x AND (c - 1) = take_bit k x" by (simp add: take_bit_eq_mask mask_eq_exp_minus_1)
  then show ?thesis using assms by (simp add: unsigned_take_bit_eq take_bit_nat_def)
qed

lemma mask_next:
  assumes "unat c = 2 ^ k" "k < 63" "unat (i :: u64) < unat c"
  shows "unat ((i + 1) AND (c - 1)) = nxt (unat c) (unat i)"
proof -
  have "(2::nat) ^ k < 2 ^ 63" using assms(2) by (intro power_strict_increasing) auto
  then have "unat (i + 1) = unat i + unat (1::u64)" using assms by (intro unat_add_no_wrap) simp
  then show ?thesis using assms(3) nxt_mod [of "unat i" "unat c"] by (simp add: unat_and_mask [OF assms(1)])
qed

lemma mask_offset:
  assumes "unat c = 2 ^ k" "k < 63" "unat (i :: u64) < unat c"
  shows "unat ((i + c - (h AND (c - 1))) AND (c - 1)) = dst (unat c) (unat h mod unat c) (unat i)"
proof -
  have "(2::nat) ^ k < 2 ^ 63" using assms(2) by (intro power_strict_increasing) auto
  then have ic: "unat (i + c) = unat i + unat c" using assms by (intro unat_add_no_wrap) simp
  have h: "unat (h AND (c - 1)) < unat c" using assms(1) by (simp add: unat_and_mask [OF assms(1)])
  then have "unat (i + c - (h AND (c - 1))) = unat i + unat c - unat (h AND (c - 1))"
    using ic by (simp add: unat_sub_no_wrap)
  then show ?thesis using assms(3) h dst_mod [of "unat h mod unat c" "unat c" "unat i"]
    by (simp add: unat_and_mask [OF assms(1)])
qed

section \<open>The interface of a table\<close>

datatype ('k, 'v) table_op = T_insert 'k 'v | T_erase 'k | T_find 'k

datatype 'v table_result = Found "'v option" | Erased bool

text \<open>A run of operations on a table, with the results of its lookups and erasures.\<close>

fun table_run :: "('k \<Rightarrow> 's \<Rightarrow> 'v option res) \<Rightarrow> ('k \<Rightarrow> 'v \<Rightarrow> 's \<Rightarrow> 's res) \<Rightarrow> ('k \<Rightarrow> 's \<Rightarrow> (bool \<times> 's) res)
    \<Rightarrow> ('k, 'v) table_op list \<Rightarrow> 's \<Rightarrow> ('v table_result list \<times> 's) res" where
  "table_run look ins del [] s = Inr ([], s)"
| "table_run look ins del (T_insert k v # ops) s = bindE (ins k v s) (table_run look ins del ops)"
| "table_run look ins del (T_erase k # ops) s =
     bindE (del k s) (\<lambda>(b, s). bindE (table_run look ins del ops s) (\<lambda>(rs, s). Inr (Erased b # rs, s)))"
| "table_run look ins del (T_find k # ops) s =
     bindE (look k s) (\<lambda>r. bindE (table_run look ins del ops s) (\<lambda>(rs, s). Inr (Found r # rs, s)))"

fun table_spec :: "('k, 'v) table_op list \<Rightarrow> ('k \<rightharpoonup> 'v) \<Rightarrow> 'v table_result list \<times> ('k \<rightharpoonup> 'v)" where
  "table_spec [] f = ([], f)"
| "table_spec (T_insert k v # ops) f = table_spec ops (f(k \<mapsto> v))"
| "table_spec (T_erase k # ops) f = (case table_spec ops (f(k := None)) of (rs, f') \<Rightarrow> (Erased (f k \<noteq> None) # rs, f'))"
| "table_spec (T_find k # ops) f = (case table_spec ops f of (rs, f') \<Rightarrow> (Found (f k) # rs, f'))"

text \<open>Every key that is inserted is one that may be used and that is not in the table at that time.\<close>

fun table_fresh :: "('k \<Rightarrow> bool) \<Rightarrow> ('k, 'v) table_op list \<Rightarrow> ('k \<rightharpoonup> 'v) \<Rightarrow> bool" where
  "table_fresh ok [] f \<longleftrightarrow> True"
| "table_fresh ok (T_insert k v # ops) f \<longleftrightarrow> f k = None \<and> ok k \<and> table_fresh ok ops (f(k \<mapsto> v))"
| "table_fresh ok (T_erase k # ops) f \<longleftrightarrow> table_fresh ok ops (f(k := None))"
| "table_fresh ok (T_find k # ops) f \<longleftrightarrow> table_fresh ok ops f"

locale assoc_table =
  fixes rep :: "'s \<Rightarrow> ('k \<rightharpoonup> 'v) \<Rightarrow> bool" and look :: "'k \<Rightarrow> 's \<Rightarrow> 'v option res"
    and ins :: "'k \<Rightarrow> 'v \<Rightarrow> 's \<Rightarrow> 's res" and del :: "'k \<Rightarrow> 's \<Rightarrow> (bool \<times> 's) res"
    and key_ok :: "'k \<Rightarrow> bool" and room :: nat
  assumes find_law: "rep s f \<Longrightarrow> look k s = Inr (f k)"
    and ins_law: "rep s f \<Longrightarrow> f k = None \<Longrightarrow> key_ok k \<Longrightarrow> card (dom f) < room \<Longrightarrow> \<exists>s'. ins k v s = Inr s' \<and> rep s' (f(k \<mapsto> v))"
    and del_law: "rep s f \<Longrightarrow> \<exists>s'. del k s = Inr (f k \<noteq> None, s') \<and> rep s' (f(k := None))"
    and rep_finite: "rep s f \<Longrightarrow> finite (dom f)"
begin

lemma run_refines:
  assumes "rep s f" "card (dom f) + length ops \<le> room" "table_fresh key_ok ops f"
  shows "\<exists>s'. table_run look ins del ops s = Inr (fst (table_spec ops f), s') \<and> rep s' (snd (table_spec ops f))"
  using assms
proof (induction ops arbitrary: s f)
  case (Cons op ops)
  show ?case
  proof (cases op)
    case (T_insert k v)
    obtain s' where s': "ins k v s = Inr s'" "rep s' (f(k \<mapsto> v))"
      using ins_law [OF Cons.prems(1), of k v] Cons.prems(2,3) T_insert by auto
    have "card (dom (f(k \<mapsto> v))) \<le> Suc (card (dom f))" by (simp add: card_insert_if rep_finite [OF Cons.prems(1)])
    then have "card (dom (f(k \<mapsto> v))) + length ops \<le> room" using Cons.prems(2) by simp
    from Cons.IH [OF s'(2) this] show ?thesis using Cons.prems(3) T_insert s'(1) by (simp del: fun_upd_apply)
  next
    case (T_erase k)
    obtain s' where s': "del k s = Inr (f k \<noteq> None, s')" "rep s' (f(k := None))" using del_law [OF Cons.prems(1)] by blast
    have "card (dom (f(k := None))) \<le> card (dom f)" using rep_finite [OF Cons.prems(1)] by (auto intro: card_mono)
    then have "card (dom (f(k := None))) + length ops \<le> room" using Cons.prems(2) by simp
    from Cons.IH [OF s'(2) this] show ?thesis using Cons.prems(3) T_erase s'(1) by (auto simp del: fun_upd_apply split: prod.splits)
  next
    case (T_find k)
    then show ?thesis
      using Cons.IH [OF Cons.prems(1)] Cons.prems(2,3) find_law [OF Cons.prems(1), of k] by (auto split: prod.splits)
  qed
qed simp

end

end
