(* ===== verification/Hash_Map.thy ===== *)
theory Hash_Map
  imports Robin_Hood Util_Basics
begin

text \<open>
  The hash maps \<open>util::base_map\<close> and \<open>util::map\<close> of
  \<open>src/src/libraries/util/include/util/map.h\<close>. The functions take the hash function of the key
  type (\<open>util::hash\<close>, theory \<open>Util_Basics\<close>) as an argument. A cell of the table is \<open>None\<close> when
  its hash field is zero, which is how the source marks an unused node. The loops over the slots
  run on fuel: one more than the capacity is enough, and \<open>bm_rep\<close> relates a map to the finite
  map it stands for.
\<close>

unbundle bit_operations_syntax

section \<open>State\<close>

record ('k, 'v) hash_node =
  hn_h :: u64
  hn_key :: 'k
  hn_val :: 'v

record ('k, 'v) base_map =
  bm_count :: u64
  bm_capacity :: u64
  bm_nodes :: "('k, 'v) hash_node table"

definition bm_min_capacity :: u64 where "bm_min_capacity = 8"
definition bm_max_load :: u64 where "bm_max_load = 90"

section \<open>Operations\<close>

text \<open>\<open>equal<const char *>\<close>: a string is the bytes before its terminator, a null pointer \<open>None\<close>.\<close>

fun equal_chars :: "u8 list \<Rightarrow> u8 list \<Rightarrow> bool" where
  "equal_chars (a # as) (b # bs) = (if a \<noteq> b then False else equal_chars as bs)"
| "equal_chars [] bs = (bs = [])"
| "equal_chars as [] = (as = [])"

definition equal_cstr :: "u8 list option \<Rightarrow> u8 list option \<Rightarrow> bool" where
  "equal_cstr a b = (case (a, b) of (Some as, Some bs) \<Rightarrow> equal_chars as bs | _ \<Rightarrow> a = b)"

definition bm_threshold :: "('k, 'v) base_map \<Rightarrow> u64" where
  "bm_threshold m = (bm_capacity m * bm_max_load) div 100"

definition bm_mod :: "('k, 'v) base_map \<Rightarrow> u64 \<Rightarrow> u64" where
  "bm_mod m i = i AND (bm_capacity m - 1)"

definition bm_offset :: "('k, 'v) base_map \<Rightarrow> u64 \<Rightarrow> u64 \<Rightarrow> u64" where
  "bm_offset m h i = bm_mod m (i + bm_capacity m - bm_mod m h)"

definition bm_construct :: "u64 \<Rightarrow> ('k, 'v) hash_node \<Rightarrow> ('k, 'v) base_map \<Rightarrow> ('k, 'v) base_map res" where
  "bm_construct i x m = bindE (array_set (bm_nodes m) (unat i) (Some x)) (\<lambda>t. Inr (m\<lparr>bm_nodes := t\<rparr>))"

fun bm_insert_loop :: "nat \<Rightarrow> ('k, 'v) base_map \<Rightarrow> ('k, 'v) hash_node \<Rightarrow> u64 \<Rightarrow> u64 \<Rightarrow> ('k, 'v) base_map res" where
  "bm_insert_loop 0 m x i dist = Inl Diverges"
| "bm_insert_loop (Suc fuel) m x i dist =
     bindE (array_get (bm_nodes m) (unat i)) (\<lambda>c.
     case c of
       None \<Rightarrow> bm_construct i x m
     | Some elem \<Rightarrow>
         let elem_dist = bm_offset m (hn_h elem) i in
         if elem_dist < dist
         then bindE (bm_construct i x m) (\<lambda>m. bm_insert_loop fuel m elem (bm_mod m (i + 1)) (elem_dist + 1))
         else bm_insert_loop fuel m x (bm_mod m (i + 1)) (dist + 1))"

definition bm_fuel :: "('k, 'v) base_map \<Rightarrow> nat" where
  "bm_fuel m = Suc (unat (bm_capacity m))"

definition bm_insert_node :: "u64 \<Rightarrow> 'k \<Rightarrow> 'v \<Rightarrow> ('k, 'v) base_map \<Rightarrow> ('k, 'v) base_map res" where
  "bm_insert_node h k v m =
     bindE (guardE Assert_failed (h \<noteq> 0)) (\<lambda>_.
     bm_insert_loop (bm_fuel m) m \<lparr>hn_h = h, hn_key = k, hn_val = v\<rparr> (bm_mod m h) 0)"

definition bm_set_capacity :: "u64 \<Rightarrow> ('k, 'v) base_map \<Rightarrow> ('k, 'v) base_map res" where
  "bm_set_capacity capacity m =
     bindE (guardE Assert_failed (capacity AND (capacity - 1) = 0)) (\<lambda>_.
     Inr (m\<lparr>bm_capacity := capacity, bm_nodes := replicate (unat capacity) None\<rparr>))"

text \<open>The loop of \<open>grow\<close> over the old nodes.\<close>

fun bm_reinsert :: "('k, 'v) hash_node table \<Rightarrow> ('k, 'v) base_map \<Rightarrow> ('k, 'v) base_map res" where
  "bm_reinsert [] m = Inr m"
| "bm_reinsert (None # old) m = bm_reinsert old m"
| "bm_reinsert (Some n # old) m = bindE (bm_insert_node (hn_h n) (hn_key n) (hn_val n) m) (bm_reinsert old)"

definition bm_grow :: "('k, 'v) base_map \<Rightarrow> ('k, 'v) base_map res" where
  "bm_grow m =
     (let old = bm_nodes m;
          cap = bm_capacity m * 2;
          cap = (if cap < bm_min_capacity then bm_min_capacity else cap)
      in bindE (bm_set_capacity cap m) (bm_reinsert old))"

definition bm_new :: "u64 \<Rightarrow> ('k, 'v) base_map res" where
  "bm_new capacity =
     (let m = \<lparr>bm_count = 0, bm_capacity = 0, bm_nodes = []\<rparr> in
      if capacity \<noteq> 0 then bindE (shl64 1 (log2 capacity)) (\<lambda>c. bm_set_capacity c m) else Inr m)"

definition bm_insert :: "('k \<Rightarrow> u64) \<Rightarrow> 'k \<Rightarrow> 'v \<Rightarrow> ('k, 'v) base_map \<Rightarrow> ('k, 'v) base_map res" where
  "bm_insert hash k v m =
     (let m = m\<lparr>bm_count := bm_count m + 1\<rparr> in
      bindE (if bm_threshold m < bm_count m then bm_grow m else Inr m) (\<lambda>m.
      bm_insert_node (hash k) k v m))"

fun bm_lookup_loop :: "nat \<Rightarrow> ('k, 'v) base_map \<Rightarrow> u64 \<Rightarrow> 'k \<Rightarrow> u64 \<Rightarrow> u64 \<Rightarrow> u64 option res" where
  "bm_lookup_loop 0 m h k i dist = Inl Diverges"
| "bm_lookup_loop (Suc fuel) m h k i dist =
     bindE (array_get (bm_nodes m) (unat i)) (\<lambda>c.
     case c of
       None \<Rightarrow> Inr None
     | Some n \<Rightarrow>
         if bm_offset m (hn_h n) i < dist then Inr None
         else if hn_h n = h \<and> hn_key n = k then Inr (Some i)
         else bm_lookup_loop fuel m h k (bm_mod m (i + 1)) (dist + 1))"

definition bm_lookup :: "('k \<Rightarrow> u64) \<Rightarrow> 'k \<Rightarrow> ('k, 'v) base_map \<Rightarrow> u64 option res" where
  "bm_lookup hash k m =
     (if bm_count m = 0 then Inr None
      else bm_lookup_loop (bm_fuel m) m (hash k) k (bm_mod m (hash k)) 0)"

definition map_find :: "('k \<Rightarrow> u64) \<Rightarrow> 'k \<Rightarrow> ('k, 'v) base_map \<Rightarrow> 'v option res" where
  "map_find hash k m =
     bindE (bm_lookup hash k m) (\<lambda>r. case r of
        None \<Rightarrow> Inr None
      | Some i \<Rightarrow> bindE (array_get (bm_nodes m) (unat i)) (\<lambda>c. Inr (map_option hn_val c)))"

fun bm_erase_loop :: "nat \<Rightarrow> ('k, 'v) base_map \<Rightarrow> u64 \<Rightarrow> ('k, 'v) base_map res" where
  "bm_erase_loop 0 m i = Inl Diverges"
| "bm_erase_loop (Suc fuel) m i =
     (let next = bm_mod m (i + 1) in
      bindE (array_get (bm_nodes m) (unat next)) (\<lambda>c.
      case c of
        None \<Rightarrow> Inr m
      | Some n \<Rightarrow>
          if bm_mod m (hn_h n) = next then Inr m
          else
            bindE (bm_construct i n m) (\<lambda>m.
            bindE (array_set (bm_nodes m) (unat next) None) (\<lambda>t.
            bm_erase_loop fuel (m\<lparr>bm_nodes := t\<rparr>) (bm_mod m (i + 1))))))"

definition bm_erase_node :: "u64 \<Rightarrow> ('k, 'v) base_map \<Rightarrow> ('k, 'v) base_map res" where
  "bm_erase_node i m =
     bindE (array_set (bm_nodes m) (unat i) None) (\<lambda>t.
     let m = m\<lparr>bm_nodes := t, bm_count := bm_count m - 1\<rparr> in
     bm_erase_loop (bm_fuel m) m i)"

definition bm_erase :: "('k \<Rightarrow> u64) \<Rightarrow> 'k \<Rightarrow> ('k, 'v) base_map \<Rightarrow> (bool \<times> ('k, 'v) base_map) res" where
  "bm_erase hash k m =
     bindE (bm_lookup hash k m) (\<lambda>r. case r of
        None \<Rightarrow> Inr (False, m)
      | Some i \<Rightarrow> bindE (bm_erase_node i m) (\<lambda>m. Inr (True, m)))"

text \<open>An iterator is an index; the one before the first node is \<open>- 1\<close>.\<close>

function bm_incr :: "('k, 'v) base_map \<Rightarrow> int \<Rightarrow> int res" where
  "bm_incr m node =
     (if node < int (unat (bm_capacity m))
      then (case array_get (bm_nodes m) (nat (node + 1)) of
              Inl e \<Rightarrow> Inl e
            | Inr (Some _) \<Rightarrow> Inr (node + 1)
            | Inr None \<Rightarrow> bm_incr m (node + 1))
      else Inr node)"
  by auto
termination by (relation "measure (\<lambda>(m, node). nat (int (unat (bm_capacity m)) - node))") auto

declare bm_incr.simps [simp del]

definition bm_begin :: "('k, 'v) base_map \<Rightarrow> int option res" where
  "bm_begin m = (if bm_count m = 0 then Inr None else bindE (bm_incr m (- 1)) (\<lambda>i. Inr (Some i)))"

definition bm_end :: "('k, 'v) base_map \<Rightarrow> int option" where
  "bm_end m = (if bm_count m = 0 then None else Some (int (unat (bm_capacity m))))"


section \<open>The loops against the algorithm\<close>

lemma equal_cstr_iff: "equal_cstr a b \<longleftrightarrow> a = b"
proof -
  have "equal_chars as bs \<longleftrightarrow> as = bs" for as bs by (induction as bs rule: equal_chars.induct) auto
  then show ?thesis by (auto simp: equal_cstr_def split: option.splits)
qed

definition bm_home :: "nat \<Rightarrow> ('k, 'v) hash_node \<Rightarrow> nat" where
  "bm_home n x = unat (hn_h x) mod n"

definition bm_shape :: "('k, 'v) base_map \<Rightarrow> bool" where
  "bm_shape m \<longleftrightarrow> (\<exists>k\<le>56. unat (bm_capacity m) = 2 ^ k) \<and> length (bm_nodes m) = unat (bm_capacity m)"

lemma bm_shapeE:
  assumes "bm_shape m"
  obtains k where "k \<le> 56" "unat (bm_capacity m) = 2 ^ k" "length (bm_nodes m) = 2 ^ k" "k < 63" "(2::nat) ^ k \<le> 2 ^ 56"
proof -
  obtain k where k: "k \<le> 56" "unat (bm_capacity m) = 2 ^ k" "length (bm_nodes m) = 2 ^ k"
    using assms by (auto simp: bm_shape_def)
  have "(2::nat) ^ k \<le> 2 ^ 56" using k(1) by (intro power_increasing) auto
  with k that show ?thesis by simp
qed

lemma bm_shape_facts:
  assumes "bm_shape m" "unat i < unat (bm_capacity m)"
  shows "unat (bm_mod m (i + 1)) = nxt (unat (bm_capacity m)) (unat i)"
    "unat (bm_offset m (hn_h x) i) = dst (unat (bm_capacity m)) (bm_home (unat (bm_capacity m)) x) (unat i)"
    "unat (bm_mod m (i + 1)) < unat (bm_capacity m)"
proof -
  obtain k where k: "unat (bm_capacity m) = 2 ^ k" "k < 63" using bm_shapeE [OF assms(1)] by metis
  show a: "unat (bm_mod m (i + 1)) = nxt (unat (bm_capacity m)) (unat i)"
    unfolding bm_mod_def by (rule mask_next [OF k assms(2)])
  show "unat (bm_offset m (hn_h x) i) = dst (unat (bm_capacity m)) (bm_home (unat (bm_capacity m)) x) (unat i)"
    unfolding bm_offset_def bm_mod_def bm_home_def by (rule mask_offset [OF k assms(2)])
  show "unat (bm_mod m (i + 1)) < unat (bm_capacity m)" using a assms(2) by simp
qed

lemma bm_mod_home: "bm_shape m \<Longrightarrow> unat (bm_mod m (hn_h x)) = bm_home (unat (bm_capacity m)) x"
  by (erule bm_shapeE) (simp add: bm_mod_def bm_home_def unat_and_mask)

lemma bm_home_less: "bm_shape m \<Longrightarrow> bm_home (unat (bm_capacity m)) x < unat (bm_capacity m)"
  by (erule bm_shapeE) (simp add: bm_home_def)

lemma bm_shape_update [simp]:
  "bm_shape (m\<lparr>bm_nodes := t\<rparr>) \<longleftrightarrow> (\<exists>k\<le>56. unat (bm_capacity m) = 2 ^ k) \<and> length t = unat (bm_capacity m)"
  "bm_shape (m\<lparr>bm_count := c\<rparr>) = bm_shape m"
  by (simp_all add: bm_shape_def)

lemma bm_insert_loop_rh:
  assumes "bm_shape m" "unat i < unat (bm_capacity m)" "unat d + fuel < 2 ^ 63"
  shows "bm_insert_loop fuel m x i d =
     (case rh_insert fuel (bm_home (unat (bm_capacity m))) (bm_nodes m) x (unat i) (unat d) of
        None \<Rightarrow> Inl Diverges | Some t \<Rightarrow> Inr (m\<lparr>bm_nodes := t\<rparr>))"
  using assms
proof (induction fuel arbitrary: m x i d)
  case (Suc fuel)
  let ?n = "unat (bm_capacity m)"
  have len: "length (bm_nodes m) = ?n" using Suc.prems(1) by (simp add: bm_shape_def)
  note F = bm_shape_facts [OF Suc.prems(1,2)]
  show ?case
  proof (cases "bm_nodes m ! unat i")
    case None
    then show ?thesis using Suc.prems(2) len by (simp add: bm_construct_def)
  next
    case (Some y)
    let ?p = "bm_offset m (hn_h y) i"
    have p1: "unat (?p + 1) = unat ?p + 1" if "?p < d"
      using that Suc.prems(3) by (simp add: word_less_nat_alt unat_add_no_wrap)
    have d1: "unat (d + 1) = unat d + 1" using Suc.prems(3) by (simp add: unat_add_no_wrap)
    show ?thesis
    proof (cases "?p < d")
      case True
      let ?m = "m\<lparr>bm_nodes := (bm_nodes m)[unat i := Some x]\<rparr>"
      have "bm_insert_loop fuel ?m y (bm_mod ?m (i + 1)) (?p + 1) =
        (case rh_insert fuel (bm_home ?n) (bm_nodes ?m) y (nxt ?n (unat i)) (unat ?p + 1) of
           None \<Rightarrow> Inl Diverges | Some t \<Rightarrow> Inr (?m\<lparr>bm_nodes := t\<rparr>))"
        using Suc.IH [of ?m "bm_mod m (i + 1)" "?p + 1" y] Suc.prems(1,3) F(1,3) p1 [OF True] True len
        by (simp add: bm_mod_def word_less_nat_alt bm_shape_def)
      then show ?thesis using Some True Suc.prems(2) len F(2) [of y]
        by (simp add: bm_construct_def Let_def word_less_nat_alt split: option.split)
    next
      case False
      then have "bm_insert_loop fuel m x (bm_mod m (i + 1)) (d + 1) =
        (case rh_insert fuel (bm_home ?n) (bm_nodes m) x (nxt ?n (unat i)) (unat d + 1) of
           None \<Rightarrow> Inl Diverges | Some t \<Rightarrow> Inr (m\<lparr>bm_nodes := t\<rparr>))"
        using Suc.IH [OF Suc.prems(1) F(3), of "d + 1" x] Suc.prems(3) F(1) d1 by simp
      then show ?thesis using Some False Suc.prems(2) len F(2) [of y] by (simp add: Let_def word_less_nat_alt)
    qed
  qed
qed simp

lemma bm_lookup_loop_rh:
  assumes "bm_shape m" "unat i < unat (bm_capacity m)" "unat d + fuel < 2 ^ 63"
  shows "map_sum id (map_option unat) (bm_lookup_loop fuel m h k i d) =
     (case rh_lookup fuel False (bm_home (unat (bm_capacity m))) (\<lambda>n. hn_h n = h \<and> hn_key n = k) (bm_nodes m) (unat i) (unat d) of
        None \<Rightarrow> Inl Diverges | Some r \<Rightarrow> Inr r)"
  using assms(2,3)
proof (induction fuel arbitrary: i d)
  case (Suc fuel)
  have len: "length (bm_nodes m) = unat (bm_capacity m)" using assms(1) by (simp add: bm_shape_def)
  note F = bm_shape_facts [OF assms(1) Suc.prems(1)]
  have d1: "unat (d + 1) = unat d + 1" using Suc.prems(2) by (simp add: unat_add_no_wrap)
  show ?case
  proof (cases "bm_nodes m ! unat i")
    case None
    then show ?thesis using Suc.prems len by simp
  next
    case (Some y)
    then show ?thesis using Suc.IH [OF F(3), of "d + 1"] Suc.prems F(1) F(2) [of y] d1 len
      by (simp add: word_less_nat_alt)
  qed
qed simp

lemma bm_erase_loop_rh:
  assumes "bm_shape m" "unat i < unat (bm_capacity m)"
  shows "bm_erase_loop fuel m i =
     (case rh_shift fuel (bm_home (unat (bm_capacity m))) (bm_nodes m) (unat i) of
        None \<Rightarrow> Inl Diverges | Some t \<Rightarrow> Inr (m\<lparr>bm_nodes := t\<rparr>))"
  using assms
proof (induction fuel arbitrary: m i)
  case (Suc fuel)
  let ?n = "unat (bm_capacity m)" and ?j = "bm_mod m (i + 1)"
  have len: "length (bm_nodes m) = ?n" using Suc.prems(1) by (simp add: bm_shape_def)
  note F = bm_shape_facts [OF Suc.prems]
  show ?case
  proof (cases "bm_nodes m ! nxt ?n (unat i)")
    case None
    then show ?thesis using F(1,3) len Suc.prems(2) by (simp add: Let_def)
  next
    case (Some y)
    have "bm_mod m (hn_h y) = ?j \<longleftrightarrow> bm_home ?n y = nxt ?n (unat i)"
      using bm_mod_home [OF Suc.prems(1)] F(1) by (metis word_eq_unat)
    moreover let ?m = "m\<lparr>bm_nodes := (bm_nodes m)[unat i := Some y, nxt ?n (unat i) := None]\<rparr>"
    have "bm_erase_loop fuel ?m ?j =
       (case rh_shift fuel (bm_home ?n) (bm_nodes ?m) (unat ?j) of None \<Rightarrow> Inl Diverges | Some t \<Rightarrow> Inr (?m\<lparr>bm_nodes := t\<rparr>))"
      using Suc.IH [of ?m ?j] Suc.prems(1) F(3) len by (simp add: bm_shape_def)
    ultimately show ?thesis using Some F(1,3) len Suc.prems(2)
      by (simp add: Let_def bm_construct_def bm_mod_def split: option.split)
  qed
qed simp


section \<open>Representation\<close>

definition bm_node_of :: "('k \<Rightarrow> u64) \<Rightarrow> ('k \<rightharpoonup> 'v) \<Rightarrow> 'k \<Rightarrow> ('k, 'v) hash_node" where
  "bm_node_of hash f k = \<lparr>hn_h = hash k, hn_key = k, hn_val = the (f k)\<rparr>"

definition bm_rep :: "('k \<Rightarrow> u64) \<Rightarrow> ('k, 'v) base_map \<Rightarrow> ('k \<rightharpoonup> 'v) \<Rightarrow> bool" where
  "bm_rep hash m f \<longleftrightarrow>
     finite (dom f) \<and> unat (bm_count m) = card (dom f) \<and> (\<forall>k\<in>dom f. hash k \<noteq> 0) \<and>
     (if bm_capacity m = 0 then bm_nodes m = [] \<and> dom f = {}
      else bm_shape m \<and> rh_inv (bm_home (unat (bm_capacity m))) (bm_nodes m) \<and>
        unat (bm_count m) \<le> unat (bm_capacity m) * 90 div 100 \<and>
        rh_nodes (bm_nodes m) = mset_set (bm_node_of hash f ` dom f))"

lemma bm_repD:
  assumes "bm_rep hash m f" "bm_capacity m \<noteq> 0"
  shows "finite (dom f)" "unat (bm_count m) = card (dom f)" "\<And>k. k \<in> dom f \<Longrightarrow> hash k \<noteq> 0" "bm_shape m"
    "rh_inv (bm_home (unat (bm_capacity m))) (bm_nodes m)" "unat (bm_count m) \<le> unat (bm_capacity m) * 90 div 100"
    "rh_nodes (bm_nodes m) = mset_set (bm_node_of hash f ` dom f)"
    "length (bm_nodes m) = unat (bm_capacity m)"
  using assms by (auto simp: bm_rep_def bm_shape_def)

lemma bm_node_of_inj: "inj_on (bm_node_of hash f) A"
  by (auto simp: inj_on_def bm_node_of_def)

lemma load_less: "0 < n \<Longrightarrow> n * 90 div 100 < (n::nat)"
  by simp

lemma bm_rep_room:
  assumes "bm_rep hash m f" "bm_capacity m \<noteq> 0"
  shows "size (rh_nodes (bm_nodes m)) < length (bm_nodes m)" "card (dom f) < length (bm_nodes m)"
proof -
  note D = bm_repD [OF assms]
  have "0 < unat (bm_capacity m)" using assms(2) by (simp add: word_gt_0 unat_gt_0)
  from load_less [OF this] show "card (dom f) < length (bm_nodes m)" using D(2,6,8) by simp
  then show "size (rh_nodes (bm_nodes m)) < length (bm_nodes m)" using D(7) by (simp add: card_image bm_node_of_inj)
qed

lemma bm_lookup_rep:
  assumes r: "bm_rep hash m f"
  shows "if k \<in> dom f then (\<exists>i. bm_lookup hash k m = Inr (Some i) \<and> unat i < length (bm_nodes m) \<and>
             bm_nodes m ! unat i = Some (bm_node_of hash f k))
         else bm_lookup hash k m = Inr None"
proof (cases "bm_count m = 0")
  case True
  then have "dom f = {}" using r by (auto simp: bm_rep_def)
  then show ?thesis using True by (auto simp: bm_lookup_def)
next
  case False
  then have c: "bm_capacity m \<noteq> 0" using r by (auto simp: bm_rep_def)
  note D = bm_repD [OF r c]
  let ?n = "unat (bm_capacity m)" and ?match = "\<lambda>n. hn_h n = hash k \<and> hn_key n = k"
  let ?x = "bm_node_of hash f k" and ?M = "rh_nodes (bm_nodes m)"
  obtain e where e: "(2::nat) ^ e \<le> 2 ^ 56" "?n = 2 ^ e" using bm_shapeE [OF D(4)] by metis
  have fuel: "length (bm_nodes m) < bm_fuel m" "unat (0::u64) + bm_fuel m < 2 ^ 63" using D(8) e by (simp_all add: bm_fuel_def)
  have h: "unat (bm_mod m (hash k)) = bm_home ?n ?x" using bm_mod_home [OF D(4), of ?x] by (simp add: bm_node_of_def)
  have hl: "bm_home ?n ?x < ?n" by (rule bm_home_less [OF D(4)])
  have mem: "y \<in># ?M \<longleftrightarrow> (\<exists>j\<in>dom f. y = bm_node_of hash f j)" for y using D(1,7) by auto
  have match: "y = ?x" if "y \<in># ?M" "?match y" for y using that by (auto simp: mem bm_node_of_def)
  have cnt: "count ?M y = 1" if "y \<in># ?M" for y
    using that D(1) unfolding D(7) by simp
  have l: "map_sum id (map_option unat) (bm_lookup hash k m) =
     (case rh_lookup (bm_fuel m) False (bm_home ?n) ?match (bm_nodes m) (bm_home ?n ?x) 0 of
        None \<Rightarrow> Inl Diverges | Some r \<Rightarrow> Inr r)"
    using bm_lookup_loop_rh [OF D(4) _ fuel(2), of "bm_mod m (hash k)" "hash k" k] h hl False by (simp add: bm_lookup_def)
  have "(\<exists>j x. rh_lookup (bm_fuel m) False (bm_home ?n) ?match (bm_nodes m) (bm_home ?n ?x) 0 = Some (Some j) \<and>
            j < length (bm_nodes m) \<and> bm_nodes m ! j = Some x \<and> ?match x) \<or>
        rh_lookup (bm_fuel m) False (bm_home ?n) ?match (bm_nodes m) (bm_home ?n ?x) 0 = Some None \<and>
            (\<forall>y. y \<in># ?M \<longrightarrow> \<not> ?match y)"
  proof (rule rh_lookup_home [OF D(5) _ bm_rep_room(1) [OF r c] fuel(1)])
    show "bm_home ?n ?x < length (bm_nodes m)" using hl D(8) by simp
    show "bm_home ?n y = bm_home ?n ?x" if "y \<in># ?M" "?match y" for y using match [OF that] by simp
    show "y = z \<and> count ?M y = 1" if "y \<in># ?M" "z \<in># ?M" "?match y" "?match z" for y z
      using match [OF that(1,3)] match [OF that(2,4)] cnt [OF that(1)] by simp
  qed
  then show ?thesis
  proof (elim disjE exE conjE)
    fix j x assume j: "rh_lookup (bm_fuel m) False (bm_home ?n) ?match (bm_nodes m) (bm_home ?n ?x) 0 = Some (Some j)"
      "j < length (bm_nodes m)" "bm_nodes m ! j = Some x" "hn_h x = hash k" "hn_key x = k"
    then have "x \<in># ?M" by (auto simp: rh_nodes_iff)
    then have x: "x = ?x" "k \<in> dom f" using match j(4,5) by (auto simp: mem bm_node_of_def)
    from l j(1) obtain i where "bm_lookup hash k m = Inr (Some i)" "unat i = j" by (auto simp: map_sum_Inr_iff)
    with x j show ?thesis by auto
  next
    assume j: "rh_lookup (bm_fuel m) False (bm_home ?n) ?match (bm_nodes m) (bm_home ?n ?x) 0 = Some None"
      "\<forall>y. y \<in># ?M \<longrightarrow> \<not> ?match y"
    have "k \<notin> dom f"
    proof
      assume "k \<in> dom f"
      then have "?x \<in># ?M" by (auto simp: mem)
      with j(2) show False by (auto simp: bm_node_of_def)
    qed
    with l j(1) show ?thesis by (auto simp: map_sum_Inr_iff)
  qed
qed

lemma map_find_rep:
  assumes r: "bm_rep hash m f"
  shows "map_find hash k m = Inr (f k)"
proof (cases "k \<in> dom f")
  case True
  then show ?thesis using bm_lookup_rep [OF r, of k] by (auto simp: map_find_def bm_node_of_def)
next
  case False
  then have "f k = None" by (simp add: domIff)
  with False show ?thesis using bm_lookup_rep [OF r, of k] by (simp add: map_find_def)
qed

section \<open>Insertion\<close>

text \<open>What the table holds while nodes are added to it: the nodes \<open>M\<close>.\<close>

definition bm_holds :: "('k, 'v) base_map \<Rightarrow> ('k, 'v) hash_node multiset \<Rightarrow> bool" where
  "bm_holds m M \<longleftrightarrow> bm_shape m \<and> rh_inv (bm_home (unat (bm_capacity m))) (bm_nodes m) \<and> rh_nodes (bm_nodes m) = M"

lemma bm_insert_node_holds:
  assumes b: "bm_holds m M" and n: "size M < unat (bm_capacity m)" and h: "h \<noteq> 0"
  shows "\<exists>t. bm_insert_node h k v m = Inr (m\<lparr>bm_nodes := t\<rparr>) \<and>
     bm_holds (m\<lparr>bm_nodes := t\<rparr>) (add_mset \<lparr>hn_h = h, hn_key = k, hn_val = v\<rparr> M)"
proof -
  let ?n = "unat (bm_capacity m)" and ?x = "\<lparr>hn_h = h, hn_key = k, hn_val = v\<rparr>"
  have s: "bm_shape m" "rh_inv (bm_home ?n) (bm_nodes m)" "rh_nodes (bm_nodes m) = M" using b by (auto simp: bm_holds_def)
  obtain e where e: "(2::nat) ^ e \<le> 2 ^ 56" "?n = 2 ^ e" "length (bm_nodes m) = ?n" using bm_shapeE [OF s(1)] by metis
  have hl: "bm_home ?n ?x < length (bm_nodes m)" "unat (bm_mod m h) = bm_home ?n ?x"
    using bm_home_less [OF s(1), of ?x] bm_mod_home [OF s(1), of ?x] e(3) by simp_all
  have "length (bm_nodes m) < bm_fuel m" "unat (0::u64) + bm_fuel m < 2 ^ 63" using e by (simp_all add: bm_fuel_def)
  with rh_insert_home [OF s(2) hl(1)] n s(3) e(3) obtain t where
    t: "rh_insert (bm_fuel m) (bm_home ?n) (bm_nodes m) ?x (bm_home ?n ?x) 0 = Some t" "length t = ?n"
      "rh_inv (bm_home ?n) t" "rh_nodes t = add_mset ?x M" by auto
  have "bm_insert_node h k v m = Inr (m\<lparr>bm_nodes := t\<rparr>)"
    using h t(1) hl e(3) \<open>unat (0::u64) + bm_fuel m < 2 ^ 63\<close> bm_insert_loop_rh [OF s(1), of "bm_mod m h" 0 "bm_fuel m" ?x]
    by (simp add: bm_insert_node_def)
  moreover have "bm_holds (m\<lparr>bm_nodes := t\<rparr>) (add_mset ?x M)" using s(1) t by (auto simp: bm_holds_def bm_shape_def)
  ultimately show ?thesis by blast
qed

lemma rh_nodes_Cons [simp]: "rh_nodes (None # t) = rh_nodes t" "rh_nodes (Some x # t) = add_mset x (rh_nodes t)"
  by (simp_all add: rh_nodes_def)

lemma bm_reinsert_holds:
  assumes "bm_holds m M" "size M + size (rh_nodes old) \<le> unat (bm_capacity m)" "\<And>x. x \<in># rh_nodes old \<Longrightarrow> hn_h x \<noteq> 0"
  shows "\<exists>t. bm_reinsert old m = Inr (m\<lparr>bm_nodes := t\<rparr>) \<and> bm_holds (m\<lparr>bm_nodes := t\<rparr>) (M + rh_nodes old)"
  using assms
proof (induction old arbitrary: m M)
  case Nil
  have "m = m\<lparr>bm_nodes := bm_nodes m\<rparr>" by simp
  with Nil show ?case by (metis add.right_neutral bm_reinsert.simps(1) rh_nodes_replicate replicate_0)
next
  case (Cons c old)
  show ?case
  proof (cases c)
    case None
    then show ?thesis using Cons.IH [OF Cons.prems(1)] Cons.prems(2,3) by simp
  next
    case (Some x)
    have h: "hn_h x \<noteq> 0" using Cons.prems(3) Some by simp
    have "size M < unat (bm_capacity m)" using Cons.prems(2) Some by simp
    moreover have "\<lparr>hn_h = hn_h x, hn_key = hn_key x, hn_val = hn_val x\<rparr> = x" by simp
    ultimately obtain t where
      t: "bm_insert_node (hn_h x) (hn_key x) (hn_val x) m = Inr (m\<lparr>bm_nodes := t\<rparr>)"
        "bm_holds (m\<lparr>bm_nodes := t\<rparr>) (add_mset x M)"
      using bm_insert_node_holds [OF Cons.prems(1) _ h, of "hn_key x" "hn_val x"] by metis
    have "\<exists>t'. bm_reinsert old (m\<lparr>bm_nodes := t\<rparr>) = Inr ((m\<lparr>bm_nodes := t\<rparr>)\<lparr>bm_nodes := t'\<rparr>) \<and>
        bm_holds ((m\<lparr>bm_nodes := t\<rparr>)\<lparr>bm_nodes := t'\<rparr>) (add_mset x M + rh_nodes old)"
      using Cons.prems(2,3) Some by (intro Cons.IH [OF t(2)]) auto
    with t(1) Some show ?thesis by simp
  qed
qed


lemma pow2_and_pred: "(2 ^ k :: u64) AND (2 ^ k - 1) = 0"
  by (rule bit_eqI) (auto simp: bit_and_iff bit_mask_iff simp flip: mask_eq_exp_minus_1)

lemma bm_set_capacity_holds:
  assumes "k \<le> 56"
  shows "\<exists>t. bm_set_capacity (2 ^ k) m = Inr (m\<lparr>bm_capacity := 2 ^ k, bm_nodes := t\<rparr>) \<and>
     bm_holds (m\<lparr>bm_capacity := 2 ^ k, bm_nodes := t\<rparr>) {#}"
  using assms pow2_and_pred [of k] unat_exp_u64 [of k]
  by (auto simp: bm_set_capacity_def bm_holds_def bm_shape_def rh_inv_replicate)

text \<open>Growing doubles the capacity, to at least eight, and keeps the nodes.\<close>

lemma bm_grow_holds:
  assumes nodes: "\<And>x. x \<in># rh_nodes (bm_nodes m) \<Longrightarrow> hn_h x \<noteq> 0"
    and k: "bm_capacity m = 0 \<and> bm_nodes m = [] \<or> bm_shape m \<and> unat (bm_capacity m) \<le> 2 ^ 55"
    and n: "size (rh_nodes (bm_nodes m)) \<le> unat (bm_capacity m)"
  shows "\<exists>c t. bm_grow m = Inr (m\<lparr>bm_capacity := c, bm_nodes := t\<rparr>) \<and>
     bm_holds (m\<lparr>bm_capacity := c, bm_nodes := t\<rparr>) (rh_nodes (bm_nodes m)) \<and> 8 \<le> unat c \<and> 2 * unat (bm_capacity m) \<le> unat c"
proof -
  let ?c2 = "bm_capacity m * 2"
  let ?c = "if ?c2 < bm_min_capacity then bm_min_capacity else ?c2"
  have "\<exists>e\<le>56. ?c = 2 ^ e \<and> 8 \<le> unat ?c \<and> 2 * unat (bm_capacity m) \<le> unat ?c"
  proof (cases "bm_capacity m = 0")
    case True
    then show ?thesis by (intro exI [of _ 3]) (simp add: bm_min_capacity_def)
  next
    case False
    then obtain j where j: "unat (bm_capacity m) = 2 ^ j" "(2::nat) ^ j \<le> 2 ^ 55"
      using k by (auto elim!: bm_shapeE)
    then have j55: "j \<le> 55" using power_le_imp_le_exp [of 2 j 55] by simp
    have "bm_capacity m = 2 ^ j" using j(1) j55 by (simp add: word_eq_unat [THEN iffD2] unat_exp_u64)
    then have c2: "?c2 = 2 ^ Suc j" by simp
    have u: "unat ?c2 = 2 ^ Suc j" unfolding c2 using j55 by (intro unat_exp_u64) simp
    show ?thesis
    proof (cases "?c2 < bm_min_capacity")
      case True
      then have "unat ?c2 < 8" by (simp add: bm_min_capacity_def word_less_nat_alt)
      then show ?thesis using True u j(1) by (intro exI [of _ 3]) (simp add: bm_min_capacity_def)
    next
      case False
      then have "8 \<le> unat ?c2" by (simp add: bm_min_capacity_def word_less_nat_alt)
      then show ?thesis using False u j(1) j55 c2 by (intro exI [of _ "Suc j"]) simp
    qed
  qed
  then obtain e where e: "e \<le> 56" "?c = 2 ^ e" "8 \<le> unat ?c" "2 * unat (bm_capacity m) \<le> unat ?c" by blast
  from bm_set_capacity_holds [OF e(1), of m] obtain t where
    t: "bm_set_capacity ?c m = Inr (m\<lparr>bm_capacity := ?c, bm_nodes := t\<rparr>)"
      "bm_holds (m\<lparr>bm_capacity := ?c, bm_nodes := t\<rparr>) {#}" unfolding e(2) by blast
  have "size {#} + size (rh_nodes (bm_nodes m)) \<le> unat (bm_capacity (m\<lparr>bm_capacity := ?c, bm_nodes := t\<rparr>))"
    using n e(4) by simp
  from bm_reinsert_holds [OF t(2) this nodes] obtain t' where
    t': "bm_reinsert (bm_nodes m) (m\<lparr>bm_capacity := ?c, bm_nodes := t\<rparr>) = Inr (m\<lparr>bm_capacity := ?c, bm_nodes := t'\<rparr>)"
      "bm_holds (m\<lparr>bm_capacity := ?c, bm_nodes := t'\<rparr>) (rh_nodes (bm_nodes m))" by auto
  have "bm_grow m = Inr (m\<lparr>bm_capacity := ?c, bm_nodes := t'\<rparr>)" using t(1) t'(1) by (simp add: bm_grow_def Let_def)
  with t'(2) e(3,4) show ?thesis by blast
qed

lemma bm_node_of_new:
  assumes "k \<notin> dom f"
  shows "bm_node_of hash (f(k \<mapsto> v)) ` dom (f(k \<mapsto> v)) =
     insert \<lparr>hn_h = hash k, hn_key = k, hn_val = v\<rparr> (bm_node_of hash f ` dom f)"
    "\<lparr>hn_h = hash k, hn_key = k, hn_val = v\<rparr> \<notin> bm_node_of hash f ` dom f"
proof -
  have "bm_node_of hash (f(k \<mapsto> v)) j = bm_node_of hash f j" if "j \<in> dom f" for j
    using that assms by (cases "j = k") (auto simp: bm_node_of_def)
  then have "bm_node_of hash (f(k \<mapsto> v)) ` dom f = bm_node_of hash f ` dom f" by (rule image_cong [OF refl])
  then show "bm_node_of hash (f(k \<mapsto> v)) ` dom (f(k \<mapsto> v)) =
     insert \<lparr>hn_h = hash k, hn_key = k, hn_val = v\<rparr> (bm_node_of hash f ` dom f)"
    by (simp add: bm_node_of_def)
  show "\<lparr>hn_h = hash k, hn_key = k, hn_val = v\<rparr> \<notin> bm_node_of hash f ` dom f"
    using assms by (auto simp: bm_node_of_def)
qed

lemma bm_threshold_nat:
  assumes "unat (bm_capacity m) \<le> 2 ^ 56"
  shows "unat (bm_threshold m) = unat (bm_capacity m) * 90 div 100"
proof -
  have "unat (bm_capacity m * bm_max_load) = unat (bm_capacity m) * 90"
    using assms by (simp add: bm_max_load_def unat_mult_no_wrap)
  then show ?thesis by (simp add: bm_threshold_def unat_div)
qed

lemma bm_insert_holds:
  assumes "bm_holds m (mset_set (bm_node_of hash f ` dom f))" "finite (dom f)" "f k = None" "hash k \<noteq> 0"
    "unat (bm_count m) = Suc (card (dom f))" "unat (bm_count m) \<le> unat (bm_capacity m) * 90 div 100"
    "\<forall>k\<in>dom f. hash k \<noteq> 0" "bm_capacity m \<noteq> 0"
  shows "\<exists>m'. bm_insert_node (hash k) k v m = Inr m' \<and> bm_rep hash m' (f(k \<mapsto> v))"
proof -
  let ?M = "mset_set (bm_node_of hash f ` dom f)"
  have kd: "k \<notin> dom f" using assms(3) by (simp add: domIff)
  have "size ?M < unat (bm_capacity m)"
    using assms(5,6) load_less [of "unat (bm_capacity m)"] by (simp add: card_image bm_node_of_inj)
  from bm_insert_node_holds [OF assms(1) this assms(4), of k v] obtain t where
    t: "bm_insert_node (hash k) k v m = Inr (m\<lparr>bm_nodes := t\<rparr>)"
      "bm_holds (m\<lparr>bm_nodes := t\<rparr>) (add_mset \<lparr>hn_h = hash k, hn_key = k, hn_val = v\<rparr> ?M)" by blast
  have "bm_rep hash (m\<lparr>bm_nodes := t\<rparr>) (f(k \<mapsto> v))"
    using t(2) assms(2,4-8) kd bm_node_of_new [OF kd, of hash v]
    by (simp add: bm_rep_def bm_holds_def)
  with t(1) show ?thesis by blast
qed

text \<open>The first step of an insertion makes room for one more node.\<close>

lemma bm_make_room:
  fixes m :: "('k, 'v) base_map"
  defines "m0 \<equiv> m\<lparr>bm_count := bm_count m + 1\<rparr>"
  assumes r: "bm_rep hash m f" and room: "card (dom f) < 2 ^ 55"
  shows "\<exists>m'. (if bm_threshold m0 < bm_count m0 then bm_grow m0 else Inr m0) = Inr m' \<and>
     bm_holds m' (mset_set (bm_node_of hash f ` dom f)) \<and> unat (bm_count m') = Suc (card (dom f)) \<and>
     Suc (card (dom f)) \<le> unat (bm_capacity m') * 90 div 100 \<and> bm_capacity m' \<noteq> 0"
proof -
  let ?m = "m\<lparr>bm_count := bm_count m + 1\<rparr>"
  have base: "finite (dom f)" "unat (bm_count m) = card (dom f)" "\<forall>k\<in>dom f. hash k \<noteq> 0"
    using r by (auto simp: bm_rep_def)
  then have cnt: "unat (bm_count ?m) = Suc (card (dom f))" using room by (simp add: unat_add_no_wrap)
  have cap: "unat (bm_capacity m) \<le> 2 ^ 56" using r by (auto simp: bm_rep_def elim!: bm_shapeE split: if_splits)
  then have th: "unat (bm_threshold ?m) = unat (bm_capacity m) * 90 div 100" using bm_threshold_nat [of ?m] by simp
  let ?M = "mset_set (bm_node_of hash f ` dom f)"
  have nodes: "rh_nodes (bm_nodes m) = ?M" using r by (auto simp: bm_rep_def rh_nodes_def split: if_splits)
  show ?thesis
  proof (cases "bm_threshold ?m < bm_count ?m")
    case False
    then have le: "Suc (card (dom f)) \<le> unat (bm_capacity m) * 90 div 100" using cnt th by (simp add: word_less_nat_alt)
    then have c: "bm_capacity m \<noteq> 0" by (auto intro: ccontr)
    have "bm_holds ?m ?M" using bm_repD [OF r c] by (simp add: bm_holds_def)
    with le c cnt False show ?thesis by (simp add: m0_def)
  next
    case True
    then have gt: "unat (bm_capacity m) * 90 div 100 \<le> card (dom f)" using cnt th by (simp add: word_less_nat_alt)
    have sz: "size ?M = card (dom f)" by (simp add: card_image bm_node_of_inj)
    have shape: "bm_capacity m = 0 \<and> bm_nodes m = [] \<or> bm_shape m \<and> unat (bm_capacity m) \<le> 2 ^ 55"
    proof (cases "bm_capacity m = 0")
      case False
      note D = bm_repD [OF r False]
      obtain e where e: "unat (bm_capacity m) = 2 ^ e" "e \<le> 56" using bm_shapeE [OF D(4)] by metis
      have "e \<noteq> 56" using gt room e(1) by auto
      then have "(2::nat) ^ e \<le> 2 ^ 55" using e(2) by (intro power_increasing) auto
      with D(4) e(1) show ?thesis by simp
    qed (use r in \<open>simp add: bm_rep_def\<close>)
    have full: "size (rh_nodes (bm_nodes ?m)) \<le> unat (bm_capacity ?m)"
    proof (cases "bm_capacity m = 0")
      case False
      then show ?thesis using bm_rep_room(1) [OF r False] bm_repD(8) [OF r False] by simp
    qed (use shape in \<open>simp add: rh_nodes_def bm_shape_def\<close>)
    have nz: "hn_h x \<noteq> 0" if "x \<in># rh_nodes (bm_nodes ?m)" for x
      using that base(1,3) nodes by (auto simp: bm_node_of_def)
    obtain c t where ct: "bm_grow ?m = Inr (?m\<lparr>bm_capacity := c, bm_nodes := t\<rparr>)"
        "bm_holds (?m\<lparr>bm_capacity := c, bm_nodes := t\<rparr>) ?M" "8 \<le> unat c" "2 * unat (bm_capacity m) \<le> unat c"
      using bm_grow_holds [of ?m, OF nz _ full] shape nodes by auto
    have "Suc (card (dom f)) \<le> unat c * 90 div 100"
    proof (cases "bm_capacity m = 0")
      case True
      then have "dom f = {}" using r by (simp add: bm_rep_def)
      then show ?thesis using ct(3) by simp
    next
      case False
      have "card (dom f) \<le> unat (bm_capacity m) * 90 div 100" using bm_repD(2,6) [OF r False] by simp
      then show ?thesis using ct(3,4) by simp
    qed
    moreover have "c \<noteq> 0" using ct(3) by auto
    ultimately show ?thesis using ct(1,2) cnt True by (simp add: m0_def)
  qed
qed

lemma bm_insert_rep:
  assumes r: "bm_rep hash m f" and k: "f k = None" "hash k \<noteq> 0" and room: "card (dom f) < 2 ^ 55"
  shows "\<exists>m'. bm_insert hash k v m = Inr m' \<and> bm_rep hash m' (f(k \<mapsto> v))"
proof -
  obtain m' where m': "bm_insert hash k v m = bm_insert_node (hash k) k v m'"
      "bm_holds m' (mset_set (bm_node_of hash f ` dom f))" "unat (bm_count m') = Suc (card (dom f))"
      "Suc (card (dom f)) \<le> unat (bm_capacity m') * 90 div 100" "bm_capacity m' \<noteq> 0"
    using bm_make_room [OF r room] by (auto simp: bm_insert_def Let_def)
  have "finite (dom f)" "\<forall>k\<in>dom f. hash k \<noteq> 0" using r by (auto simp: bm_rep_def)
  with bm_insert_holds [OF m'(2) _ k m'(3)] m' show ?thesis by simp
qed



section \<open>Deletion\<close>

lemma bm_erase_rep:
  assumes r: "bm_rep hash m f"
  shows "\<exists>m'. bm_erase hash k m = Inr (f k \<noteq> None, m') \<and> bm_rep hash m' (f(k := None))"
proof (cases "k \<in> dom f")
  case False
  then have "bm_erase hash k m = Inr (False, m)" using bm_lookup_rep [OF r, of k] by (simp add: bm_erase_def)
  moreover have "f(k := None) = f" "f k = None" using False by (auto simp: domIff fun_upd_idem)
  ultimately show ?thesis using r by simp
next
  case True
  then have c: "bm_capacity m \<noteq> 0" using r by (auto simp: bm_rep_def)
  note D = bm_repD [OF r c]
  let ?n = "unat (bm_capacity m)" and ?x = "bm_node_of hash f k"
  obtain i where i: "bm_lookup hash k m = Inr (Some i)" "unat i < length (bm_nodes m)" "bm_nodes m ! unat i = Some ?x"
    using bm_lookup_rep [OF r, of k] True by auto
  have "length (bm_nodes m) \<le> bm_fuel m" using D(8) by (simp add: bm_fuel_def)
  from rh_delete [OF D(5) i(2,3) bm_rep_room(1) [OF r c] this] obtain t where
    t: "rh_shift (bm_fuel m) (bm_home ?n) ((bm_nodes m)[unat i := None]) (unat i) = Some t" "length t = length (bm_nodes m)"
      "rh_inv (bm_home ?n) t" "add_mset ?x (rh_nodes t) = rh_nodes (bm_nodes m)" by blast
  let ?m1 = "m\<lparr>bm_nodes := (bm_nodes m)[unat i := None], bm_count := bm_count m - 1\<rparr>"
  let ?m = "m\<lparr>bm_nodes := t, bm_count := bm_count m - 1\<rparr>"
  have fu: "bm_fuel ?m1 = bm_fuel m" by (simp add: bm_fuel_def)
  have "bm_shape ?m1" using D(4) by (simp add: bm_shape_def)
  then have "bm_erase_loop (bm_fuel m) ?m1 i = Inr ?m"
    using bm_erase_loop_rh [of ?m1 i "bm_fuel m"] i(2) D(8) t(1) by simp
  then have e: "bm_erase hash k m = Inr (True, ?m)"
    using i fu by (simp add: bm_erase_def bm_erase_node_def Let_def)
  have cnt: "unat (bm_count m - 1) = card (dom f) - 1" "card (dom f) \<noteq> 0"
  proof -
    show "card (dom f) \<noteq> 0" using True D(1) by auto
    then have "bm_count m \<noteq> 0" using D(2) by auto
    then show "unat (bm_count m - 1) = card (dom f) - 1" using D(2) by (simp add: unat_minus_one)
  qed
  have "rh_nodes t = mset_set (bm_node_of hash (f(k := None)) ` dom (f(k := None)))"
  proof -
    have "bm_node_of hash (f(k := None)) ` (dom f - {k}) = bm_node_of hash f ` (dom f - {k})"
      by (auto simp: bm_node_of_def)
    also have "\<dots> = bm_node_of hash f ` dom f - {?x}" by (auto simp: bm_node_of_def)
    finally have "mset_set (bm_node_of hash (f(k := None)) ` dom (f(k := None))) = rh_nodes (bm_nodes m) - {#?x#}"
      using D(1,7) True by (simp add: mset_set_Diff)
    with t(4) show ?thesis by (metis add_mset_remove_trivial)
  qed
  then have "bm_rep hash ?m (f(k := None))"
    using D c t(2,3) cnt True by (auto simp: bm_rep_def bm_shape_def card_Diff_singleton)
  with e True show ?thesis by auto
qed

section \<open>The interface\<close>

interpretation bm: assoc_table "bm_rep hash" "map_find hash" "bm_insert hash" "bm_erase hash" "\<lambda>k. hash k \<noteq> 0" "2 ^ 55" for hash
proof unfold_locales
  fix m :: "('a, 'b) base_map" and f k v
  show "map_find hash k m = Inr (f k)" if "bm_rep hash m f" using that by (rule map_find_rep)
  show "\<exists>s'. bm_insert hash k v m = Inr s' \<and> bm_rep hash s' (f(k \<mapsto> v))"
    if "bm_rep hash m f" "f k = None" "hash k \<noteq> 0" "card (dom f) < 2 ^ 55" using that by (rule bm_insert_rep)
  show "\<exists>s'. bm_erase hash k m = Inr (f k \<noteq> None, s') \<and> bm_rep hash s' (f(k := None))" if "bm_rep hash m f"
    using that by (rule bm_erase_rep)
  show "finite (dom f)" if "bm_rep hash m f" using that by (simp add: bm_rep_def)
qed

lemma bm_new_rep:
  fixes hash :: "'k \<Rightarrow> u64"
  assumes "unat c \<le> 2 ^ 56"
  shows "\<exists>m :: ('k, 'v) base_map. bm_new c = Inr m \<and> bm_rep hash m Map.empty"
proof (cases "c = 0")
  case True
  then show ?thesis by (simp add: bm_new_def bm_rep_def)
next
  case False
  have "c \<le> 2 ^ 56" using assms by (simp add: word_le_nat_alt)
  then have l: "log2 c \<le> 56" by (rule log2_le) simp
  let ?m = "\<lparr>bm_count = 0, bm_capacity = 0, bm_nodes = []\<rparr> :: ('k, 'v) base_map"
  from bm_set_capacity_holds [OF l, of ?m] obtain t where
    t: "bm_set_capacity (2 ^ log2 c) ?m = Inr (?m\<lparr>bm_capacity := 2 ^ log2 c, bm_nodes := t\<rparr>)"
      "bm_holds (?m\<lparr>bm_capacity := 2 ^ log2 c, bm_nodes := t\<rparr>) {#}" by blast
  have "unat (2 ^ log2 c :: u64) \<noteq> 0" using unat_exp_u64 [of "log2 c"] l by simp
  then have "(2 ^ log2 c :: u64) \<noteq> 0" by (metis unat_0)
  with t(2) have "bm_rep hash (?m\<lparr>bm_capacity := 2 ^ log2 c, bm_nodes := t\<rparr>) Map.empty"
    by (simp add: bm_rep_def bm_holds_def)
  moreover have "bm_new c = Inr (?m\<lparr>bm_capacity := 2 ^ log2 c, bm_nodes := t\<rparr>)"
    using t(1) False l by (simp add: bm_new_def push_bit_eq_mult)
  ultimately show ?thesis by blast
qed

lemma bm_incr_step:
  "bm_incr m (int i) =
     (if i < unat (bm_capacity m)
      then (case array_get (bm_nodes m) (Suc i) of
              Inl e \<Rightarrow> Inl e
            | Inr (Some _) \<Rightarrow> Inr (int (Suc i))
            | Inr None \<Rightarrow> bm_incr m (int (Suc i)))
      else Inr (int i))"
proof -
  have "nat (int i + 1) = Suc i" "int i + 1 = int (Suc i)" by simp_all
  then show ?thesis by (subst bm_incr.simps) (simp only: of_nat_less_iff)
qed

section \<open>Properties\<close>

text \<open>C28. A map whose hash function is not zero on the keys that are inserted refines a finite map: after any run of insertions of keys that
  are absent at the time, erasures and lookups, from a map of any initial capacity, every lookup has returned the value
  of the finite map and every erasure whether the key was there, no loop diverged and no assertion failed.\<close>

theorem map_refines:
  assumes "unat c \<le> 2 ^ 56" "length ops \<le> 2 ^ 55" "table_fresh (\<lambda>k. hash k \<noteq> 0) ops Map.empty"
  shows "\<exists>m m'. bm_new c = Inr m \<and>
     table_run (map_find hash) (bm_insert hash) (bm_erase hash) ops m = Inr (fst (table_spec ops Map.empty), m') \<and>
     bm_rep hash m' (snd (table_spec ops Map.empty))"
proof -
  obtain m :: "('a, 'b) base_map" where m: "bm_new c = Inr m" "bm_rep hash m Map.empty" using bm_new_rep [OF assms(1)] by blast
  from bm.run_refines [OF m(2) _ assms(3)] assms(2) m(1) show ?thesis by fastforce
qed

theorem map_refines_witness:
  "\<exists>m m'. bm_new 0 = Inr m \<and>
     table_run (map_find splitmix64) (bm_insert splitmix64) (bm_erase splitmix64)
       [T_insert 5 ''a'', T_insert 13 ''b'', T_find 5, T_erase 5, T_erase 5, T_find 5, T_find 13] m =
     Inr ([Found (Some ''a''), Erased True, Erased False, Found None, Found (Some ''b'')], m')"
proof -
  have z: "splitmix64 0 = 0" by (simp add: splitmix64_def)
  have nz: "splitmix64 5 \<noteq> 0" "splitmix64 13 \<noteq> 0" using inj_eq [OF splitmix64_inj, of _ 0] z by simp_all
  let ?ops = "[T_insert 5 ''a'', T_insert 13 ''b'', T_find 5, T_erase 5, T_erase 5, T_find 5, T_find 13] :: (u64, string) table_op list"
  have "fst (table_spec ?ops Map.empty) = [Found (Some ''a''), Erased True, Erased False, Found None, Found (Some ''b'')]" by simp
  moreover have "table_fresh (\<lambda>k. splitmix64 k \<noteq> 0) ?ops Map.empty" using nz by simp
  ultimately show ?thesis using map_refines [of 0 ?ops splitmix64] by auto
qed

text \<open>A key whose hash is zero cannot be inserted: the assertion on the hash fails. The
  integer zero is such a key.\<close>

theorem map_insert_zero_key:
  assumes "bm_rep splitmix64 m f" "card (dom f) < 2 ^ 55"
  shows "bm_insert splitmix64 0 v m = Inl Assert_failed"
proof -
  have "splitmix64 0 = 0" by (simp add: splitmix64_def)
  with bm_make_room [OF assms] show ?thesis by (auto simp: bm_insert_def Let_def bm_insert_node_def)
qed

theorem map_insert_zero_key_witness:
  "bm_insert splitmix64 0 ''v'' \<lparr>bm_count = 0, bm_capacity = 0, bm_nodes = []\<rparr> = Inl Assert_failed"
  using map_insert_zero_key [of "\<lparr>bm_count = 0, bm_capacity = 0, bm_nodes = []\<rparr>" Map.empty "''v''"] by (simp add: bm_rep_def)

text \<open>Advancing an iterator from the last node of a map reads the node one past the end of the
  table before it compares with the end.\<close>

theorem map_iterator_overrun:
  assumes "bm_rep hash m f" "i < length (bm_nodes m)" "\<forall>j. i < j \<and> j < length (bm_nodes m) \<longrightarrow> bm_nodes m ! j = None"
  shows "bm_incr m (int i) = Inl Out_of_bounds"
proof -
  have c: "bm_capacity m \<noteq> 0" using assms(1,2) by (auto simp: bm_rep_def)
  have len: "length (bm_nodes m) = unat (bm_capacity m)" by (rule bm_repD(8) [OF assms(1) c])
  show ?thesis using assms(2,3)
  proof (induction "length (bm_nodes m) - i" arbitrary: i)
    case (Suc d)
    show ?case
    proof (cases "Suc i = length (bm_nodes m)")
      case True
      then show ?thesis using len by (simp add: bm_incr_step [of m i] array_get_def)
    next
      case False
      then have lt: "Suc i < length (bm_nodes m)" using Suc.prems(1) by simp
      have "bm_incr m (int (Suc i)) = Inl Out_of_bounds" using Suc.hyps(2) Suc.prems(2) lt by (intro Suc.hyps(1)) auto
      moreover have "bm_nodes m ! Suc i = None" using Suc.prems(2) lt by blast
      ultimately show ?thesis using lt len by (simp add: bm_incr_step [of m i])
    qed
  qed simp
qed

theorem map_iterator_overrun_witness:
  "bm_incr \<lparr>bm_count = 1, bm_capacity = 2, bm_nodes = [None, Some \<lparr>hn_h = 3, hn_key = 7 :: nat, hn_val = True\<rparr>]\<rparr> 1 = Inl Out_of_bounds"
proof -
  let ?m = "\<lparr>bm_count = 1, bm_capacity = 2, bm_nodes = [None, Some \<lparr>hn_h = 3, hn_key = 7 :: nat, hn_val = True\<rparr>]\<rparr>"
  have "bm_rep (\<lambda>_. 3) ?m [7 \<mapsto> True]"
    by (auto simp: bm_rep_def bm_shape_def rh_inv_def rh_path_def bm_home_def rh_nodes_def bm_node_of_def less_Suc_eq dst_def
        intro!: exI [of _ 1])
  from map_iterator_overrun [OF this, of 1] show ?thesis by simp
qed

end
