(* ===== verification/Node_Map.thy ===== *)
theory Node_Map
  imports Robin_Hood Util_Basics
begin

text \<open>
  The hash table \<open>util::node_map\<close> of \<open>src/src/libraries/util/include/util/node_map.h\<close>, whose
  nodes carry their own key, and \<open>util::node_set\<close> on top of it. The template parameters are a
  record: the key of a node (\<open>get_map_key\<close>), the hash of a key, the key that marks an open slot,
  and how many nodes the storage behind the allocator can take. A cell is \<open>None\<close> when its key is the
  invalid one. \<open>nm_rep\<close> relates a table to the finite map from keys to nodes it stands for.
\<close>

unbundle bit_operations_syntax

section \<open>State\<close>

record ('k, 'v) nm_traits =
  nt_key :: "'v \<Rightarrow> 'k"
  nt_hash :: "'k \<Rightarrow> u64"
  nt_invalid :: 'k
  nt_limit :: nat

record 'v node_map =
  nm_count :: u64
  nm_capacity :: u64
  nm_nodes :: "'v table"

definition nm_max_load :: u64 where "nm_max_load = 90"
definition nm_min_capacity :: u64 where "nm_min_capacity = 16"

section \<open>Operations\<close>

definition nm_threshold :: "'v node_map \<Rightarrow> u64" where
  "nm_threshold m = (nm_capacity m * nm_max_load) div 100"

definition nm_mod :: "'v node_map \<Rightarrow> u64 \<Rightarrow> u64" where
  "nm_mod m slot = slot AND (nm_capacity m - 1)"

definition nm_psl :: "('k, 'v) nm_traits \<Rightarrow> 'v node_map \<Rightarrow> 'v \<Rightarrow> u64 \<Rightarrow> u64" where
  "nm_psl T m x slot = nm_mod m (slot + nm_capacity m - nm_mod m (nt_hash T (nt_key T x)))"

text \<open>The key in a cell.\<close>

definition nm_key_at :: "('k, 'v) nm_traits \<Rightarrow> 'v option \<Rightarrow> 'k" where
  "nm_key_at T c = (case c of None \<Rightarrow> nt_invalid T | Some x \<Rightarrow> nt_key T x)"

definition nm_new :: "('k, 'v) nm_traits \<Rightarrow> u64 \<Rightarrow> 'v node_map res" where
  "nm_new T capacity =
     (if capacity \<noteq> 0
      then
        bindE (shl64 1 (log2 capacity)) (\<lambda>c.
        bindE (guardE Out_of_bounds (unat c \<le> nt_limit T)) (\<lambda>_.
        Inr \<lparr>nm_count = 0, nm_capacity = c, nm_nodes = replicate (unat c) None\<rparr>))
      else Inr \<lparr>nm_count = 0, nm_capacity = 0, nm_nodes = []\<rparr>)"

definition nm_from_buffer :: "('k, 'v) nm_traits \<Rightarrow> u64 \<Rightarrow> 'v node_map res" where
  "nm_from_buffer T capacity =
     bindE (guardE Out_of_bounds (unat capacity \<le> nt_limit T)) (\<lambda>_.
     Inr \<lparr>nm_count = 0, nm_capacity = capacity, nm_nodes = replicate (unat capacity) None\<rparr>)"

definition nm_fuel :: "'v node_map \<Rightarrow> nat" where
  "nm_fuel m = Suc (unat (nm_capacity m))"

fun nm_lookup_loop :: "nat \<Rightarrow> ('k, 'v) nm_traits \<Rightarrow> 'v node_map \<Rightarrow> 'k \<Rightarrow> u64 \<Rightarrow> u64 \<Rightarrow> u64 option res" where
  "nm_lookup_loop 0 T m key slot dist = Inl Diverges"
| "nm_lookup_loop (Suc fuel) T m key slot dist =
     bindE (array_get (nm_nodes m) (unat slot)) (\<lambda>c.
     if nm_key_at T c = key then Inr (Some slot)
     else
       case c of
         None \<Rightarrow> Inr None
       | Some x \<Rightarrow>
           if nm_psl T m x slot < dist then Inr None
           else nm_lookup_loop fuel T m key (nm_mod m (slot + 1)) (dist + 1))"

definition nm_lookup :: "('k, 'v) nm_traits \<Rightarrow> 'k \<Rightarrow> 'v node_map \<Rightarrow> u64 option res" where
  "nm_lookup T key m =
     (if nm_count m = 0 then Inr None
      else nm_lookup_loop (nm_fuel m) T m key (nm_mod m (nt_hash T key)) 0)"

text \<open>The node a lookup finds; an open slot is not a node.\<close>

definition nm_find :: "('k, 'v) nm_traits \<Rightarrow> 'k \<Rightarrow> 'v node_map \<Rightarrow> 'v option res" where
  "nm_find T key m =
     bindE (nm_lookup T key m) (\<lambda>r. case r of
        None \<Rightarrow> Inr None
      | Some slot \<Rightarrow> array_get (nm_nodes m) (unat slot))"

text \<open>The loop of \<open>insert\<close>: \<open>found\<close> is where the new node went, once it has a place.\<close>

fun nm_insert_loop :: "nat \<Rightarrow> ('k, 'v) nm_traits \<Rightarrow> 'v node_map \<Rightarrow> 'v \<Rightarrow> u64 \<Rightarrow> u64 \<Rightarrow> u64 option \<Rightarrow> (u64 \<times> 'v node_map) res" where
  "nm_insert_loop 0 T m node slot dist found = Inl Diverges"
| "nm_insert_loop (Suc fuel) T m node slot dist found =
     bindE (array_get (nm_nodes m) (unat slot)) (\<lambda>c.
     case c of
       None \<Rightarrow>
         bindE (array_set (nm_nodes m) (unat slot) (Some node)) (\<lambda>t.
         Inr (case found of None \<Rightarrow> slot | Some i \<Rightarrow> i, m\<lparr>nm_nodes := t\<rparr>))
     | Some node_at_slot \<Rightarrow>
         let psl_at_slot = nm_psl T m node_at_slot slot in
         if psl_at_slot < dist
         then
           bindE (array_set (nm_nodes m) (unat slot) (Some node)) (\<lambda>t.
           nm_insert_loop fuel T (m\<lparr>nm_nodes := t\<rparr>) node_at_slot (nm_mod m (slot + 1)) (psl_at_slot + 1)
             (Some (case found of None \<Rightarrow> slot | Some i \<Rightarrow> i)))
         else nm_insert_loop fuel T m node (nm_mod m (slot + 1)) (dist + 1) found)"

text \<open>The loop of \<open>fixup\<close>. The slot is not reduced when it goes up.\<close>

fun nm_fixup :: "nat \<Rightarrow> ('k, 'v) nm_traits \<Rightarrow> u64 \<Rightarrow> 'v node_map \<Rightarrow> 'v node_map res" where
  "nm_fixup 0 T slot m = Inl Diverges"
| "nm_fixup (Suc fuel) T slot m =
     (let next_slot = nm_mod m (slot + 1) in
      bindE (array_get (nm_nodes m) (unat next_slot)) (\<lambda>c.
      case c of
        None \<Rightarrow> Inr m
      | Some next \<Rightarrow>
          if nm_psl T m next next_slot = 0 then Inr m
          else
            bindE (array_set (nm_nodes m) (unat slot) (Some next)) (\<lambda>t.
            bindE (array_set t (unat next_slot) None) (\<lambda>t.
            nm_fixup fuel T (slot + 1) (m\<lparr>nm_nodes := t\<rparr>)))))"

text \<open>
  The insertion inside \<open>grow\<close>: the node that is inserted is the cell \<open>src\<close> of the table itself,
  so each swap goes through that cell.
\<close>

fun nm_reinsert_loop :: "nat \<Rightarrow> ('k, 'v) nm_traits \<Rightarrow> 'v node_map \<Rightarrow> nat \<Rightarrow> u64 \<Rightarrow> u64 \<Rightarrow> 'v node_map res" where
  "nm_reinsert_loop 0 T m src slot dist = Inl Diverges"
| "nm_reinsert_loop (Suc fuel) T m src slot dist =
     bindE (array_get (nm_nodes m) src) (\<lambda>node.
     bindE (array_get (nm_nodes m) (unat slot)) (\<lambda>c.
     case c of
       None \<Rightarrow> bindE (array_set (nm_nodes m) (unat slot) node) (\<lambda>t. Inr (m\<lparr>nm_nodes := t\<rparr>))
     | Some node_at_slot \<Rightarrow>
         let psl_at_slot = nm_psl T m node_at_slot slot in
         if psl_at_slot < dist
         then
           bindE (array_set (nm_nodes m) src c) (\<lambda>t.
           bindE (array_set t (unat slot) node) (\<lambda>t.
           nm_reinsert_loop fuel T (m\<lparr>nm_nodes := t\<rparr>) src (nm_mod m (slot + 1)) (psl_at_slot + 1)))
         else nm_reinsert_loop fuel T m src (nm_mod m (slot + 1)) (dist + 1)))"

text \<open>One round of the first loop of \<open>grow\<close>. The count goes down and up again around the
  insertion, which therefore never grows the table itself.\<close>

definition nm_rehome :: "('k, 'v) nm_traits \<Rightarrow> nat \<Rightarrow> 'v node_map \<Rightarrow> 'v node_map res" where
  "nm_rehome T slot m =
     bindE (array_get (nm_nodes m) slot) (\<lambda>c.
     case c of
       None \<Rightarrow> Inr m
     | Some x \<Rightarrow>
         let target = nm_mod m (nt_hash T (nt_key T x)) in
         if unat target \<le> slot then Inr m
         else
           bindE (nm_reinsert_loop (nm_fuel m) T m slot target 0) (\<lambda>m.
           bindE (array_set (nm_nodes m) slot None) (\<lambda>t. Inr (m\<lparr>nm_nodes := t\<rparr>))))"

fun nm_for :: "(nat \<Rightarrow> 'v node_map \<Rightarrow> 'v node_map res) \<Rightarrow> nat list \<Rightarrow> 'v node_map \<Rightarrow> 'v node_map res" where
  "nm_for f [] m = Inr m"
| "nm_for f (i # is) m = bindE (f i m) (nm_for f is)"

definition nm_close :: "('k, 'v) nm_traits \<Rightarrow> nat \<Rightarrow> 'v node_map \<Rightarrow> 'v node_map res" where
  "nm_close T slot m =
     bindE (array_get (nm_nodes m) slot) (\<lambda>c. if c = None then nm_fixup (nm_fuel m) T (of_nat slot) m else Inr m)"

definition nm_grow :: "('k, 'v) nm_traits \<Rightarrow> 'v node_map \<Rightarrow> 'v node_map res" where
  "nm_grow T m =
     (let old_capacity = unat (nm_capacity m);
          new_capacity = nm_capacity m * 2;
          new_capacity = (if new_capacity < nm_min_capacity then nm_min_capacity else new_capacity)
      in bindE (guardE Out_of_bounds (unat new_capacity \<le> nt_limit T)) (\<lambda>_.
         let m = m\<lparr>nm_nodes := take old_capacity (nm_nodes m) @ replicate (unat new_capacity - old_capacity) None,
                   nm_capacity := new_capacity\<rparr> in
         bindE (nm_for (nm_rehome T) [0..<old_capacity] m) (nm_for (nm_close T) (rev [0..<old_capacity]))))"

definition nm_insert :: "('k, 'v) nm_traits \<Rightarrow> 'v \<Rightarrow> 'v node_map \<Rightarrow> (u64 \<times> 'v node_map) res" where
  "nm_insert T node m =
     (let m = m\<lparr>nm_count := nm_count m + 1\<rparr> in
      bindE (if nm_threshold m < nm_count m then nm_grow T m else Inr m) (\<lambda>m.
      nm_insert_loop (nm_fuel m) T m node (nm_mod m (nt_hash T (nt_key T node))) 0 None))"

text \<open>\<open>operator[]\<close>: \<open>fresh key\<close> is a default constructed node with its key set.\<close>

definition nm_index :: "('k, 'v) nm_traits \<Rightarrow> ('k \<Rightarrow> 'v) \<Rightarrow> 'k \<Rightarrow> 'v node_map \<Rightarrow> (u64 \<times> 'v node_map) res" where
  "nm_index T fresh key m =
     bindE (nm_lookup T key m) (\<lambda>r. case r of
        Some slot \<Rightarrow> Inr (slot, m)
      | None \<Rightarrow> nm_insert T (fresh key) m)"

definition nm_erase :: "('k, 'v) nm_traits \<Rightarrow> 'k \<Rightarrow> 'v node_map \<Rightarrow> (bool \<times> 'v node_map) res" where
  "nm_erase T key m =
     bindE (nm_lookup T key m) (\<lambda>r. case r of
        None \<Rightarrow> Inr (False, m)
      | Some slot \<Rightarrow>
          bindE (array_set (nm_nodes m) (unat slot) None) (\<lambda>t.
          let m = m\<lparr>nm_nodes := t, nm_count := nm_count m - 1\<rparr> in
          bindE (nm_fixup (nm_fuel m) T slot m) (\<lambda>m. Inr (True, m))))"

text \<open>\<open>node_set\<close>: the items are their own keys.\<close>

definition ns_contains :: "('k, 'k) nm_traits \<Rightarrow> 'k \<Rightarrow> 'k node_map \<Rightarrow> bool res" where
  "ns_contains T item m = bindE (nm_lookup T item m) (\<lambda>r. Inr (r \<noteq> None))"

definition ns_add :: "('k, 'k) nm_traits \<Rightarrow> 'k \<Rightarrow> 'k node_map \<Rightarrow> (bool \<times> 'k node_map) res" where
  "ns_add T item m =
     bindE (ns_contains T item m) (\<lambda>b.
     if b then Inr (False, m) else bindE (nm_insert T item m) (\<lambda>(_, m). Inr (True, m)))"

definition ns_remove :: "('k, 'k) nm_traits \<Rightarrow> 'k \<Rightarrow> 'k node_map \<Rightarrow> (bool \<times> 'k node_map) res" where
  "ns_remove T item m = nm_erase T item m"


section \<open>The loops against the algorithm\<close>

definition nm_home :: "('k, 'v) nm_traits \<Rightarrow> nat \<Rightarrow> 'v \<Rightarrow> nat" where
  "nm_home T n x = unat (nt_hash T (nt_key T x)) mod n"

definition nm_shape :: "'v node_map \<Rightarrow> bool" where
  "nm_shape m \<longleftrightarrow> (\<exists>k\<le>56. unat (nm_capacity m) = 2 ^ k) \<and> length (nm_nodes m) = unat (nm_capacity m)"

lemma nm_shapeE:
  assumes "nm_shape m"
  obtains k where "k \<le> 56" "unat (nm_capacity m) = 2 ^ k" "length (nm_nodes m) = 2 ^ k" "k < 63" "(2::nat) ^ k \<le> 2 ^ 56"
proof -
  obtain k where k: "k \<le> 56" "unat (nm_capacity m) = 2 ^ k" "length (nm_nodes m) = 2 ^ k"
    using assms by (auto simp: nm_shape_def)
  have "(2::nat) ^ k \<le> 2 ^ 56" using k(1) by (intro power_increasing) auto
  with k that show ?thesis by simp
qed

lemma nm_shape_facts:
  assumes "nm_shape m" "unat i < unat (nm_capacity m)"
  shows "unat (nm_mod m (i + 1)) = nxt (unat (nm_capacity m)) (unat i)"
    "unat (nm_psl T m x i) = dst (unat (nm_capacity m)) (nm_home T (unat (nm_capacity m)) x) (unat i)"
    "unat (nm_mod m (i + 1)) < unat (nm_capacity m)"
proof -
  obtain k where k: "unat (nm_capacity m) = 2 ^ k" "k < 63" using nm_shapeE [OF assms(1)] by metis
  show a: "unat (nm_mod m (i + 1)) = nxt (unat (nm_capacity m)) (unat i)"
    unfolding nm_mod_def by (rule mask_next [OF k assms(2)])
  show "unat (nm_psl T m x i) = dst (unat (nm_capacity m)) (nm_home T (unat (nm_capacity m)) x) (unat i)"
    unfolding nm_psl_def nm_mod_def nm_home_def by (rule mask_offset [OF k assms(2)])
  show "unat (nm_mod m (i + 1)) < unat (nm_capacity m)" using a assms(2) by simp
qed

lemma nm_mod_hash: "nm_shape m \<Longrightarrow> unat (nm_mod m h) = unat h mod unat (nm_capacity m)"
  by (erule nm_shapeE) (simp add: nm_mod_def unat_and_mask)

lemma nm_home_less: "nm_shape m \<Longrightarrow> nm_home T (unat (nm_capacity m)) x < unat (nm_capacity m)"
  by (erule nm_shapeE) (simp add: nm_home_def)

lemma nm_insert_loop_rh:
  assumes "nm_shape m" "unat i < unat (nm_capacity m)" "unat d + fuel < 2 ^ 63"
  shows "map_sum id snd (nm_insert_loop fuel T m x i d found) =
     (case rh_insert fuel (nm_home T (unat (nm_capacity m))) (nm_nodes m) x (unat i) (unat d) of
        None \<Rightarrow> Inl Diverges | Some t \<Rightarrow> Inr (m\<lparr>nm_nodes := t\<rparr>))"
  using assms
proof (induction fuel arbitrary: m x i d found)
  case (Suc fuel)
  let ?n = "unat (nm_capacity m)"
  have len: "length (nm_nodes m) = ?n" using Suc.prems(1) by (simp add: nm_shape_def)
  note F = nm_shape_facts [OF Suc.prems(1,2)]
  show ?case
  proof (cases "nm_nodes m ! unat i")
    case None
    then show ?thesis using Suc.prems(2) len by simp
  next
    case (Some y)
    let ?p = "nm_psl T m y i"
    have p1: "unat (?p + 1) = unat ?p + 1" if "?p < d"
      using that Suc.prems(3) by (simp add: word_less_nat_alt unat_add_no_wrap)
    have d1: "unat (d + 1) = unat d + 1" using Suc.prems(3) by (simp add: unat_add_no_wrap)
    show ?thesis
    proof (cases "?p < d")
      case True
      let ?m = "m\<lparr>nm_nodes := (nm_nodes m)[unat i := Some x]\<rparr>"
      have "map_sum id snd (nm_insert_loop fuel T ?m y (nm_mod m (i + 1)) (?p + 1) (Some (case found of None \<Rightarrow> i | Some i \<Rightarrow> i))) =
        (case rh_insert fuel (nm_home T ?n) (nm_nodes ?m) y (nxt ?n (unat i)) (unat ?p + 1) of
           None \<Rightarrow> Inl Diverges | Some t \<Rightarrow> Inr (?m\<lparr>nm_nodes := t\<rparr>))"
        using Suc.IH [of ?m "nm_mod m (i + 1)" "?p + 1" y "Some (case found of None \<Rightarrow> i | Some i \<Rightarrow> i)"]
          Suc.prems F(1,3) p1 [OF True] True len
        by (simp add: word_less_nat_alt nm_shape_def id_def)
      then show ?thesis using Some True Suc.prems(2) len F(2) [of T y]
        by (simp add: Let_def word_less_nat_alt id_def split: option.split)
    next
      case False
      then have "map_sum id snd (nm_insert_loop fuel T m x (nm_mod m (i + 1)) (d + 1) found) =
        (case rh_insert fuel (nm_home T ?n) (nm_nodes m) x (nxt ?n (unat i)) (unat d + 1) of
           None \<Rightarrow> Inl Diverges | Some t \<Rightarrow> Inr (m\<lparr>nm_nodes := t\<rparr>))"
        using Suc.IH [OF Suc.prems(1) F(3), of "d + 1" x found] Suc.prems(3) F(1) d1 by (simp add: id_def)
      then show ?thesis using Some False Suc.prems(2) len F(2) [of T y] by (simp add: Let_def word_less_nat_alt id_def)
    qed
  qed
qed simp

lemma nm_lookup_loop_rh:
  assumes "nm_shape m" "unat i < unat (nm_capacity m)" "unat d + fuel < 2 ^ 63" "key \<noteq> nt_invalid T"
  shows "map_sum id (map_option unat) (nm_lookup_loop fuel T m key i d) =
     (case rh_lookup fuel True (nm_home T (unat (nm_capacity m))) (\<lambda>x. nt_key T x = key) (nm_nodes m) (unat i) (unat d) of
        None \<Rightarrow> Inl Diverges | Some r \<Rightarrow> Inr r)"
  using assms(2,3)
proof (induction fuel arbitrary: i d)
  case (Suc fuel)
  have len: "length (nm_nodes m) = unat (nm_capacity m)" using assms(1) by (simp add: nm_shape_def)
  note F = nm_shape_facts [OF assms(1) Suc.prems(1)]
  have d1: "unat (d + 1) = unat d + 1" using Suc.prems(2) by (simp add: unat_add_no_wrap)
  show ?case
  proof (cases "nm_nodes m ! unat i")
    case None
    then show ?thesis using Suc.prems len assms(4) by (auto simp: nm_key_at_def)
  next
    case (Some y)
    then show ?thesis using Suc.IH [OF F(3), of "d + 1"] Suc.prems F(1) F(2) [of T y] d1 len
      by (simp add: word_less_nat_alt nm_key_at_def id_def)
  qed
qed simp

text \<open>
  \<open>fixup\<close> is the backward shift as long as it stops before the slot runs past the table: at a slot
  above the hole, or at slot zero, that is open or holds a node at home.
\<close>

definition nm_stop :: "('k, 'v) nm_traits \<Rightarrow> 'v table \<Rightarrow> nat \<Rightarrow> bool" where
  "nm_stop T t j \<longleftrightarrow> (case t ! j of None \<Rightarrow> True | Some x \<Rightarrow> nm_home T (length t) x = j)"

lemma nm_stop_update: "j \<noteq> i \<Longrightarrow> nm_stop T (t[i := c]) j = nm_stop T t j"
  by (cases "t ! j") (simp_all add: nm_stop_def)

lemma nm_fixup_rh:
  assumes "nm_shape m" "unat i < e" "e \<le> unat (nm_capacity m)" "e mod unat (nm_capacity m) \<noteq> unat i"
    "nm_stop T (nm_nodes m) (e mod unat (nm_capacity m))"
  shows "nm_fixup fuel T i m =
     (case rh_shift fuel (nm_home T (unat (nm_capacity m))) (nm_nodes m) (unat i) of
        None \<Rightarrow> Inl Diverges | Some t \<Rightarrow> Inr (m\<lparr>nm_nodes := t\<rparr>))"
  using assms
proof (induction fuel arbitrary: m i)
  case (Suc fuel)
  let ?n = "unat (nm_capacity m)" and ?j = "nm_mod m (i + 1)"
  have i: "unat i < ?n" using Suc.prems(2,3) by simp
  have len: "length (nm_nodes m) = ?n" using Suc.prems(1) by (simp add: nm_shape_def)
  note F = nm_shape_facts [OF Suc.prems(1) i]
  show ?case
  proof (cases "nm_nodes m ! nxt ?n (unat i)")
    case None
    then show ?thesis using F(1,3) len i by (simp add: Let_def)
  next
    case (Some y)
    have "unat (nm_psl T m y ?j) = dst ?n (nm_home T ?n y) (nxt ?n (unat i))"
      using nm_shape_facts(2) [OF Suc.prems(1) F(3), of T y] F(1) by simp
    then have z: "nm_psl T m y ?j = 0 \<longleftrightarrow> nm_home T ?n y = nxt ?n (unat i)"
      using dst_eq_0 [OF nm_home_less [OF Suc.prems(1), of T y] nxt_less [OF i]] by (metis unat_eq_0_iff)
    show ?thesis
    proof (cases "nm_home T ?n y = nxt ?n (unat i)")
      case True
      then show ?thesis using Some z F(1,3) len by (simp add: Let_def)
    next
      case False
      have ne: "Suc (unat i) \<noteq> e"
      proof
        assume e: "Suc (unat i) = e"
        then have "nxt ?n (unat i) = e mod ?n" using Suc.prems(3) by (auto simp: nxt_def)
        with Suc.prems(5) Some False len show False by (simp add: nm_stop_def)
      qed
      then have up: "Suc (unat i) < e" "Suc (unat i) < ?n" using Suc.prems(2,3) by simp_all
      then have u1: "unat (i + 1) = Suc (unat i)" "nxt ?n (unat i) = Suc (unat i)"
        by (simp_all add: nxt_def unat_add_bounded [of i 1 "nm_capacity m"])
      let ?m = "m\<lparr>nm_nodes := (nm_nodes m)[unat i := Some y, Suc (unat i) := None]\<rparr>"
      have e: "e mod ?n \<noteq> Suc (unat i)" using up Suc.prems(3) by (cases "e = ?n") simp_all
      have "nm_fixup fuel T (i + 1) ?m =
         (case rh_shift fuel (nm_home T ?n) (nm_nodes ?m) (Suc (unat i)) of None \<Rightarrow> Inl Diverges | Some t \<Rightarrow> Inr (?m\<lparr>nm_nodes := t\<rparr>))"
        using Suc.IH [of ?m "i + 1"] Suc.prems u1 up e len by (simp add: nm_shape_def nm_stop_update)
      then show ?thesis using Some False z F(1,3) len i u1 by (simp add: Let_def split: option.split)
    qed
  qed
qed simp


section \<open>Representation\<close>

definition nm_rep :: "('k, 'v) nm_traits \<Rightarrow> 'v node_map \<Rightarrow> ('k \<rightharpoonup> 'v) \<Rightarrow> bool" where
  "nm_rep T m f \<longleftrightarrow>
     finite (dom f) \<and> unat (nm_count m) = card (dom f) \<and>
     (\<forall>k v. f k = Some v \<longrightarrow> nt_key T v = k \<and> k \<noteq> nt_invalid T) \<and>
     (if nm_capacity m = 0 then nm_nodes m = [] \<and> dom f = {}
      else nm_shape m \<and> rh_inv (nm_home T (unat (nm_capacity m))) (nm_nodes m) \<and>
        unat (nm_count m) \<le> unat (nm_capacity m) * 90 div 100 \<and>
        rh_nodes (nm_nodes m) = mset_set (ran f))"

lemma nm_repD:
  assumes "nm_rep T m f" "nm_capacity m \<noteq> 0"
  shows "finite (dom f)" "unat (nm_count m) = card (dom f)" "\<And>k v. f k = Some v \<Longrightarrow> nt_key T v = k \<and> k \<noteq> nt_invalid T"
    "nm_shape m" "rh_inv (nm_home T (unat (nm_capacity m))) (nm_nodes m)"
    "unat (nm_count m) \<le> unat (nm_capacity m) * 90 div 100" "rh_nodes (nm_nodes m) = mset_set (ran f)"
    "length (nm_nodes m) = unat (nm_capacity m)"
  using assms by (auto simp: nm_rep_def nm_shape_def)

lemma ran_card:
  assumes "finite (dom f)" "\<And>k v. f k = Some v \<Longrightarrow> g v = k"
  shows "card (ran f) = card (dom f)" "finite (ran f)"
proof -
  have "ran f = (\<lambda>k. the (f k)) ` dom f" by (force simp: ran_def)
  moreover have "inj_on (\<lambda>k. the (f k)) (dom f)" using assms(2) by (intro inj_onI) (auto, metis)
  ultimately show "card (ran f) = card (dom f)" "finite (ran f)" using assms(1) by (simp_all add: card_image)
qed

lemma nm_rep_room:
  assumes "nm_rep T m f" "nm_capacity m \<noteq> 0"
  shows "size (rh_nodes (nm_nodes m)) < length (nm_nodes m)"
proof -
  note D = nm_repD [OF assms]
  have "0 < unat (nm_capacity m)" using assms(2) by (simp add: unat_gt_0)
  then have "unat (nm_capacity m) * 90 div 100 < unat (nm_capacity m)" by simp
  moreover have "card (ran f) = card (dom f)" using D(1,3) by (intro ran_card(1) [where g = "nt_key T"]) auto
  ultimately show ?thesis using D(2,6,7,8) by simp
qed

lemma nm_lookup_rep:
  assumes r: "nm_rep T m f" and k: "k \<noteq> nt_invalid T"
  shows "if k \<in> dom f then (\<exists>i. nm_lookup T k m = Inr (Some i) \<and> unat i < length (nm_nodes m) \<and> nm_nodes m ! unat i = f k)
         else nm_lookup T k m = Inr None"
proof (cases "nm_count m = 0")
  case True
  then have "dom f = {}" using r by (auto simp: nm_rep_def)
  then show ?thesis using True by (auto simp: nm_lookup_def)
next
  case False
  then have c: "nm_capacity m \<noteq> 0" using r by (auto simp: nm_rep_def)
  note D = nm_repD [OF r c]
  let ?n = "unat (nm_capacity m)" and ?match = "\<lambda>x. nt_key T x = k" and ?M = "rh_nodes (nm_nodes m)"
  let ?h = "unat (nt_hash T k) mod ?n"
  obtain e where e: "(2::nat) ^ e \<le> 2 ^ 56" "?n = 2 ^ e" using nm_shapeE [OF D(4)] by metis
  have fuel: "length (nm_nodes m) < nm_fuel m" "unat (0::u64) + nm_fuel m < 2 ^ 63" using D(8) e by (simp_all add: nm_fuel_def)
  have h: "unat (nm_mod m (nt_hash T k)) = ?h" by (rule nm_mod_hash [OF D(4)])
  have hl: "?h < ?n" using e(2) by simp
  have fr: "finite (ran f)" using D(1,3) by (intro ran_card(2) [where g = "nt_key T"]) auto
  have mem: "y \<in># ?M \<longleftrightarrow> f (nt_key T y) = Some y" for y using fr D(3) unfolding D(7) by (auto simp: ran_def)
  let ?look = "rh_lookup (nm_fuel m) True (nm_home T ?n) ?match (nm_nodes m) ?h 0"
  have l: "map_sum id (map_option unat) (nm_lookup T k m) = (case ?look of None \<Rightarrow> Inl Diverges | Some r \<Rightarrow> Inr r)"
    using nm_lookup_loop_rh [OF D(4) _ fuel(2) k, of "nm_mod m (nt_hash T k)"] h hl False by (simp add: nm_lookup_def)
  have "(\<exists>j x. ?look = Some (Some j) \<and> j < length (nm_nodes m) \<and> nm_nodes m ! j = Some x \<and> ?match x) \<or>
        ?look = Some None \<and> (\<forall>y. y \<in># ?M \<longrightarrow> \<not> ?match y)"
  proof (rule rh_lookup_home [OF D(5) _ nm_rep_room [OF r c] fuel(1)])
    show "?h < length (nm_nodes m)" using hl D(8) by simp
    show "nm_home T ?n y = ?h" if "y \<in># ?M" "?match y" for y using that by (simp add: nm_home_def)
    show "y = z \<and> count ?M y = 1" if "y \<in># ?M" "z \<in># ?M" "?match y" "?match z" for y z
    proof -
      have "y = z" using that by (simp add: mem)
      moreover have "count ?M y = 1" using that(1) fr unfolding D(7) by simp
      ultimately show ?thesis by simp
    qed
  qed
  then show ?thesis
  proof (elim disjE exE conjE)
    fix j x assume j: "?look = Some (Some j)" "j < length (nm_nodes m)" "nm_nodes m ! j = Some x" "?match x"
    then have "x \<in># ?M" by (auto simp: rh_nodes_iff)
    then have x: "f k = Some x" using j(4) by (simp add: mem)
    from l j(1) obtain i where "nm_lookup T k m = Inr (Some i)" "unat i = j" by (auto simp: map_sum_Inr_iff)
    with x j show ?thesis by auto
  next
    assume j: "?look = Some None" "\<forall>y. y \<in># ?M \<longrightarrow> \<not> ?match y"
    have "k \<notin> dom f"
    proof
      assume "k \<in> dom f"
      then obtain y where y: "f k = Some y" by blast
      then have "nt_key T y = k" using D(3) by blast
      with j(2) y show False by (auto simp: mem)
    qed
    with l j(1) show ?thesis by (auto simp: map_sum_Inr_iff)
  qed
qed

lemma nm_find_rep:
  assumes "nm_rep T m f" "k \<noteq> nt_invalid T"
  shows "nm_find T k m = Inr (f k)"
proof (cases "k \<in> dom f")
  case True
  then show ?thesis using nm_lookup_rep [OF assms] by (auto simp: nm_find_def)
next
  case False
  then have "f k = None" by (simp add: domIff)
  with False show ?thesis using nm_lookup_rep [OF assms] by (simp add: nm_find_def)
qed

text \<open>An insertion that does not grow the table: the result is the new slot of the node.\<close>

lemma nm_insert_rep:
  assumes r: "nm_rep T m f" and k: "f (nt_key T x) = None" "nt_key T x \<noteq> nt_invalid T"
    and room: "Suc (card (dom f)) \<le> unat (nm_capacity m) * 90 div 100"
  shows "\<exists>i m'. nm_insert T x m = Inr (i, m') \<and> nm_rep T m' (f(nt_key T x \<mapsto> x)) \<and> nm_capacity m' = nm_capacity m"
proof -
  have c: "nm_capacity m \<noteq> 0" using room by (auto intro: ccontr)
  note D = nm_repD [OF r c]
  let ?n = "unat (nm_capacity m)" and ?m = "m\<lparr>nm_count := nm_count m + 1\<rparr>" and ?M = "rh_nodes (nm_nodes m)"
  obtain e where e: "(2::nat) ^ e \<le> 2 ^ 56" "?n = 2 ^ e" using nm_shapeE [OF D(4)] by metis
  have fuel: "length (nm_nodes m) < nm_fuel ?m" "unat (0::u64) + nm_fuel ?m < 2 ^ 63" using D(8) e by (simp_all add: nm_fuel_def)
  have cnt: "unat (nm_count ?m) = Suc (card (dom f))" using D(2) room e by (simp add: unat_add_no_wrap)
  have "unat (nm_capacity m * nm_max_load) = ?n * 90" using e by (simp add: nm_max_load_def unat_mult_no_wrap)
  then have "unat (nm_threshold ?m) = ?n * 90 div 100" by (simp add: nm_threshold_def unat_div)
  then have th: "\<not> nm_threshold ?m < nm_count ?m" using cnt room by (simp add: word_less_nat_alt)
  have hl: "nm_home T ?n x < length (nm_nodes m)" using nm_home_less [OF D(4), of T x] D(8) by simp
  from rh_insert_home [OF D(5) hl nm_rep_room [OF r c] fuel(1)] obtain t where
    t: "rh_insert (nm_fuel ?m) (nm_home T ?n) (nm_nodes m) x (nm_home T ?n x) 0 = Some t" "length t = length (nm_nodes m)"
      "rh_inv (nm_home T ?n) t" "rh_nodes t = add_mset x ?M" by blast
  have sh: "nm_shape ?m" using D(4) by (simp add: nm_shape_def)
  have hs: "unat (nm_mod ?m (nt_hash T (nt_key T x))) = nm_home T ?n x" using nm_mod_hash [OF sh] by (simp add: nm_home_def)
  have "map_sum id snd (nm_insert T x m) = Inr (?m\<lparr>nm_nodes := t\<rparr>)"
    using nm_insert_loop_rh [OF sh _ fuel(2), of "nm_mod ?m (nt_hash T (nt_key T x))" T x None] t(1) hs hl D(8) th
    by (simp add: nm_insert_def Let_def)
  then obtain i where i: "nm_insert T x m = Inr (i, ?m\<lparr>nm_nodes := t\<rparr>)" by (auto simp: map_sum_Inr_iff)
  have xr: "x \<notin> ran f" using D(3) k(1) by (auto simp: ran_def)
  have "finite (ran f)" using D(1,3) by (intro ran_card(2) [where g = "nt_key T"]) auto
  then have "rh_nodes t = mset_set (ran (f(nt_key T x \<mapsto> x)))" using t(4) D(7) k(1) xr by (simp add: ran_map_upd)
  then have "nm_rep T (?m\<lparr>nm_nodes := t\<rparr>) (f(nt_key T x \<mapsto> x))"
    using D k t(2,3) c cnt room by (auto simp: nm_rep_def nm_shape_def card_insert_if domIff)
  with i show ?thesis by auto
qed

text \<open>An erasure in a table whose first slot is open or holds a node at home.\<close>

lemma nm_erase_rep:
  assumes r: "nm_rep T m f" and k: "k \<noteq> nt_invalid T" and stop: "nm_stop T (nm_nodes m) 0"
  shows "\<exists>m'. nm_erase T k m = Inr (f k \<noteq> None, m') \<and> nm_rep T m' (f(k := None))"
proof (cases "f k")
  case None
  then have "nm_erase T k m = Inr (False, m)" using nm_lookup_rep [OF r k] by (simp add: nm_erase_def domIff)
  moreover have "f(k := None) = f" using None by (simp add: fun_upd_idem)
  ultimately show ?thesis using r None by simp
next
  case (Some x)
  then have c: "nm_capacity m \<noteq> 0" using r by (auto simp: nm_rep_def)
  note D = nm_repD [OF r c]
  let ?n = "unat (nm_capacity m)"
  obtain i where i: "nm_lookup T k m = Inr (Some i)" "unat i < length (nm_nodes m)" "nm_nodes m ! unat i = Some x"
    using nm_lookup_rep [OF r k] Some by (auto simp: domI)
  have "length (nm_nodes m) \<le> nm_fuel m" using D(8) by (simp add: nm_fuel_def)
  from rh_delete [OF D(5) i(2,3) nm_rep_room [OF r c] this] obtain t where
    t: "rh_shift (nm_fuel m) (nm_home T ?n) ((nm_nodes m)[unat i := None]) (unat i) = Some t" "length t = length (nm_nodes m)"
      "rh_inv (nm_home T ?n) t" "add_mset x (rh_nodes t) = rh_nodes (nm_nodes m)" by blast
  let ?m1 = "m\<lparr>nm_nodes := (nm_nodes m)[unat i := None], nm_count := nm_count m - 1\<rparr>"
  let ?m = "m\<lparr>nm_nodes := t, nm_count := nm_count m - 1\<rparr>"
  have sh: "nm_shape ?m1" using D(4) by (simp add: nm_shape_def)
  obtain e where e: "unat i < e" "e \<le> ?n" "e mod ?n \<noteq> unat i" "nm_stop T (nm_nodes m) (e mod ?n)"
  proof (cases "unat i = 0")
    case True
    obtain j where j: "j < length (nm_nodes m)" "nm_nodes m ! j = None" using rh_empty_slot [OF nm_rep_room [OF r c]] by blast
    then have "j \<noteq> 0" using i(3) True by (intro notI) simp
    with j True D(8) that [of j] show ?thesis by (simp add: nm_stop_def)
  next
    case False
    then show ?thesis using that [of ?n] stop i(2) D(8) by simp
  qed
  have "nm_fixup (nm_fuel m) T i ?m1 = Inr ?m"
    using nm_fixup_rh [OF sh, of i e T "nm_fuel m"] e t(1) by (simp add: nm_stop_update)
  moreover have "nm_fuel ?m1 = nm_fuel m" by (simp add: nm_fuel_def)
  ultimately have er: "nm_erase T k m = Inr (True, ?m)" using i by (simp add: nm_erase_def Let_def)
  have fr: "finite (ran f)" using D(1,3) by (intro ran_card(2) [where g = "nt_key T"]) auto
  have kx: "nt_key T x = k" using D(3) Some by blast
  have uniq: "a = k" if "f a = Some x" for a using D(3) [OF that] kx by simp
  have "ran (f(k := None)) = {v. \<exists>a. a \<noteq> k \<and> f a = Some v}" by (auto simp: ran_def)
  also have "\<dots> = ran f - {x}"
  proof (intro set_eqI iffI)
    fix v assume "v \<in> ran f - {x}"
    then obtain a where "f a = Some v" "v \<noteq> x" by (auto simp: ran_def)
    then show "v \<in> {v. \<exists>a. a \<noteq> k \<and> f a = Some v}" using Some by (intro CollectI exI [of _ a]) auto
  qed (use uniq in \<open>auto simp: ran_def\<close>)
  finally have "ran (f(k := None)) = ran f - {x}" .
  moreover have "x \<in> ran f" using Some by (rule ranI)
  ultimately have "rh_nodes t = mset_set (ran (f(k := None)))"
    using t(4) D(7) fr by (metis add_mset_remove_trivial mset_set.remove)
  moreover have "unat (nm_count m - 1) = card (dom f) - 1"
  proof -
    have "card (dom f) \<noteq> 0" using Some D(1) by auto
    then have "nm_count m \<noteq> 0" using D(2) by auto
    then show ?thesis using D(2) by (simp add: unat_minus_one)
  qed
  ultimately have "nm_rep T ?m (f(k := None))"
    using D c t(2,3) Some by (auto simp: nm_rep_def nm_shape_def card_Diff_singleton domI)
  with er Some show ?thesis by auto
qed


section \<open>Growing\<close>

text \<open>Growing moves nodes around but never loses or invents one, in whatever order they are.\<close>

lemma nm_reinsert_nodes:
  assumes "nm_reinsert_loop fuel T m src slot dist = Inr m'" "nm_nodes m ! src = Some y"
  shows "nm_capacity m' = nm_capacity m \<and> nm_count m' = nm_count m \<and> length (nm_nodes m') = length (nm_nodes m) \<and>
     (\<exists>z. nm_nodes m' ! src = Some z \<and> rh_nodes (nm_nodes m') = add_mset z (rh_nodes (nm_nodes m)))"
  using assms
proof (induction fuel arbitrary: m slot dist y)
  case (Suc fuel)
  let ?t = "nm_nodes m"
  have src: "src < length ?t" and sl: "unat slot < length ?t"
    using Suc.prems(1) by (auto simp: bindE_Inr_iff array_get_Inr_iff)
  show ?case
  proof (cases "?t ! unat slot")
    case None
    then have ne: "unat slot \<noteq> src" using Suc.prems(2) by auto
    have "m' = m\<lparr>nm_nodes := ?t[unat slot := Some y]\<rparr>" using Suc.prems None src sl by simp
    then show ?thesis using ne Suc.prems(2) None sl by (simp add: rh_nodes_fill)
  next
    case (Some x)
    show ?thesis
    proof (cases "nm_psl T m x slot < dist")
      case True
      let ?m = "m\<lparr>nm_nodes := ?t[src := Some x, unat slot := Some y]\<rparr>"
      have rec: "nm_reinsert_loop fuel T ?m src (nm_mod m (slot + 1)) (nm_psl T m x slot + 1) = Inr m'"
        using Suc.prems Some True src sl by (simp add: Let_def)
      have at: "nm_nodes ?m ! src = Some (if unat slot = src then y else x)" using src by auto
      have "rh_nodes (nm_nodes ?m) = rh_nodes ?t"
      proof (cases "unat slot = src")
        case True
        then have "?t[src := Some x, unat slot := Some y] = ?t" using Suc.prems(2) by (metis list_update_id list_update_overwrite)
        then show ?thesis by simp
      next
        case False
        have "add_mset y (rh_nodes (?t[src := Some x])) = add_mset x (rh_nodes ?t)" by (rule rh_nodes_swap [OF src Suc.prems(2)])
        moreover have "add_mset x (rh_nodes (?t[src := Some x, unat slot := Some y])) = add_mset y (rh_nodes (?t[src := Some x]))"
          using False sl Some by (intro rh_nodes_swap) auto
        ultimately have "add_mset x (rh_nodes (nm_nodes ?m)) = add_mset x (rh_nodes ?t)" by simp
        then show ?thesis by simp
      qed
      with Suc.IH [OF rec at] show ?thesis by simp
    next
      case False
      then have "nm_reinsert_loop fuel T m src (nm_mod m (slot + 1)) (dist + 1) = Inr m'"
        using Suc.prems Some src sl by (simp add: Let_def)
      from Suc.IH [OF this Suc.prems(2)] show ?thesis .
    qed
  qed
qed simp


text \<open>What every step of growing keeps.\<close>

definition nm_same :: "'v node_map \<Rightarrow> 'v node_map \<Rightarrow> bool" where
  "nm_same m m' \<longleftrightarrow> nm_capacity m' = nm_capacity m \<and> nm_count m' = nm_count m \<and>
     length (nm_nodes m') = length (nm_nodes m) \<and> rh_nodes (nm_nodes m') = rh_nodes (nm_nodes m)"

lemma nm_same_refl [simp]: "nm_same m m"
  by (simp add: nm_same_def)

lemma nm_same_trans: "nm_same a b \<Longrightarrow> nm_same b c \<Longrightarrow> nm_same a c"
  by (simp add: nm_same_def)

lemma nm_rehome_same: "nm_rehome T s m = Inr m' \<Longrightarrow> nm_same m m'"
proof -
  assume a: "nm_rehome T s m = Inr m'"
  then have s: "s < length (nm_nodes m)" by (auto simp: nm_rehome_def bindE_Inr_iff array_get_Inr_iff)
  show ?thesis
  proof (cases "nm_nodes m ! s")
    case None
    then show ?thesis using a s by (simp add: nm_rehome_def)
  next
    case (Some x)
    show ?thesis
    proof (cases "unat (nm_mod m (nt_hash T (nt_key T x))) \<le> s")
      case True
      then show ?thesis using a s Some by (simp add: nm_rehome_def Let_def)
    next
      case False
      then obtain m1 where m1: "nm_reinsert_loop (nm_fuel m) T m s (nm_mod m (nt_hash T (nt_key T x))) 0 = Inr m1"
          "m' = m1\<lparr>nm_nodes := (nm_nodes m1)[s := None]\<rparr>" "s < length (nm_nodes m1)"
        using a s Some by (auto simp: nm_rehome_def Let_def bindE_Inr_iff array_set_Inr_iff)
      from nm_reinsert_nodes [OF m1(1) Some] obtain z where
        z: "nm_capacity m1 = nm_capacity m" "nm_count m1 = nm_count m" "length (nm_nodes m1) = length (nm_nodes m)"
          "nm_nodes m1 ! s = Some z" "rh_nodes (nm_nodes m1) = add_mset z (rh_nodes (nm_nodes m))" by blast
      then show ?thesis using m1(2) rh_nodes_clear [OF m1(3) z(4)] by (simp add: nm_same_def)
    qed
  qed
qed

lemma nm_fixup_same:
  assumes "nm_fixup fuel T slot m = Inr m'" "nm_shape m" "1 < unat (nm_capacity m)" "unat slot \<le> unat (nm_capacity m)"
    "unat slot < unat (nm_capacity m) \<longrightarrow> nm_nodes m ! unat slot = None"
  shows "nm_same m m'"
  using assms
proof (induction fuel arbitrary: slot m)
  case (Suc fuel)
  let ?n = "unat (nm_capacity m)" and ?j = "nm_mod m (slot + 1)" and ?t = "nm_nodes m"
  have len: "length ?t = ?n" using Suc.prems(2) by (simp add: nm_shape_def)
  have j: "unat ?j < ?n" using nm_mod_hash [OF Suc.prems(2), of "slot + 1"] Suc.prems(3) by simp
  show ?case
  proof (cases "nm_stop T ?t (unat ?j)")
    case True
    have "nm_psl T m y ?j = 0" if "?t ! unat ?j = Some y" for y
    proof -
      have "unat (nm_psl T m y ?j) = 0"
        using that True len nm_shape_facts(2) [OF Suc.prems(2) j, of T y] by (simp add: nm_stop_def)
      then show ?thesis by simp
    qed
    then have "m' = m" using Suc.prems(1) j len by (auto simp: Let_def split: option.splits)
    then show ?thesis by simp
  next
    case False
    then obtain y where y: "?t ! unat ?j = Some y" "nm_home T ?n y \<noteq> unat ?j"
      using len by (auto simp: nm_stop_def split: option.splits)
    have "nm_psl T m y ?j \<noteq> 0"
      using nm_shape_facts(2) [OF Suc.prems(2) j, of T y] dst_eq_0 [OF nm_home_less [OF Suc.prems(2), of T y] j] y(2)
      by (metis unat_0)
    then obtain t where t: "unat slot < ?n" "t = ?t[unat slot := Some y, unat ?j := None]"
        "nm_fixup fuel T (slot + 1) (m\<lparr>nm_nodes := t\<rparr>) = Inr m'"
      using Suc.prems(1) j len y(1) by (auto simp: Let_def bindE_Inr_iff array_set_Inr_iff)
    have jn: "unat ?j = nxt ?n (unat slot)" by (rule nm_shape_facts(1) [OF Suc.prems(2) t(1)])
    have ne: "unat ?j \<noteq> unat slot" unfolding jn using Suc.prems(3) by (auto simp: nxt_def simp del: unat_eq_0_iff)
    have s1: "unat (slot + 1) = Suc (unat slot)" using t(1) by (simp add: unat_add_bounded [of slot 1 "nm_capacity m"])
    have "rh_nodes (?t[unat slot := Some y]) = add_mset y (rh_nodes ?t)" using Suc.prems(5) t(1) len by (intro rh_nodes_fill) auto
    moreover have "rh_nodes (?t[unat slot := Some y]) = add_mset y (rh_nodes t)"
      unfolding t(2) using j ne y(1) len by (intro rh_nodes_clear) auto
    ultimately have "nm_same m (m\<lparr>nm_nodes := t\<rparr>)" by (simp add: nm_same_def t(2))
    moreover have "nm_same (m\<lparr>nm_nodes := t\<rparr>) m'"
      using Suc.IH [OF t(3)] Suc.prems(2,3) t(1,2) s1 jn len by (auto simp: nm_shape_def nxt_def)
    ultimately show ?thesis by (rule nm_same_trans)
  qed
qed simp

lemma nm_same_shape: "nm_same m m' \<Longrightarrow> nm_shape m \<Longrightarrow> nm_shape m'"
  by (simp add: nm_same_def nm_shape_def)

lemma nm_for_same:
  assumes "nm_for g is m = Inr m'" "nm_shape m" "\<And>i m m'. nm_shape m \<Longrightarrow> P m \<Longrightarrow> i \<in> set is \<Longrightarrow> g i m = Inr m' \<Longrightarrow> nm_same m m'"
    "\<And>m m'. P m \<Longrightarrow> nm_same m m' \<Longrightarrow> P m'" "P m"
  shows "nm_same m m'"
  using assms
proof (induction "is" arbitrary: m)
  case (Cons i "is")
  then obtain m1 where m1: "g i m = Inr m1" "nm_for g is m1 = Inr m'" by (auto simp: bindE_Inr_iff)
  have 1: "nm_same m m1" using Cons.prems m1(1) by (meson list.set_intros(1))
  have "nm_same m1 m'"
    using Cons.IH [OF m1(2) nm_same_shape [OF 1 Cons.prems(2)]] Cons.prems(3,4,5) 1 by (meson list.set_intros(2))
  with 1 show ?case by (rule nm_same_trans)
qed simp


lemma nm_grow_nodes:
  assumes g: "nm_grow T m = Inr m'" and sh: "nm_capacity m = 0 \<and> nm_nodes m = [] \<or> nm_shape m \<and> unat (nm_capacity m) \<le> 2 ^ 55"
  shows "rh_nodes (nm_nodes m') = rh_nodes (nm_nodes m) \<and> nm_count m' = nm_count m \<and> nm_shape m' \<and>
     16 \<le> unat (nm_capacity m') \<and> 2 * unat (nm_capacity m) \<le> unat (nm_capacity m')"
proof -
  let ?n = "unat (nm_capacity m)" and ?c2 = "nm_capacity m * 2"
  let ?c = "if ?c2 < nm_min_capacity then nm_min_capacity else ?c2"
  let ?m = "m\<lparr>nm_nodes := take ?n (nm_nodes m) @ replicate (unat ?c - ?n) None, nm_capacity := ?c\<rparr>"
  have len: "length (nm_nodes m) = ?n" using sh by (auto simp: nm_shape_def)
  have c: "\<exists>e\<le>56. unat ?c = 2 ^ e \<and> 16 \<le> unat ?c \<and> 2 * ?n \<le> unat ?c"
  proof (cases "nm_capacity m = 0")
    case True
    then show ?thesis by (intro exI [of _ 4]) (simp add: nm_min_capacity_def)
  next
    case False
    then obtain j where j: "?n = 2 ^ j" "(2::nat) ^ j \<le> 2 ^ 55" using sh by (auto elim!: nm_shapeE)
    then have j55: "j \<le> 55" using power_le_imp_le_exp [of 2 j 55] by simp
    have u: "unat ?c2 = 2 ^ Suc j" using j by (simp add: unat_mult_no_wrap)
    show ?thesis
    proof (cases "?c2 < nm_min_capacity")
      case True
      then have "unat ?c2 < 16" by (simp add: nm_min_capacity_def word_less_nat_alt)
      then show ?thesis using True u j(1) by (intro exI [of _ 4]) (simp add: nm_min_capacity_def)
    next
      case False
      then have "16 \<le> unat ?c2" by (simp add: nm_min_capacity_def word_less_nat_alt)
      then show ?thesis using False u j(1) j55 by (intro exI [of _ "Suc j"]) simp
    qed
  qed
  then have shape: "nm_shape ?m" using len by (auto simp: nm_shape_def)
  obtain m1 where m1: "nm_for (nm_rehome T) [0..<?n] ?m = Inr m1" "nm_for (nm_close T) (rev [0..<?n]) m1 = Inr m'"
    using g by (auto simp: nm_grow_def Let_def bindE_Inr_iff)
  have s1: "nm_same ?m m1"
    by (rule nm_for_same [OF m1(1) shape, where P = "\<lambda>_. True"]) (auto dest: nm_rehome_same)
  let ?P = "\<lambda>m. 1 < unat (nm_capacity m)"
  have s2: "nm_same m1 m'"
  proof (rule nm_for_same [OF m1(2) nm_same_shape [OF s1 shape], where P = ?P])
    show "?P m1" using s1 c by (auto simp: nm_same_def)
    show "?P b" if "?P a" "nm_same a b" for a b using that by (simp add: nm_same_def)
    show "nm_same a b" if a: "nm_shape a" "?P a" "i \<in> set (rev [0..<?n])" "nm_close T i a = Inr b" for i a b
    proof -
      have i: "i < length (nm_nodes a)" using a(4) by (auto simp: nm_close_def bindE_Inr_iff array_get_Inr_iff)
      have il: "i < unat (nm_capacity a)" using a(1) i by (simp add: nm_shape_def)
      then have u: "unat (of_nat i :: u64) = i" by (intro unat_of_nat_bounded [of i "nm_capacity a"]) simp
      show ?thesis
      proof (cases "nm_nodes a ! i = None")
        case True
        then have "nm_fixup (nm_fuel a) T (of_nat i) a = Inr b" using a(4) i by (simp add: nm_close_def)
        from nm_fixup_same [OF this a(1,2)] True il u show ?thesis by simp
      qed (use a(4) i in \<open>auto simp: nm_close_def\<close>)
    qed
  qed
  have "rh_nodes (nm_nodes ?m) = rh_nodes (nm_nodes m)" using len by (simp add: rh_nodes_def)
  then show ?thesis using nm_same_trans [OF s1 s2] nm_same_shape [OF nm_same_trans [OF s1 s2] shape] c by (auto simp: nm_same_def)
qed

section \<open>Properties\<close>

text \<open>C39. A node map refines a finite map from keys to nodes as long as it need not grow: a lookup
  returns the node of the key, an insertion of a new key adds it, and an erasure removes it, keeping
  the table a representation of the map. The erasure is right when the first slot of the table is
  open or holds a node at its home.\<close>

theorem node_map_refines:
  assumes "nm_rep T m f"
  shows "(k \<noteq> nt_invalid T \<longrightarrow> nm_find T k m = Inr (f k)) \<and>
    (f (nt_key T x) = None \<longrightarrow> nt_key T x \<noteq> nt_invalid T \<longrightarrow> Suc (card (dom f)) \<le> unat (nm_capacity m) * 90 div 100 \<longrightarrow>
       (\<exists>i m'. nm_insert T x m = Inr (i, m') \<and> nm_rep T m' (f(nt_key T x \<mapsto> x)))) \<and>
    (k \<noteq> nt_invalid T \<longrightarrow> nm_stop T (nm_nodes m) 0 \<longrightarrow>
       (\<exists>m'. nm_erase T k m = Inr (f k \<noteq> None, m') \<and> nm_rep T m' (f(k := None))))"
  using nm_find_rep [OF assms] nm_insert_rep [OF assms] nm_erase_rep [OF assms] by blast

definition nm_example :: "(u64, u64 \<times> nat) nm_traits" where
  "nm_example = \<lparr>nt_key = fst, nt_hash = splitmix64, nt_invalid = 0, nt_limit = 1000\<rparr>"

theorem node_map_refines_witness:
  "\<exists>m i m'. nm_new nm_example 16 = Inr m \<and> nm_insert nm_example (49, 7) m = Inr (i, m') \<and> nm_find nm_example 49 m' = Inr (Some (49, 7))"
proof -
  let ?m = "\<lparr>nm_count = 0, nm_capacity = 16, nm_nodes = replicate 16 None\<rparr>"
  have tr: "nt_key nm_example = fst" "nt_invalid nm_example = 0" by (simp_all add: nm_example_def)
  have "nm_new nm_example 16 = Inr ?m"
    using log2_pow2 [of 4] by (simp add: nm_new_def nm_example_def push_bit_eq_mult)
  moreover have r: "nm_rep nm_example ?m Map.empty"
    by (auto simp: nm_rep_def nm_shape_def rh_inv_replicate intro!: exI [of _ 4])
  obtain i m' where "nm_insert nm_example (49, 7) ?m = Inr (i, m')" "nm_rep nm_example m' [49 \<mapsto> (49, 7)]"
    using node_map_refines [OF r, of 49 "(49, 7)"] tr by auto
  moreover from this(2) have "nm_find nm_example 49 m' = Inr (Some (49, 7))"
    using node_map_refines [of nm_example m' "[49 \<mapsto> (49, 7)]" 49] tr by simp
  ultimately show ?thesis by blast
qed

text \<open>Erasing from a cluster of three nodes that wraps around the end of the table writes past
  the table: with the hash function of the library, inserting the keys 49, 61 and 66, which all hash to
  the last slot of sixteen, and erasing the first of them.\<close>

theorem node_map_erase_overrun:
  "bindE (nm_new nm_example 16) (\<lambda>m.
   bindE (nm_insert nm_example (49, 1) m) (\<lambda>(_, m).
   bindE (nm_insert nm_example (61, 2) m) (\<lambda>(_, m).
   bindE (nm_insert nm_example (66, 3) m) (\<lambda>(_, m).
   nm_erase nm_example 49 m)))) = Inl Out_of_bounds"
  by code_simp

end
