(* ===== verification/Ipc_Message.thy ===== *)
theory Ipc_Message
  imports Byte_Pipe
begin

text \<open>
  The message structure \<open>ipc::message\<close> of \<open>src/src/kernel/ipc_message.cpp\<close> and
  \<open>ipc_message.h\<close>, with the part of \<open>src/src/kernel/syscalls/mailbox.cpp\<close> that copies a message
  out to the caller. The content array holds the handles, eight bytes each, followed by the data or,
  when the data does not fit, by a pointer to a block of its own; the blocks are a map from addresses
  to bytes. The two counts keep the width of their fields (16 and 4 bits).
\<close>

unbundle bit_operations_syntax

section \<open>Bytes\<close>

definition le64 :: "u64 \<Rightarrow> u8 list" where
  "le64 w = map (\<lambda>i. ucast (drop_bit (8 * i) w)) [0..<8]"

definition of_le64 :: "u8 list \<Rightarrow> u64" where
  "of_le64 bs = foldr (\<lambda>b acc. push_bit 8 acc OR ucast b) bs 0"

definition bytes_write :: "u8 list \<Rightarrow> nat \<Rightarrow> u8 list \<Rightarrow> u8 list res" where
  "bytes_write mem off bs = (if off + length bs \<le> length mem then Inr (store_at mem off bs) else Inl Out_of_bounds)"

definition bytes_read :: "u8 list \<Rightarrow> nat \<Rightarrow> nat \<Rightarrow> u8 list res" where
  "bytes_read mem off n = (if off + n \<le> length mem then Inr (slice mem off n) else Inl Out_of_bounds)"

section \<open>State\<close>

definition content_size :: nat where
  "content_size = 56"

record message =
  msg_tag :: u64
  msg_data_size :: u16
  msg_handle_count :: "4 word"
  msg_out_of_band :: bool
  msg_content :: "u8 list"

type_synonym msg_heap = "u64 \<rightharpoonup> u8 list"

section \<open>Operations\<close>

text \<open>The pointer in the content array, \<open>reinterpret_cast<uint8_t**>(content)[handle_count]\<close>.\<close>

definition msg_pointer :: "message \<Rightarrow> u64 res" where
  "msg_pointer m = bindE (bytes_read (msg_content m) (8 * unat (msg_handle_count m)) 8) (\<lambda>bs. Inr (of_le64 bs))"

definition msg_clear_oob :: "message \<Rightarrow> msg_heap \<Rightarrow> msg_heap res" where
  "msg_clear_oob m h =
     (if msg_out_of_band m
      then bindE (msg_pointer m) (\<lambda>p. if h p = None then Inl Use_after_free else Inr (h(p := None)))
      else Inr h)"

text \<open>Reading the first \<open>n\<close> bytes of the buffer that \<open>data()\<close> returns, and \<open>memcpy\<close> of the whole
  \<open>data_size\<close> bytes into it.\<close>

definition msg_data :: "nat \<Rightarrow> message \<Rightarrow> msg_heap \<Rightarrow> u8 list res" where
  "msg_data n m h =
     (if msg_out_of_band m
      then bindE (msg_pointer m) (\<lambda>p.
           case h p of None \<Rightarrow> Inl Use_after_free | Some blk \<Rightarrow> bytes_read blk 0 n)
      else bytes_read (msg_content m) (8 * unat (msg_handle_count m)) n)"

definition msg_store_data :: "u8 list \<Rightarrow> message \<Rightarrow> msg_heap \<Rightarrow> (message \<times> msg_heap) res" where
  "msg_store_data src m h =
     (let bs = take (unat (msg_data_size m)) src in
      if msg_out_of_band m
      then bindE (msg_pointer m) (\<lambda>p.
           case h p of None \<Rightarrow> Inl Use_after_free
           | Some blk \<Rightarrow> bindE (bytes_write blk 0 bs) (\<lambda>blk. Inr (m, h(p \<mapsto> blk))))
      else bindE (bytes_write (msg_content m) (8 * unat (msg_handle_count m)) bs) (\<lambda>c.
           Inr (m\<lparr>msg_content := c\<rparr>, h)))"

text \<open>The buffer of \<open>handles()\<close> has \<open>handle_count\<close> entries, that of its const version \<open>data_size\<close>.\<close>

fun le64_list :: "u8 list \<Rightarrow> u64 list" where
  "le64_list (a # b # c # d # e # f # g # i # rest) = of_le64 [a, b, c, d, e, f, g, i] # le64_list rest"
| "le64_list _ = []"

definition msg_handles :: "message \<Rightarrow> u64 list res" where
  "msg_handles m = bindE (bytes_read (msg_content m) 0 (8 * unat (msg_handle_count m))) (\<lambda>bs. Inr (le64_list bs))"

definition msg_handles_const :: "message \<Rightarrow> u64 list res" where
  "msg_handles_const m = bindE (bytes_read (msg_content m) 0 (8 * unat (msg_data_size m))) (\<lambda>bs. Inr (le64_list bs))"

text \<open>\<open>set\<close>; \<open>fresh\<close> is the address \<open>new\<close> returns. The bound in the assertion is computed in
  \<open>size_t\<close>, as \<open>56 / 8 - 8\<close>.\<close>

definition msg_set :: "u64 \<Rightarrow> u64 \<Rightarrow> u8 list \<Rightarrow> u64 list \<Rightarrow> message \<Rightarrow> msg_heap \<Rightarrow> (message \<times> msg_heap) res" where
  "msg_set fresh in_tag in_data in_handles m h =
     bindE (msg_clear_oob m h) (\<lambda>h.
     let m = m\<lparr>msg_tag := in_tag, msg_handle_count := of_nat (length in_handles), msg_data_size := of_nat (length in_data)\<rparr> in
     bindE (if in_handles \<noteq> []
            then bindE (guardE Assert_failed ((of_nat (length in_handles) :: u64) < of_nat content_size div 8 - 8)) (\<lambda>_.
                 bindE (bytes_write (msg_content m) 0 (concat (map le64 (take (unat (msg_handle_count m)) in_handles)))) (\<lambda>c.
                 Inr (m\<lparr>msg_content := c\<rparr>)))
            else Inr m) (\<lambda>m.
     if in_data \<noteq> []
     then bindE (if of_nat content_size - (ucast (msg_handle_count m) :: u64) * 8 < of_nat (length in_data)
                 then bindE (bytes_write (msg_content m) (8 * unat (msg_handle_count m)) (le64 fresh)) (\<lambda>c.
                      Inr (m\<lparr>msg_out_of_band := True, msg_content := c\<rparr>, h(fresh \<mapsto> replicate (length in_data) 0)))
                 else Inr (m, h)) (\<lambda>(m, h).
          msg_store_data in_data m h)
     else Inr (m, h)))"

text \<open>The constructor from a tag, data and handles initialises \<open>out_of_band\<close> only: the other fields
  are whatever the new object held.\<close>

definition msg_make :: "message \<Rightarrow> u64 \<Rightarrow> u64 \<Rightarrow> u8 list \<Rightarrow> u64 list \<Rightarrow> msg_heap \<Rightarrow> (message \<times> msg_heap) res" where
  "msg_make raw fresh in_tag in_data in_handles h = msg_set fresh in_tag in_data in_handles (raw\<lparr>msg_out_of_band := False\<rparr>) h"

text \<open>Move assignment: this message, what is left of the other, and the heap.\<close>

definition msg_assign :: "message \<Rightarrow> message \<Rightarrow> msg_heap \<Rightarrow> (message \<times> message \<times> msg_heap) res" where
  "msg_assign m other h =
     bindE (msg_clear_oob m h) (\<lambda>h.
     Inr (m\<lparr>msg_tag := msg_tag other, msg_data_size := msg_data_size other, msg_handle_count := msg_handle_count other,
            msg_out_of_band := msg_out_of_band other, msg_content := msg_content other\<rparr>,
          other\<lparr>msg_tag := 0, msg_data_size := 0, msg_handle_count := 0, msg_out_of_band := False\<rparr>, h))"

text \<open>What \<open>mailbox_call\<close> and \<open>mailbox_respond\<close> hand back: the tag, the data and the handles, cut to
  the sizes of the caller's buffers, and the handles given to the calling process.\<close>

record copied_message =
  cm_tag :: u64
  cm_data :: "u8 list"
  cm_handles :: "u64 list"
  cm_given :: "u64 list"

definition copy_out :: "nat \<Rightarrow> nat \<Rightarrow> message \<Rightarrow> msg_heap \<Rightarrow> copied_message res" where
  "copy_out data_size handles_size m h =
     bindE (msg_handles m) (\<lambda>hs.
     let data_len = (if data_size > unat (msg_data_size m) then unat (msg_data_size m) else data_size) in
     bindE (msg_data data_len m h) (\<lambda>bs.
     let handles_count = (if handles_size > length hs then length hs else handles_size) in
     Inr \<lparr>cm_tag = msg_tag m, cm_data = bs, cm_handles = take handles_count hs, cm_given = hs\<rparr>))"

section \<open>Bytes of handles\<close>

lemma length_le64 [simp]: "length (le64 w) = 8"
  by (simp add: le64_def)

lemma of_le64_from: "i \<le> 8 \<Longrightarrow> of_le64 (map (\<lambda>j. ucast (drop_bit (8 * j) w)) [i..<8]) = drop_bit (8 * i) w"
proof (induction "8 - i" arbitrary: i)
  case 0
  then show ?case by (simp add: of_le64_def)
next
  case (Suc d)
  then have i: "i < 8" by simp
  have "of_le64 (map (\<lambda>j. ucast (drop_bit (8 * j) w)) [Suc i..<8]) = drop_bit (8 * Suc i) w" using Suc i by (intro Suc.hyps(1)) auto
  then have "of_le64 (map (\<lambda>j. ucast (drop_bit (8 * j) w)) [i..<8]) = push_bit 8 (drop_bit (8 * Suc i) w) OR ucast (ucast (drop_bit (8 * i) w) :: u8)"
    using i by (simp add: of_le64_def upt_conv_Cons)
  also have "\<dots> = drop_bit (8 * i) w"
    by (rule bit_eqI) (auto simp: bit_or_iff bit_push_bit_iff bit_drop_bit_eq bit_ucast_iff algebra_simps dest: bit_u64_less)
  finally show ?case .
qed

lemma of_le64_le64 [simp]: "of_le64 (le64 w) = w"
  using of_le64_from [of 0 w] by (simp add: le64_def)

lemma length_concat_le64 [simp]: "length (concat (map le64 ws)) = 8 * length ws"
  by (induction ws) simp_all

lemma le64_list_concat [simp]: "le64_list (concat (map le64 ws)) = ws"
proof (induction ws)
  case (Cons w ws)
  obtain a b c d e f g i where l: "le64 w = [a, b, c, d, e, f, g, i]" by (auto simp: le64_def numeral_eq_Suc upt_rec)
  then have "of_le64 [a, b, c, d, e, f, g, i] = w" using of_le64_le64 [of w] by simp
  with Cons l show ?case by simp
qed simp


section \<open>Building a message\<close>

lemma bytes_write_read:
  assumes "bytes_write mem off bs = Inr mem'"
  shows "length mem' = length mem" "n \<le> length bs \<Longrightarrow> bytes_read mem' off n = Inr (take n bs)"
    "off' + n \<le> off \<Longrightarrow> bytes_read mem' off' n = bytes_read mem off' n"
proof -
  from assms have b: "off + length bs \<le> length mem" and m: "mem' = store_at mem off bs" by (auto simp: bytes_write_def split: if_splits)
  then show "length mem' = length mem" by simp
  show "bytes_read mem' off n = Inr (take n bs)" if "n \<le> length bs"
    using b m that by (simp add: bytes_read_def slice_store_at_same slice_def store_at_def)
  show "bytes_read mem' off' n = bytes_read mem off' n" if "off' + n \<le> off"
    using b m that by (simp add: bytes_read_def slice_store_at_before)
qed

lemma bytes_write_ok: "off + length bs \<le> length mem \<Longrightarrow> \<exists>mem'. bytes_write mem off bs = Inr mem'"
  by (simp add: bytes_write_def)

lemma unat_ucast_4 [simp]: "unat (ucast (c :: 4 word) :: u64) = unat c"
proof -
  have "unat c < 2 ^ 4" using unsigned_less [of c] by simp
  then have "unat c < 2 ^ 64" by simp
  then show ?thesis by (simp add: unsigned_ucast_eq take_bit_nat_eq_self)
qed

lemma room_unat:
  fixes c :: "4 word"
  assumes "unat c \<le> 7"
  shows "unat (of_nat content_size - (ucast c :: u64) * 8) = 56 - 8 * unat c"
proof -
  have "unat ((ucast c :: u64) * 8) = unat c * 8" using assms by (subst unat_mult_no_wrap) simp_all
  then show ?thesis using assms by (subst unat_sub_no_wrap) (simp_all add: content_size_def)
qed

lemma handle_count_unat: "unat (of_nat n :: 4 word) = n mod 16" "unat (of_nat n :: u16) = n mod 65536"
  by (simp_all add: unat_of_nat)

text \<open>The message and the heap after a message of at most six handles was built.\<close>

definition msg_built :: "u64 \<Rightarrow> u64 \<Rightarrow> u8 list \<Rightarrow> u64 list \<Rightarrow> msg_heap \<Rightarrow> message \<Rightarrow> msg_heap \<Rightarrow> bool" where
  "msg_built fresh tag data hs h m h' \<longleftrightarrow>
     msg_tag m = tag \<and> msg_data_size m = of_nat (length data) \<and> msg_handle_count m = of_nat (length hs) \<and>
     msg_handles m = Inr (take (length hs mod 16) hs) \<and>
     (\<forall>n \<le> length data mod 65536. msg_data n m h' = Inr (take n data)) \<and>
     msg_clear_oob m h' = Inr (h(fresh := None))"


text \<open>The first half of \<open>set\<close>: the counts and the handles.\<close>

lemma handles_written:
  assumes c: "length (msg_content m) = content_size" and k: "length hs mod 16 \<le> 7"
    and n: "msg_handle_count m = of_nat (length hs)"
  obtains c' where "bytes_write (msg_content m) 0 (concat (map le64 (take (unat (msg_handle_count m)) hs))) = Inr c'"
    and "length c' = content_size" and "msg_handles (m\<lparr>msg_content := c'\<rparr>) = Inr (take (length hs mod 16) hs)"
proof -
  let ?hs = "take (unat (msg_handle_count m)) hs"
  have u: "unat (msg_handle_count m) = length hs mod 16" by (simp add: n handle_count_unat)
  have l: "length ?hs = length hs mod 16" by (simp add: u min_absorb2)
  obtain c' where w: "bytes_write (msg_content m) 0 (concat (map le64 ?hs)) = Inr c'"
    using bytes_write_ok [of 0 "concat (map le64 ?hs)" "msg_content m"] c k l by (auto simp: content_size_def)
  have "length c' = content_size" using bytes_write_read(1) [OF w] c by simp
  moreover have "bytes_read c' 0 (8 * (length hs mod 16)) = Inr (concat (map le64 ?hs))"
    using bytes_write_read(2) [OF w, of "8 * (length hs mod 16)"] by (simp add: l u min_absorb2)
  then have "msg_handles (m\<lparr>msg_content := c'\<rparr>) = Inr (take (length hs mod 16) hs)"
    by (simp add: msg_handles_def u)
  ultimately show ?thesis using w that by blast
qed

text \<open>The second half, when the data stays in the message.\<close>

lemma data_in_band:
  assumes c: "length (msg_content m) = content_size" and o: "\<not> msg_out_of_band m"
    and fits: "8 * unat (msg_handle_count m) + length data \<le> content_size"
    and n: "msg_data_size m = of_nat (length data)"
  obtains m' where "msg_store_data data m h = Inr (m', h)" and "msg_handles m' = msg_handles m"
    and "msg_tag m' = msg_tag m" "msg_data_size m' = msg_data_size m" "msg_handle_count m' = msg_handle_count m"
    and "\<And>k. k \<le> length data \<Longrightarrow> msg_data k m' h = Inr (take k data)" and "\<not> msg_out_of_band m'"
proof -
  have u: "unat (msg_data_size m) = length data" using fits by (simp add: n handle_count_unat content_size_def)
  obtain c' where w: "bytes_write (msg_content m) (8 * unat (msg_handle_count m)) data = Inr c'"
    using bytes_write_ok [of "8 * unat (msg_handle_count m)" data "msg_content m"] c fits by auto
  note r = bytes_write_read [OF w]
  show ?thesis
  proof (rule that [of "m\<lparr>msg_content := c'\<rparr>"])
    show "msg_store_data data m h = Inr (m\<lparr>msg_content := c'\<rparr>, h)" using o w u by (simp add: msg_store_data_def)
    show "msg_handles (m\<lparr>msg_content := c'\<rparr>) = msg_handles m" by (simp add: msg_handles_def r(3))
  qed (use o r(2) in \<open>simp_all add: msg_data_def\<close>)
qed

text \<open>The second half, when the data moves to a block of its own.\<close>

lemma data_out_of_band:
  assumes c: "length (msg_content m) = content_size" and k: "unat (msg_handle_count m) \<le> 6"
    and n: "msg_data_size m = of_nat (length data)"
  obtains c' m' h' where "bytes_write (msg_content m) (8 * unat (msg_handle_count m)) (le64 fresh) = Inr c'"
    and "msg_store_data data (m\<lparr>msg_out_of_band := True, msg_content := c'\<rparr>) (h(fresh \<mapsto> replicate (length data) 0)) = Inr (m', h')"
    and "msg_handles m' = msg_handles m"
    and "msg_tag m' = msg_tag m" "msg_data_size m' = msg_data_size m" "msg_handle_count m' = msg_handle_count m"
    and "\<And>k. k \<le> length data mod 65536 \<Longrightarrow> msg_data k m' h' = Inr (take k data)" and "msg_clear_oob m' h' = Inr (h(fresh := None))"
proof -
  have u: "unat (msg_data_size m) = length data mod 65536" by (simp add: n handle_count_unat)
  obtain c' where w: "bytes_write (msg_content m) (8 * unat (msg_handle_count m)) (le64 fresh) = Inr c'"
    using bytes_write_ok [of "8 * unat (msg_handle_count m)" "le64 fresh" "msg_content m"] c k by (auto simp: content_size_def)
  note r = bytes_write_read [OF w]
  define bs where "bs = take (length data mod 65536) data"
  define blk where "blk = store_at (replicate (length data) 0) 0 bs"
  let ?m = "m\<lparr>msg_out_of_band := True, msg_content := c'\<rparr>"
  have p: "msg_pointer ?m = Inr fresh" using r(2) [of 8] by (simp add: msg_pointer_def)
  have lb: "length bs = length data mod 65536" by (simp add: bs_def min_absorb2)
  have b: "bytes_write (replicate (length data) 0) 0 bs = Inr blk" by (simp add: bytes_write_def blk_def lb)
  note rb = bytes_write_read [OF b]
  show ?thesis
  proof (rule that [OF w, of ?m "h(fresh \<mapsto> blk)"])
    show "msg_store_data data ?m (h(fresh \<mapsto> replicate (length data) 0)) = Inr (?m, h(fresh \<mapsto> blk))"
      using p b u by (simp add: msg_store_data_def bs_def)
    show "msg_handles ?m = msg_handles m" by (simp add: msg_handles_def r(3))
    show "msg_data k ?m (h(fresh \<mapsto> blk)) = Inr (take k data)" if "k \<le> length data mod 65536" for k
      using p rb(2) [of k] that lb by (simp add: msg_data_def bs_def)
    show "msg_clear_oob ?m (h(fresh \<mapsto> blk)) = Inr (h(fresh := None))" using p by (simp add: msg_clear_oob_def)
  qed simp_all
qed

lemma handle_bound: "length hs < 2 ^ 64 - 1 \<Longrightarrow> (of_nat (length hs) :: u64) < of_nat content_size div 8 - 8"
proof -
  have "(of_nat content_size div 8 - 8 :: u64) = of_nat (2 ^ 64 - 1)" by (simp add: content_size_def)
  then show "length hs < 2 ^ 64 - 1 \<Longrightarrow> ?thesis" by (simp only:) (simp add: word_less_nat_alt unat_of_nat)
qed

lemma msg_make_ok:
  assumes c: "length (msg_content raw) = content_size" and f: "h fresh = None"
    and hs: "length hs < 2 ^ 64 - 1" and data: "length data < 2 ^ 64"
    and k: "length hs mod 16 \<le> 7" and k7: "length hs mod 16 = 7 \<Longrightarrow> data = []"
  obtains m h' where "msg_make raw fresh tag data hs h = Inr (m, h')" and "msg_built fresh tag data hs h m h'"
proof -
  let ?m = "raw\<lparr>msg_out_of_band := False, msg_tag := tag, msg_handle_count := of_nat (length hs), msg_data_size := of_nat (length data)\<rparr>"
  obtain c' where w: "bytes_write (msg_content raw) 0 (concat (map le64 (take (unat (of_nat (length hs) :: 4 word)) hs))) = Inr c'"
    and c': "length c' = content_size" and hs': "msg_handles (?m\<lparr>msg_content := c'\<rparr>) = Inr (take (length hs mod 16) hs)"
    by (rule handles_written [of ?m hs]) (use c k in simp_all)
  define m1 where "m1 = (if hs = [] then ?m else ?m\<lparr>msg_content := c'\<rparr>)"
  have m1: "length (msg_content m1) = content_size" "\<not> msg_out_of_band m1" "msg_handles m1 = Inr (take (length hs mod 16) hs)"
    "msg_data_size m1 = of_nat (length data)" "msg_handle_count m1 = of_nat (length hs)" "msg_tag m1 = tag"
    using c c' hs' by (simp_all add: m1_def) (simp_all add: msg_handles_def bytes_read_def)
  have hf: "h(fresh := None) = h" using f by auto
  have hc: "unat (msg_handle_count m1) = length hs mod 16" by (simp add: m1(5) handle_count_unat)
  have set1: "msg_make raw fresh tag data hs h =
     (if data \<noteq> []
      then bindE (if of_nat content_size - (ucast (msg_handle_count m1) :: u64) * 8 < of_nat (length data)
                  then bindE (bytes_write (msg_content m1) (8 * unat (msg_handle_count m1)) (le64 fresh)) (\<lambda>c.
                       Inr (m1\<lparr>msg_out_of_band := True, msg_content := c\<rparr>, h(fresh \<mapsto> replicate (length data) 0)))
                  else Inr (m1, h)) (\<lambda>(m, h). msg_store_data data m h)
      else Inr (m1, h))"
    using w handle_bound [OF hs] by (simp add: msg_make_def msg_set_def msg_clear_oob_def m1_def Let_def)
  have room: "of_nat content_size - (ucast (msg_handle_count m1) :: u64) * 8 < of_nat (length data) \<longleftrightarrow> 56 - 8 * (length hs mod 16) < length data"
    using room_unat [of "msg_handle_count m1"] k data by (simp add: word_less_nat_alt hc unat_of_nat)
  consider "data = []" | "data \<noteq> []" "\<not> 56 - 8 * (length hs mod 16) < length data" | "data \<noteq> []" "56 - 8 * (length hs mod 16) < length data" by blast
  then show ?thesis
  proof cases
    case 1
    show ?thesis by (rule that [of m1 h]) (use 1 f k m1 hc set1 in \<open>auto simp: msg_built_def msg_data_def bytes_read_def msg_clear_oob_def content_size_def handle_count_unat\<close>)
  next
    case 2
    then have fits: "8 * unat (msg_handle_count m1) + length data \<le> content_size" using k by (auto simp: hc content_size_def)
    obtain m' where "msg_store_data data m1 h = Inr (m', h)" "msg_handles m' = msg_handles m1"
      "msg_tag m' = msg_tag m1" "msg_data_size m' = msg_data_size m1" "msg_handle_count m' = msg_handle_count m1"
      "\<And>k. k \<le> length data \<Longrightarrow> msg_data k m' h = Inr (take k data)" "\<not> msg_out_of_band m'"
      by (rule data_in_band [OF m1(1,2) fits m1(4), of h]) blast
    then show ?thesis using that [of m' h] 2 hf m1 set1 room fits
      by (auto simp: msg_built_def msg_clear_oob_def content_size_def)
  next
    case 3
    then have k6: "unat (msg_handle_count m1) \<le> 6" using k k7 hc by linarith
    obtain c' m' h' where w: "bytes_write (msg_content m1) (8 * unat (msg_handle_count m1)) (le64 fresh) = Inr c'"
      and "msg_store_data data (m1\<lparr>msg_out_of_band := True, msg_content := c'\<rparr>) (h(fresh \<mapsto> replicate (length data) 0)) = Inr (m', h')"
      "msg_handles m' = msg_handles m1"
      "msg_tag m' = msg_tag m1" "msg_data_size m' = msg_data_size m1" "msg_handle_count m' = msg_handle_count m1"
      "\<And>k. k \<le> length data mod 65536 \<Longrightarrow> msg_data k m' h' = Inr (take k data)" "msg_clear_oob m' h' = Inr (h(fresh := None))"
      by (rule data_out_of_band [OF m1(1) k6 m1(4), of fresh h]) blast
    then show ?thesis using that [of m' h'] 3 m1 set1 room by (auto simp: msg_built_def)
  qed
qed

lemma msg_make_overrun:
  assumes c: "length (msg_content raw) = content_size" and hs: "length hs < 2 ^ 64 - 1" and data: "length data < 2 ^ 64"
    and k: "8 \<le> length hs mod 16 \<or> length hs mod 16 = 7 \<and> data \<noteq> []"
  shows "msg_make raw fresh tag data hs h = Inl Out_of_bounds"
  using k
proof
  assume k: "8 \<le> length hs mod 16"
  then have "hs \<noteq> []" by auto
  moreover have "bytes_write (msg_content raw) 0 (concat (map le64 (take (length hs mod 16) hs))) = Inl Out_of_bounds"
    using c k by (simp add: bytes_write_def content_size_def min_absorb2)
  ultimately show ?thesis using handle_bound [OF hs] by (simp add: msg_make_def msg_set_def msg_clear_oob_def handle_count_unat Let_def)
next
  assume k: "length hs mod 16 = 7 \<and> data \<noteq> []"
  then have ne: "hs \<noteq> []" by auto
  let ?m = "raw\<lparr>msg_out_of_band := False, msg_tag := tag, msg_handle_count := of_nat (length hs), msg_data_size := of_nat (length data)\<rparr>"
  obtain c' where w: "bytes_write (msg_content raw) 0 (concat (map le64 (take (unat (of_nat (length hs) :: 4 word)) hs))) = Inr c'"
    and c': "length c' = content_size"
    by (rule handles_written [of ?m hs]) (use c k in simp_all)
  have "of_nat content_size - (ucast (of_nat (length hs) :: 4 word) :: u64) * 8 < of_nat (length data)"
    using room_unat [of "of_nat (length hs)"] k data by (simp add: word_less_nat_alt unat_of_nat handle_count_unat)
  moreover have "bytes_write c' 56 (le64 fresh) = Inl Out_of_bounds" by (simp add: bytes_write_def c' content_size_def)
  ultimately show ?thesis using w ne k handle_bound [OF hs]
    by (simp add: msg_make_def msg_set_def msg_clear_oob_def handle_count_unat Let_def)
qed

lemma copy_out_built:
  assumes "msg_built fresh tag data hs h m h'" and "length data < 65536" "length hs < 16"
  shows "copy_out dsz hsz m h' = Inr \<lparr>cm_tag = tag, cm_data = take dsz data, cm_handles = take hsz hs, cm_given = hs\<rparr>"
  using assms by (simp add: msg_built_def copy_out_def Let_def handle_count_unat)

section \<open>Properties\<close>

text \<open>C25. A message of at most six handles and less than 64 KiB of data arrives as it was sent: whatever
  the fresh object and the heap held before, the constructor succeeds, the copy to the receiver's buffers
  is the tag, the data and the handles, cut to the sizes of the buffers, every handle is given to the
  receiving process, and destroying the message returns the heap it was built from.\<close>

theorem ipc_message_roundtrip:
  assumes "length (msg_content raw) = content_size" and "h fresh = None"
    and "length hs \<le> 6" and "length data < 65536"
  shows "\<exists>m h'. msg_make raw fresh tag data hs h = Inr (m, h') \<and>
     copy_out dsz hsz m h' = Inr \<lparr>cm_tag = tag, cm_data = take dsz data, cm_handles = take hsz hs, cm_given = hs\<rparr> \<and>
     msg_clear_oob m h' = Inr h"
proof -
  obtain m h' where m: "msg_make raw fresh tag data hs h = Inr (m, h')" and b: "msg_built fresh tag data hs h m h'"
    by (rule msg_make_ok [of raw h fresh hs data tag]) (use assms in auto)
  have "msg_clear_oob m h' = Inr h" using b assms(2) by (auto simp: msg_built_def)
  then show ?thesis using m copy_out_built [OF b] assms(3,4) by auto
qed

definition raw_message :: message where
  "raw_message = \<lparr>msg_tag = 7, msg_data_size = 9, msg_handle_count = 3, msg_out_of_band = True, msg_content = replicate 56 165\<rparr>"

theorem ipc_message_roundtrip_witness:
  "\<exists>m h'. msg_make raw_message 4096 17 (map of_nat [0..<60]) [5, 6] Map.empty = Inr (m, h') \<and>
     copy_out 60 1 m h' = Inr \<lparr>cm_tag = 17, cm_data = take 60 (map of_nat [0..<60]), cm_handles = take 1 [5, 6], cm_given = [5, 6]\<rparr> \<and>
     msg_clear_oob m h' = Inr Map.empty"
  by (rule ipc_message_roundtrip) (simp_all add: raw_message_def content_size_def)

text \<open>C40. The assertion on the number of handles does not bound it: its limit \<open>56 / 8 - 8\<close> wraps around
  to the largest \<open>size_t\<close>. Building a message writes past the content array exactly when the low four
  bits of the handle count are eight or more, or are seven and there is data, whose pointer then has no
  room.\<close>

theorem ipc_message_overrun:
  assumes "length (msg_content raw) = content_size" and "h fresh = None"
    and "length hs < 2 ^ 64 - 1" and "length data < 2 ^ 64"
  shows "msg_make raw fresh tag data hs h = Inl Out_of_bounds \<longleftrightarrow>
     8 \<le> length hs mod 16 \<or> length hs mod 16 = 7 \<and> data \<noteq> []"
proof
  assume "msg_make raw fresh tag data hs h = Inl Out_of_bounds"
  moreover have "\<exists>m h'. msg_make raw fresh tag data hs h = Inr (m, h')"
    if "length hs mod 16 \<le> 7" "length hs mod 16 = 7 \<Longrightarrow> data = []"
    by (rule msg_make_ok [of raw h fresh hs data tag]) (use assms that in auto)
  ultimately show "8 \<le> length hs mod 16 \<or> length hs mod 16 = 7 \<and> data \<noteq> []" by fastforce
qed (rule msg_make_overrun [OF assms(1,3,4)])

theorem ipc_message_overrun_witness:
  "msg_make raw_message 4096 17 [] (replicate 8 5) Map.empty = Inl Out_of_bounds"
  by (rule ipc_message_overrun [THEN iffD2]) (simp_all add: raw_message_def content_size_def)

end
