(* ===== verification/Kernel_Threads.thy ===== *)
theory Kernel_Threads
  imports J6_Prelude
begin

text \<open>
  Kernel objects and threads: \<open>src/src/kernel/objects/kobject.h\<close>, \<open>kobject.cpp\<close>, \<open>thread.h\<close> and
  \<open>thread.cpp\<close>, and the register part of the assembly that starts and switches threads, \<open>task.s\<close> and
  \<open>syscall.s\<close>. A thread is named by a number that stands for its address, and the threads that exist
  are a map from these numbers.
\<close>

unbundle bit_operations_syntax

section \<open>Kernel objects\<close>

datatype obj_type =
    No_object
  | System_object
  | Event_object
  | Endpoint_object
  | Mailbox_object
  | Vma_object
  | Process_object
  | Thread_object
  | Max_object

primrec obj_type_number :: "obj_type \<Rightarrow> nat" where
  "obj_type_number No_object = 0"
| "obj_type_number System_object = 1"
| "obj_type_number Event_object = 2"
| "obj_type_number Endpoint_object = 3"
| "obj_type_number Mailbox_object = 4"
| "obj_type_number Vma_object = 5"
| "obj_type_number Process_object = 6"
| "obj_type_number Thread_object = 7"
| "obj_type_number Max_object = 8"

record kobject =
  k_handle_count :: u16
  k_type :: obj_type
  k_obj_id :: u32

definition koid_type_bits :: nat where
  "koid_type_bits = 4"

definition koid_type_mask :: u64 where
  "koid_type_mask = push_bit koid_type_bits 1 - 1"

definition koid_type_shift :: nat where
  "koid_type_shift = 8 * 8 - koid_type_bits"

definition koid_type :: "u64 \<Rightarrow> u64" where
  "koid_type k = drop_bit koid_type_shift k AND koid_type_mask"

definition koid :: "kobject \<Rightarrow> u64" where
  "koid ob = push_bit koid_type_shift (of_nat (obj_type_number (k_type ob))) OR ucast (k_obj_id ob)"

text \<open>\<open>next_oids\<close> has one counter for each type below \<open>max\<close>.\<close>

definition oid_generate :: "obj_type \<Rightarrow> u32 list \<Rightarrow> (u32 \<times> u32 list) res" where
  "oid_generate t oids =
     bindE (guardE Assert_failed (obj_type_number t < obj_type_number Max_object)) (\<lambda>_.
     bindE (array_get oids (obj_type_number t)) (\<lambda>i.
     bindE (array_set oids (obj_type_number t) (i + 1)) (\<lambda>oids.
     Inr (i, oids))))"

definition kobject_new :: "obj_type \<Rightarrow> u32 list \<Rightarrow> (kobject \<times> u32 list) res" where
  "kobject_new t oids = bindE (oid_generate t oids) (\<lambda>(i, oids).
     Inr (\<lparr>k_handle_count = 0, k_type = t, k_obj_id = i\<rparr>, oids))"

definition handle_retain :: "kobject \<Rightarrow> kobject" where
  "handle_retain ob = ob\<lparr>k_handle_count := k_handle_count ob + 1\<rparr>"

text \<open>The second component says whether \<open>on_no_handles\<close> is called.\<close>

definition handle_release :: "kobject \<Rightarrow> kobject \<times> bool" where
  "handle_release ob = (let ob = ob\<lparr>k_handle_count := k_handle_count ob - 1\<rparr> in (ob, k_handle_count ob = 0))"

section \<open>Threads\<close>

definition st_ready :: u8 where "st_ready = 0x01"
definition st_exited :: u8 where "st_exited = 0x02"
definition st_constant :: u8 where "st_constant = 0x80"

record tcb =
  t_rsp :: u64
  t_rsp0 :: u64
  t_rsp3 :: u64
  t_rflags3 :: u64
  t_priority :: u8
  t_time_left :: u32
  t_last_ran :: u64
  t_kernel_stack :: u64
  t_cpu :: "nat option"

record thread =
  th_object :: kobject
  th_tcb :: tcb
  th_parent :: nat
  th_creator :: "nat option"
  th_state :: u8
  th_mxcsr :: u32
  th_wake_value :: u64
  th_wake_timeout :: u64

type_synonym threads = "nat \<rightharpoonup> thread"

definition has_state :: "u8 \<Rightarrow> thread \<Rightarrow> bool" where
  "has_state s th \<longleftrightarrow> th_state th AND s \<noteq> 0"

definition set_state :: "u8 \<Rightarrow> thread \<Rightarrow> thread" where
  "set_state s th = th\<lparr>th_state := th_state th OR s\<rparr>"

definition clear_state :: "u8 \<Rightarrow> thread \<Rightarrow> thread" where
  "clear_state s th = th\<lparr>th_state := th_state th AND NOT s\<rparr>"

definition th_ready :: "thread \<Rightarrow> bool" where "th_ready th = has_state st_ready th"
definition th_exited :: "thread \<Rightarrow> bool" where "th_exited th = has_state st_exited th"
definition th_constant :: "thread \<Rightarrow> bool" where "th_constant th = has_state st_constant th"

definition th_set_priority :: "u8 \<Rightarrow> thread \<Rightarrow> thread" where
  "th_set_priority p th = (if \<not> th_constant th then th\<lparr>th_tcb := (th_tcb th)\<lparr>t_priority := p\<rparr>\<rparr> else th)"

definition th_set_wake_timeout :: "u64 \<Rightarrow> thread \<Rightarrow> thread" where
  "th_set_wake_timeout t th = th\<lparr>th_wake_timeout := t\<rparr>"

definition th_wake_only :: "thread \<Rightarrow> thread" where
  "th_wake_only th = set_state st_ready (th\<lparr>th_wake_timeout := 0\<rparr>)"

text \<open>\<open>wake\<close> up to its call of \<open>maybe_schedule\<close>, which changes no thread.\<close>

definition th_wake :: "u64 \<Rightarrow> thread \<Rightarrow> thread" where
  "th_wake v th = (if has_state st_ready th then th else th_wake_only (th\<lparr>th_wake_value := v\<rparr>))"

text \<open>\<open>block\<close> up to the call of the scheduler.\<close>

definition th_block :: "thread \<Rightarrow> thread" where
  "th_block th = clear_state st_ready th"

text \<open>References to a thread. The thread is deleted with its last one.\<close>

definition th_retain :: "nat \<Rightarrow> threads \<Rightarrow> threads res" where
  "th_retain t ths = (case ths t of None \<Rightarrow> Inl Use_after_free
     | Some th \<Rightarrow> Inr (ths(t \<mapsto> th\<lparr>th_object := handle_retain (th_object th)\<rparr>)))"

definition th_release :: "nat \<Rightarrow> threads \<Rightarrow> threads res" where
  "th_release t ths = (case ths t of None \<Rightarrow> Inl Use_after_free
     | Some th \<Rightarrow> (case handle_release (th_object th) of (ob, gone) \<Rightarrow>
         Inr (ths(t := if gone then None else Some (th\<lparr>th_object := ob\<rparr>)))))"

section \<open>Stacks and the first switch to a thread\<close>

text \<open>Memory as 64-bit values by address; \<open>stack[i]\<close> is at \<open>8 * i\<close> above the stack pointer.\<close>

type_synonym memory = "u64 \<Rightarrow> u64"

fun store_words :: "u64 \<Rightarrow> u64 list \<Rightarrow> memory \<Rightarrow> memory" where
  "store_words a [] mem = mem"
| "store_words a (w # ws) mem = store_words (a + 8) ws (mem(a := w))"

definition setup_kernel_stack :: "u64 \<Rightarrow> thread \<Rightarrow> memory \<Rightarrow> thread \<times> memory" where
  "setup_kernel_stack stack_addr th mem =
     (let stack_end = stack_addr + 2 * 4096;
          null_frame = stack_end - 16;
          mem = store_words null_frame [0, 0] mem
      in (th\<lparr>th_tcb := (th_tcb th)\<lparr>t_kernel_stack := stack_addr, t_rsp0 := null_frame, t_rsp := null_frame\<rparr>\<rparr>, mem))"

definition add_thunk_kernel :: "u64 \<Rightarrow> thread \<Rightarrow> memory \<Rightarrow> thread \<times> memory" where
  "add_thunk_kernel rip th mem =
     (let rsp = t_rsp (th_tcb th) - 8 * 7;
          mem = store_words rsp
            [0x15151515, 0x14141414, 0x13131313, 0x12121212, 0xbbbbbbbb, t_rsp0 (th_tcb th), rip] mem
      in (th\<lparr>th_tcb := (th_tcb th)\<lparr>t_rsp := rsp\<rparr>\<rparr>, mem))"

text \<open>\<open>trampoline\<close> is the address of \<open>initialize_user_cpu\<close>.\<close>

definition add_thunk_user :: "u64 \<Rightarrow> u64 \<Rightarrow> u64 \<Rightarrow> u64 \<Rightarrow> u64 \<Rightarrow> u64 \<Rightarrow> thread \<Rightarrow> memory \<Rightarrow> thread \<times> memory" where
  "add_thunk_user trampoline rip3 arg0 arg1 rip0 flags th mem =
     (let flags = flags OR 0x200;
          rsp = t_rsp (th_tcb th) - 8 * 9;
          mem = store_words rsp
            [arg0, arg1, 0x15151515, 0x14141414, 0x13131313, 0x12121212, 0xbbbbbbbb, t_rsp3 (th_tcb th), rip3] mem;
          th = th\<lparr>th_tcb := (th_tcb th)\<lparr>t_rflags3 := flags, t_rsp := rsp\<rparr>\<rparr>
      in add_thunk_kernel (if rip0 \<noteq> 0 then rip0 else trampoline) th mem)"

text \<open>Registers the switch touches, and the per-CPU copies of the thread's user state.\<close>

record cpu_regs =
  c_rip :: u64
  c_rsp :: u64
  c_rbp :: u64
  c_rbx :: u64
  c_r12 :: u64
  c_r13 :: u64
  c_r14 :: u64
  c_r15 :: u64
  c_rdi :: u64
  c_rsi :: u64
  c_rcx :: u64
  c_rflags :: u64
  c_rsp0 :: u64
  c_rsp3 :: u64
  c_rflags3 :: u64

text \<open>\<open>task_switch\<close>, entered by a call whose return address is on the stack: the outgoing thread is
  saved, the incoming one loaded.\<close>

definition switch_save :: "cpu_regs \<Rightarrow> tcb \<Rightarrow> memory \<Rightarrow> tcb \<times> memory" where
  "switch_save c t mem =
     (let rsp = c_rsp c - 8 * 6;
          mem = store_words rsp [c_r15 c, c_r14 c, c_r13 c, c_r12 c, c_rbx c, c_rbp c] mem
      in (t\<lparr>t_rsp := rsp, t_rsp3 := c_rsp3 c, t_rflags3 := c_rflags3 c\<rparr>, mem))"

definition switch_load :: "cpu_regs \<Rightarrow> tcb \<Rightarrow> memory \<Rightarrow> cpu_regs" where
  "switch_load c t mem =
     (let rsp = t_rsp t
      in c\<lparr>c_rsp0 := t_rsp0 t, c_rsp3 := t_rsp3 t, c_rflags3 := t_rflags3 t,
           c_r15 := mem rsp, c_r14 := mem (rsp + 8), c_r13 := mem (rsp + 16), c_r12 := mem (rsp + 24),
           c_rbx := mem (rsp + 32), c_rbp := mem (rsp + 40), c_rip := mem (rsp + 48), c_rsp := rsp + 56\<rparr>)"

text \<open>\<open>kernel_to_user_trampoline\<close>, and \<open>initialize_user_cpu\<close> before it, up to the return to user mode;
  the scratch registers it fills are left out.\<close>

definition kernel_to_user_trampoline :: "cpu_regs \<Rightarrow> memory \<Rightarrow> cpu_regs" where
  "kernel_to_user_trampoline c mem =
     (let rsp = c_rsp c
      in c\<lparr>c_r15 := mem rsp, c_r14 := mem (rsp + 8), c_r13 := mem (rsp + 16), c_r12 := mem (rsp + 24),
           c_rbx := mem (rsp + 32), c_rbp := mem (rsp + 40), c_rcx := mem (rsp + 48),
           c_rsp0 := rsp + 56, c_rsp := c_rsp3 c, c_rip := mem (rsp + 48), c_rflags := c_rflags3 c\<rparr>)"

definition initialize_user_cpu :: "cpu_regs \<Rightarrow> memory \<Rightarrow> cpu_regs" where
  "initialize_user_cpu c mem =
     (let rsp = c_rsp c
      in kernel_to_user_trampoline (c\<lparr>c_rdi := mem rsp, c_rsi := mem (rsp + 8), c_rsp := rsp + 16\<rparr>) mem)"

definition task_switch :: "cpu_regs \<Rightarrow> nat \<Rightarrow> nat \<Rightarrow> (nat \<Rightarrow> tcb) \<Rightarrow> memory \<Rightarrow> cpu_regs \<times> (nat \<Rightarrow> tcb) \<times> memory" where
  "task_switch c from to tcbs mem =
     (case switch_save c (tcbs from) mem of (t, mem) \<Rightarrow>
      let tcbs = tcbs(from := t) in (switch_load c (tcbs to) mem, tcbs, mem))"

section \<open>Construction\<close>

text \<open>The constructor, for an object that \<open>kobject_new\<close> made; \<open>raw\<close> is what the control block held
  before, \<open>csr\<close> the value the processor stores. The reference it takes on the parent is not shown.\<close>

definition thread_new :: "kobject \<Rightarrow> tcb \<Rightarrow> nat \<Rightarrow> u8 \<Rightarrow> u64 \<Rightarrow> u64 \<Rightarrow> nat option \<Rightarrow> u32 \<Rightarrow> memory \<Rightarrow> thread \<times> memory" where
  "thread_new ob raw parent pri rsp0 stack_addr creator csr mem =
     (let th = \<lparr>th_object = ob, th_tcb = raw\<lparr>t_priority := pri\<rparr>, th_parent = parent, th_creator = None, th_state = 0,
            th_mxcsr = 0, th_wake_value = 0, th_wake_timeout = 0\<rparr>;
          (th, mem) = (if rsp0 = 0 then setup_kernel_stack stack_addr th mem
                       else (th\<lparr>th_tcb := (th_tcb th)\<lparr>t_rsp0 := rsp0\<rparr>\<rparr>, mem))
      in (th\<lparr>th_creator := creator, th_mxcsr := csr AND NOT 0x3f\<rparr>, mem))"

definition create_idle_thread :: "kobject \<Rightarrow> tcb \<Rightarrow> nat \<Rightarrow> u64 \<Rightarrow> nat option \<Rightarrow> u32 \<Rightarrow> memory \<Rightarrow> thread \<times> memory" where
  "create_idle_thread ob raw kernel_process rsp0 creator csr mem =
     (case thread_new ob raw kernel_process 7 rsp0 0 creator csr mem of (idle, mem) \<Rightarrow>
        (set_state st_ready (set_state st_constant idle), mem))"

section \<open>Object ids\<close>

fun kobjects_new :: "obj_type list \<Rightarrow> u32 list \<Rightarrow> (kobject list \<times> u32 list) res" where
  "kobjects_new [] oids = Inr ([], oids)"
| "kobjects_new (t # ts) oids =
     bindE (kobject_new t oids) (\<lambda>(ob, oids).
     bindE (kobjects_new ts oids) (\<lambda>(obs, oids). Inr (ob # obs, oids)))"

lemma obj_type_number_inj: "obj_type_number t = obj_type_number t' \<Longrightarrow> t = t'"
  by (cases t; cases t') simp_all

lemma obj_type_number_less: "t \<noteq> Max_object \<Longrightarrow> obj_type_number t < 8"
  by (cases t) simp_all

lemma koid_bits:
  "bit (koid ob) n \<longleftrightarrow> n < 32 \<and> bit (k_obj_id ob) n \<or> 60 \<le> n \<and> n < 64 \<and> bit (obj_type_number (k_type ob)) (n - 60)"
  by (auto simp: koid_def koid_type_shift_def koid_type_bits_def bit_or_iff bit_push_bit_iff bit_ucast_iff bit_of_nat_iff
      dest: bit_imp_le_length)

lemma koid_type_koid:
  assumes "k_type ob \<noteq> Max_object"
  shows "koid_type (koid ob) = of_nat (obj_type_number (k_type ob))"
proof (rule bit_eqI)
  fix n
  have "obj_type_number (k_type ob) < 2 ^ 4" using obj_type_number_less [OF assms] by simp
  then have "\<not> bit (obj_type_number (k_type ob)) n" if "4 \<le> n" using that
    by (metis bit_take_bit_iff leD take_bit_nat_eq_self)
  moreover have "bit koid_type_mask n \<longleftrightarrow> n < 4"
    using bit_mask_iff [where 'a = "64 word", of 4 n] by (auto simp: koid_type_mask_def koid_type_bits_def mask_eq_exp_minus_1 numeral_eq_Suc)
  ultimately show "bit (koid_type (koid ob)) n = bit (of_nat (obj_type_number (k_type ob)) :: u64) n"
    by (auto simp: koid_type_def bit_and_iff bit_drop_bit_eq koid_bits koid_type_shift_def koid_type_bits_def bit_of_nat_iff)
qed

lemma koid_inj:
  assumes "koid a = koid b" "k_type a \<noteq> Max_object" "k_type b \<noteq> Max_object"
  shows "k_type a = k_type b \<and> k_obj_id a = k_obj_id b"
proof
  have "(of_nat (obj_type_number (k_type a)) :: u64) = of_nat (obj_type_number (k_type b))"
    using koid_type_koid assms by metis
  then have "obj_type_number (k_type a) = obj_type_number (k_type b)"
    using obj_type_number_less [OF assms(2)] obj_type_number_less [OF assms(3)]
    by (auto simp: word_unat_eq_iff unat_of_nat)
  then show "k_type a = k_type b" by (rule obj_type_number_inj)
  show "k_obj_id a = k_obj_id b"
  proof (rule bit_eqI)
    fix n
    assume n: "possible_bit TYPE(32 word) n"
    then have "bit (koid a) n = bit (koid b) n" using assms(1) by simp
    then show "bit (k_obj_id a) n = bit (k_obj_id b) n" using n by (simp add: koid_bits)
  qed
qed

lemma kobject_new_ok:
  assumes "t \<noteq> Max_object" "length oids = 8"
  shows "kobject_new t oids = Inr (\<lparr>k_handle_count = 0, k_type = t, k_obj_id = oids ! obj_type_number t\<rparr>,
           oids[obj_type_number t := oids ! obj_type_number t + 1])"
  using obj_type_number_less [OF assms(1)] assms(2) by (simp add: kobject_new_def oid_generate_def)

text \<open>Ids are counted up from the state of the counters.\<close>

lemma kobjects_new_ok:
  assumes "Max_object \<notin> set ts" "length oids = 8"
  shows "\<exists>obs oids'. kobjects_new ts oids = Inr (obs, oids') \<and> map k_type obs = ts \<and>
     (\<forall>i < length ts. k_obj_id (obs ! i) = oids ! obj_type_number (ts ! i) + of_nat (count_list (take i ts) (ts ! i)))"
  using assms
proof (induction ts arbitrary: oids)
  case (Cons t ts)
  let ?oids = "oids[obj_type_number t := oids ! obj_type_number t + 1]"
  obtain obs oids' where r: "kobjects_new ts ?oids = Inr (obs, oids')" "map k_type obs = ts"
    and i: "\<And>i. i < length ts \<Longrightarrow> k_obj_id (obs ! i) = ?oids ! obj_type_number (ts ! i) + of_nat (count_list (take i ts) (ts ! i))"
    using Cons.IH [of ?oids] Cons.prems by auto
  let ?ob = "\<lparr>k_handle_count = 0, k_type = t, k_obj_id = oids ! obj_type_number t\<rparr>"
  have "k_obj_id ((?ob # obs) ! i) = oids ! obj_type_number ((t # ts) ! i) + of_nat (count_list (take i (t # ts)) ((t # ts) ! i))"
    if "i < length (t # ts)" for i
  proof (cases i)
    case (Suc j)
    have "t \<noteq> Max_object" "length oids = 8" using Cons.prems by auto
    then have "?oids ! obj_type_number (ts ! j) = oids ! obj_type_number (ts ! j) + (if ts ! j = t then 1 else 0)"
      using obj_type_number_less [of t] by (auto simp: nth_list_update dest: obj_type_number_inj)
    then show ?thesis using that Suc i [of j] by (auto simp: algebra_simps)
  qed simp
  then show ?case using r Cons.prems kobject_new_ok [of t oids] by auto
qed simp

lemma count_list_take_mono: "i \<le> j \<Longrightarrow> count_list (take i xs) x \<le> count_list (take j xs) x"
  by (metis append_take_drop_id count_list_append le_add1 min.absorb1 take_take)

lemma count_list_take_less: "i < j \<Longrightarrow> j \<le> length xs \<Longrightarrow> xs ! i = x \<Longrightarrow> count_list (take i xs) x < count_list (take j xs) x"
  using count_list_take_mono [of "Suc i" j xs x] by (simp add: take_Suc_conv_app_nth)

section \<open>Properties\<close>

text \<open>C31. Every object gets its own id: starting from zeroed counters, up to two to the thirty-two objects
  of any sequence of types are constructed without a failing assertion, the type of each can be read back
  from its koid, and no two of them have the same koid.\<close>

theorem koids_typed_and_unique:
  assumes "Max_object \<notin> set ts" and "length ts \<le> 2 ^ 32"
  shows "\<exists>obs oids. kobjects_new ts (replicate 8 0) = Inr (obs, oids) \<and>
     map (\<lambda>ob. koid_type (koid ob)) obs = map (of_nat \<circ> obj_type_number) ts \<and> distinct (map koid obs)"
proof -
  obtain obs oids where r: "kobjects_new ts (replicate 8 0) = Inr (obs, oids)" and t: "map k_type obs = ts"
    and i: "\<And>i. i < length ts \<Longrightarrow> k_obj_id (obs ! i) = replicate 8 0 ! obj_type_number (ts ! i) + of_nat (count_list (take i ts) (ts ! i))"
    using kobjects_new_ok [of ts "replicate 8 0"] assms(1) by auto
  have len: "length obs = length ts" using t by auto
  have ty: "k_type (obs ! i) = ts ! i" if "i < length ts" for i using t len that by (metis nth_map)
  have nm: "ts ! i \<noteq> Max_object" if "i < length ts" for i using assms(1) that by (metis nth_mem)
  have id: "unat (k_obj_id (obs ! i)) = count_list (take i ts) (ts ! i)" if "i < length ts" for i
  proof -
    have "count_list (take i ts) (ts ! i) \<le> i" using count_le_length [of "take i ts" "ts ! i"] by simp
    then show ?thesis using i [OF that] that assms(2) obj_type_number_less [OF nm [OF that]] by (simp add: unat_of_nat)
  qed
  have "koid (obs ! i) \<noteq> koid (obs ! j)" if "i < j" "j < length ts" for i j
  proof
    assume "koid (obs ! i) = koid (obs ! j)"
    then have "ts ! i = ts ! j" "k_obj_id (obs ! i) = k_obj_id (obs ! j)" using koid_inj [of "obs ! i" "obs ! j"] ty nm that by simp_all
    then show False using id [of i] id [of j] that count_list_take_less [of i j ts "ts ! j"] by simp
  qed
  then have "distinct (map koid obs)" unfolding distinct_conv_nth by (metis len length_map nat_neq_iff nth_map)
  moreover have "map (\<lambda>ob. koid_type (koid ob)) obs = map (of_nat \<circ> obj_type_number) ts"
    by (rule nth_equalityI) (simp_all add: len koid_type_koid ty nm)
  ultimately show ?thesis using r by blast
qed

theorem koids_typed_and_unique_witness:
  "\<exists>obs oids. kobjects_new [Thread_object, Mailbox_object, Thread_object] (replicate 8 0) = Inr (obs, oids) \<and>
     map (\<lambda>ob. koid_type (koid ob)) obs = map (of_nat \<circ> obj_type_number) [Thread_object, Mailbox_object, Thread_object] \<and>
     distinct (map koid obs)"
  by (rule koids_typed_and_unique) simp_all

text \<open>C32. The first switch to a new thread: after its kernel stack was set up and the user thunk added, the
  second half of a task switch, on whatever processor state, arrives at the trampoline, and the trampoline
  leaves for user mode at the entry point with both arguments in their registers, interrupts enabled, the
  thread's user stack as stack pointer and the whole kernel stack free again.\<close>

theorem thread_first_switch:
  "let (th1, mem1) = setup_kernel_stack stack_addr th mem;
       (th2, mem2) = add_thunk_user trampoline rip3 arg0 arg1 0 flags th1 mem1;
       c1 = switch_load c (th_tcb th2) mem2;
       c2 = initialize_user_cpu c1 mem2
   in c_rip c1 = trampoline \<and> c_rip c2 = rip3 \<and> c_rdi c2 = arg0 \<and> c_rsi c2 = arg1 \<and>
      c_rsp c2 = t_rsp3 (th_tcb th) \<and> c_rflags c2 = flags OR 0x200 \<and> bit (c_rflags c2) 9 \<and>
      c_rsp0 c2 = stack_addr + 8192 - 16 \<and> c_rsp0 c2 = t_rsp0 (th_tcb th2)"
proof -
  define r where "r = stack_addr + 8192 - 16 - 8 * 9 - 8 * 7"
  obtain th1 mem1 where 1: "setup_kernel_stack stack_addr th mem = (th1, mem1)" by fastforce
  obtain th2 mem2 where 2: "add_thunk_user trampoline rip3 arg0 arg1 0 flags th1 mem1 = (th2, mem2)" by fastforce
  have r1: "stack_addr + 8192 - 16 = r + 128" by (simp add: r_def)
  have rsp: "t_rsp (th_tcb th1) = r + 128" "t_rsp0 (th_tcb th1) = r + 128" "t_rsp3 (th_tcb th1) = t_rsp3 (th_tcb th)"
    using 1 by (auto simp: setup_kernel_stack_def r_def Let_def)
  have "bit (flags OR 0x200) 9" by (simp add: bit_or_iff)
  then show ?thesis using 2 unfolding 1 by (simp add: r1)
      (auto simp: add_thunk_user_def add_thunk_kernel_def switch_load_def initialize_user_cpu_def kernel_to_user_trampoline_def Let_def rsp)
qed

text \<open>C33. A switched-out thread resumes where it was: once a thread has been switched out, switching back
  to it, with its control block and the seven words at the top of its stack as the switch left them,
  restores the callee-saved registers, the stack pointer, the user stack pointer and the user flags, and
  returns to the caller of the switch.\<close>

theorem task_switch_restores:
  assumes "task_switch c a b tcbs mem = (c', tcbs', mem')"
    and "tcbs'' a = tcbs' a" and "\<forall>i \<in> {0..<7}. mem'' (c_rsp c - 48 + of_nat (8 * i)) = mem' (c_rsp c - 48 + of_nat (8 * i))"
    and "c2 = switch_load c1 (tcbs'' a) mem''"
  shows "c_rip c2 = mem (c_rsp c) \<and> c_rsp c2 = c_rsp c + 8 \<and>
     (c_rbx c2, c_rbp c2, c_r12 c2, c_r13 c2, c_r14 c2, c_r15 c2) = (c_rbx c, c_rbp c, c_r12 c, c_r13 c, c_r14 c, c_r15 c) \<and>
     c_rsp3 c2 = c_rsp3 c \<and> c_rflags3 c2 = c_rflags3 c \<and> c_rsp0 c2 = t_rsp0 (tcbs a)"
proof -
  define r where "r = c_rsp c - 48"
  have r: "c_rsp c = r + 48" by (simp add: r_def)
  have m: "mem'' (r + of_nat (8 * i)) = mem' (r + of_nat (8 * i))" if "i < 7" for i using assms(3) that by (simp add: r_def)
  have words: "mem'' r = mem' r" "mem'' (r + 8) = mem' (r + 8)" "mem'' (r + 16) = mem' (r + 16)" "mem'' (r + 24) = mem' (r + 24)"
    "mem'' (r + 32) = mem' (r + 32)" "mem'' (r + 40) = mem' (r + 40)" "mem'' (r + 48) = mem' (r + 48)"
    using m [of 0] m [of 1] m [of 2] m [of 3] m [of 4] m [of 5] m [of 6] by simp_all
  show ?thesis using assms(1) unfolding assms(2,4)
    by (auto simp: task_switch_def switch_save_def switch_load_def Let_def r words)
qed

definition regs_example :: cpu_regs where
  "regs_example = \<lparr>c_rip = 1, c_rsp = 0x2000, c_rbp = 3, c_rbx = 4, c_r12 = 5, c_r13 = 6, c_r14 = 7, c_r15 = 8, c_rdi = 9,
     c_rsi = 10, c_rcx = 11, c_rflags = 12, c_rsp0 = 13, c_rsp3 = 14, c_rflags3 = 15\<rparr>"

definition tcb_example :: "u64 \<Rightarrow> tcb" where
  "tcb_example sp = \<lparr>t_rsp = sp, t_rsp0 = sp + 64, t_rsp3 = 77, t_rflags3 = 0x200, t_priority = 1, t_time_left = 500,
     t_last_ran = 0, t_kernel_stack = 0, t_cpu = Some 0\<rparr>"

theorem task_switch_restores_witness:
  "case task_switch regs_example 0 1 (\<lambda>t. if t = 0 then tcb_example 0x2000 else tcb_example 0x4000) (\<lambda>a. a + 1) of
     (c', tcbs', mem') \<Rightarrow> c_rip c' = 0x4031 \<and> c_rip (switch_load c' (tcbs' 0) mem') = 0x2001 \<and>
       c_r15 (switch_load c' (tcbs' 0) mem') = 8"
proof -
  obtain c' tcbs' mem' where
    t: "task_switch regs_example 0 1 (\<lambda>t. if t = 0 then tcb_example 0x2000 else tcb_example 0x4000) (\<lambda>a. a + 1) = (c', tcbs', mem')"
    by (metis prod_cases3)
  from t have "c_rip c' = 0x4031"
    by (auto simp: task_switch_def switch_save_def switch_load_def regs_example_def tcb_example_def Let_def)
  with task_switch_restores [OF t, of tcbs' mem' "switch_load c' (tcbs' 0) mem'" c'] t show ?thesis by (simp add: regs_example_def)
qed

end
