(* ===== verification/Scheduler.thy ===== *)
theory Scheduler
  imports Kernel_Threads "HOL-Library.Multiset"
begin

text \<open>
  The task scheduler, \<open>src/src/kernel/scheduler.cpp\<close> and \<open>scheduler.h\<close>. The lists of threads are lists
  of thread numbers, the abstraction that theory \<open>Linked_List\<close> establishes for \<open>util::linked_list\<close>: pushing
  and popping at the ends, and removing a node that is on the list. The locks are not part of the model: an
  operation holds the lock of its queue throughout, and \<open>schedule\<close> ends where it gives the lock back, before
  the call of \<open>task_switch\<close>. The clock and the timer are arguments.
\<close>

unbundle bit_operations_syntax

section \<open>State\<close>

record run_queue =
  rq_current :: "nat option"
  rq_prev :: u64
  rq_ready :: "nat list list"
  rq_blocked :: "nat list"
  rq_last_promotion :: u64
  rq_last_steal :: u64

record sched =
  s_add_index :: u32
  s_run_queues :: "run_queue list"
  s_steal_turn :: u32
  s_threads :: threads
  s_cpu_thread :: "nat \<Rightarrow> nat option"
  s_cpu_process :: "nat \<Rightarrow> nat option"
  s_timer :: "nat \<Rightarrow> u32"

definition num_priorities :: nat where "num_priorities = 8"
definition idle_priority :: nat where "idle_priority = num_priorities - 1"
definition max_priority :: nat where "max_priority = idle_priority - 1"
definition promote_limit :: u8 where "promote_limit = 1"
definition quantum_micros :: u64 where "quantum_micros = 500"
definition promote_frequency :: u64 where "promote_frequency = 100"
definition steal_frequency :: u64 where "steal_frequency = 10"

section \<open>Threads and lists\<close>

definition get_thread :: "nat \<Rightarrow> threads \<Rightarrow> thread res" where
  "get_thread t ths = (case ths t of None \<Rightarrow> Inl Use_after_free | Some th \<Rightarrow> Inr th)"

definition priority_of :: "thread \<Rightarrow> nat" where
  "priority_of th = unat (t_priority (th_tcb th))"

definition map_tcb :: "(tcb \<Rightarrow> tcb) \<Rightarrow> thread \<Rightarrow> thread" where
  "map_tcb f th = th\<lparr>th_tcb := f (th_tcb th)\<rparr>"

definition ready_push_back :: "nat \<Rightarrow> nat \<Rightarrow> run_queue \<Rightarrow> run_queue res" where
  "ready_push_back p t q = bindE (array_get (rq_ready q) p) (\<lambda>l. Inr (q\<lparr>rq_ready := (rq_ready q)[p := l @ [t]]\<rparr>))"

definition ready_remove :: "nat \<Rightarrow> nat \<Rightarrow> run_queue \<Rightarrow> run_queue res" where
  "ready_remove p t q = bindE (array_get (rq_ready q) p) (\<lambda>l.
     bindE (guardE Wrong_list (t \<in> set l)) (\<lambda>_. Inr (q\<lparr>rq_ready := (rq_ready q)[p := remove1 t l]\<rparr>)))"

definition blocked_remove :: "nat \<Rightarrow> run_queue \<Rightarrow> run_queue res" where
  "blocked_remove t q = bindE (guardE Wrong_list (t \<in> set (rq_blocked q))) (\<lambda>_. Inr (q\<lparr>rq_blocked := remove1 t (rq_blocked q)\<rparr>))"

section \<open>Operations\<close>

definition quantum :: "nat \<Rightarrow> u32 res" where
  "quantum p = bindE (shl64 quantum_micros p) (\<lambda>q. Inr (ucast q))"

definition run_queue_new :: run_queue where
  "run_queue_new = \<lparr>rq_current = None, rq_prev = 0, rq_ready = replicate num_priorities [], rq_blocked = [],
     rq_last_promotion = 0, rq_last_steal = 0\<rparr>"

definition scheduler_new :: "nat \<Rightarrow> threads \<Rightarrow> sched" where
  "scheduler_new cpus ths = \<lparr>s_add_index = 0, s_run_queues = replicate cpus run_queue_new, s_steal_turn = 0, s_threads = ths,
     s_cpu_thread = \<lambda>_. None, s_cpu_process = \<lambda>_. None, s_timer = \<lambda>_. 0\<rparr>"

text \<open>\<open>start\<close> on the CPU of the given index, whose current thread is its idle thread.\<close>

definition sched_start :: "nat \<Rightarrow> sched \<Rightarrow> sched res" where
  "sched_start cpu s =
     bindE (array_get (s_run_queues s) cpu) (\<lambda>q.
     case s_cpu_thread s cpu of None \<Rightarrow> Inl Null_deref
     | Some idle \<Rightarrow> Inr (s\<lparr>s_run_queues := (s_run_queues s)[cpu := q\<lparr>rq_current := Some idle\<rparr>],
                           s_timer := (s_timer s)(cpu := 10)\<rparr>))"

definition sched_add_thread :: "nat \<Rightarrow> sched \<Rightarrow> sched res" where
  "sched_add_thread t s =
     (let cpu = unat (s_add_index s) mod length (s_run_queues s);
          s = s\<lparr>s_add_index := s_add_index s + 1\<rparr>
      in bindE (array_get (s_run_queues s) cpu) (\<lambda>q.
         bindE (th_retain t (s_threads s)) (\<lambda>ths.
         bindE (get_thread t ths) (\<lambda>th.
         bindE (quantum (priority_of th)) (\<lambda>left.
         Inr (s\<lparr>s_threads := ths(t \<mapsto> map_tcb (\<lambda>c. c\<lparr>t_cpu := Some cpu, t_time_left := left\<rparr>) th),
                s_run_queues := (s_run_queues s)[cpu := q\<lparr>rq_blocked := rq_blocked q @ [t]\<rparr>]\<rparr>))))))"

text \<open>The loop of \<open>prune\<close> over the blocked list; the next node is read before the current one is
  removed.\<close>

fun prune_loop :: "u64 \<Rightarrow> nat list \<Rightarrow> run_queue \<Rightarrow> threads \<Rightarrow> (run_queue \<times> threads) res" where
  "prune_loop now [] q ths = Inr (q, ths)"
| "prune_loop now (t # rest) q ths =
     bindE (get_thread t ths) (\<lambda>th.
     let th = (if th_wake_timeout th \<noteq> 0 \<and> th_wake_timeout th \<le> now then th_wake_only th else th);
         ths = ths(t \<mapsto> th)
     in if \<not> th_exited th \<and> \<not> th_ready th then prune_loop now rest q ths
        else if th_exited th
        then if rq_current q = Some t then prune_loop now rest q ths
             else bindE (blocked_remove t q) (\<lambda>q.
                  bindE (th_release t ths) (\<lambda>ths.
                  prune_loop now rest q ths))
        else bindE (blocked_remove t q) (\<lambda>q.
             bindE (ready_push_back (priority_of th) t q) (\<lambda>q.
             prune_loop now rest q ths)))"

definition prune :: "u64 \<Rightarrow> run_queue \<Rightarrow> threads \<Rightarrow> (run_queue \<times> threads) res" where
  "prune now q ths = prune_loop now (rq_blocked q) q ths"

text \<open>The loop of \<open>check_promotions\<close> over one ready list. A promoted node is moved to the end of another
  list, where it has no successor: the iterator, which steps from it, ends the loop.\<close>

fun promote_loop :: "u64 \<Rightarrow> nat list \<Rightarrow> run_queue \<Rightarrow> threads \<Rightarrow> (run_queue \<times> threads) res" where
  "promote_loop now [] q ths = Inr (q, ths)"
| "promote_loop now (t # rest) q ths =
     bindE (get_thread t ths) (\<lambda>th.
     if th_constant th then promote_loop now rest q ths
     else let age = now - t_last_ran (th_tcb th);
              priority = t_priority (th_tcb th)
          in bindE (quantum (unat priority)) (\<lambda>slice.
             if age > ucast (slice * 2) \<and> priority > promote_limit
             then bindE (ready_remove (unat priority) t q) (\<lambda>q.
                  bindE (quantum (unat (priority - 1))) (\<lambda>left.
                  bindE (ready_push_back (unat (priority - 1)) t q) (\<lambda>q.
                  Inr (q, ths(t \<mapsto> map_tcb (\<lambda>c. c\<lparr>t_priority := priority - 1, t_time_left := left\<rparr>) th)))))
             else promote_loop now rest q ths))"

fun promote_lists :: "u64 \<Rightarrow> nat list \<Rightarrow> run_queue \<Rightarrow> threads \<Rightarrow> (run_queue \<times> threads) res" where
  "promote_lists now [] q ths = Inr (q, ths)"
| "promote_lists now (p # ps) q ths =
     bindE (array_get (rq_ready q) p) (\<lambda>l.
     bindE (promote_loop now l q ths) (\<lambda>(q, ths).
     promote_lists now ps q ths))"

definition check_promotions :: "u64 \<Rightarrow> run_queue \<Rightarrow> threads \<Rightarrow> (run_queue \<times> threads) res" where
  "check_promotions now q ths =
     bindE (promote_lists now [0..<num_priorities] q ths) (\<lambda>(q, ths). Inr (q\<lparr>rq_last_promotion := now\<rparr>, ths))"

fun balance_loop :: "nat \<Rightarrow> nat \<Rightarrow> nat list \<Rightarrow> nat list \<Rightarrow> threads \<Rightarrow> (nat list \<times> nat list \<times> threads) res" where
  "balance_loop 0 cpu to from ths = Inr (to, from, ths)"
| "balance_loop (Suc n) cpu to [] ths = Inl Null_deref"
| "balance_loop (Suc n) cpu to (t # from) ths =
     bindE (get_thread t ths) (\<lambda>th.
     balance_loop n cpu (t # to) from (ths(t \<mapsto> map_tcb (\<lambda>c. c\<lparr>t_cpu := Some cpu\<rparr>) th)))"

definition balance_lists :: "nat \<Rightarrow> nat list \<Rightarrow> nat list \<Rightarrow> threads \<Rightarrow> (nat list \<times> nat list \<times> threads) res" where
  "balance_lists cpu to from ths =
     (if length from \<le> length to then Inr (to, from, ths)
      else balance_loop ((length from - length to) div 2) cpu to from ths)"

text \<open>The inner loop of \<open>steal_work\<close>, for this CPU's queue and another one.\<close>

fun steal_ready :: "nat list \<Rightarrow> nat \<Rightarrow> run_queue \<Rightarrow> run_queue \<Rightarrow> threads \<Rightarrow> (run_queue \<times> run_queue \<times> threads) res" where
  "steal_ready [] cpu mine other ths = Inr (mine, other, ths)"
| "steal_ready (p # ps) cpu mine other ths =
     bindE (array_get (rq_ready mine) p) (\<lambda>to.
     bindE (array_get (rq_ready other) p) (\<lambda>from.
     bindE (balance_lists cpu to from ths) (\<lambda>(to, from, ths).
     steal_ready ps cpu (mine\<lparr>rq_ready := (rq_ready mine)[p := to]\<rparr>) (other\<lparr>rq_ready := (rq_ready other)[p := from]\<rparr>) ths)))"

definition steal_from :: "nat \<Rightarrow> run_queue \<Rightarrow> run_queue \<Rightarrow> threads \<Rightarrow> (run_queue \<times> run_queue \<times> threads) res" where
  "steal_from cpu mine other ths =
     bindE (steal_ready [0..<idle_priority] cpu mine other ths) (\<lambda>(mine, other, ths).
     bindE (balance_lists cpu (rq_blocked mine) (rq_blocked other) ths) (\<lambda>(to, from, ths).
     Inr (mine\<lparr>rq_blocked := to\<rparr>, other\<lparr>rq_blocked := from\<rparr>, ths)))"

fun steal_loop :: "nat list \<Rightarrow> nat \<Rightarrow> run_queue list \<Rightarrow> threads \<Rightarrow> (run_queue list \<times> threads) res" where
  "steal_loop [] cpu qs ths = Inr (qs, ths)"
| "steal_loop (i # is) cpu qs ths =
     (if i = cpu then steal_loop is cpu qs ths
      else bindE (array_get qs cpu) (\<lambda>mine.
           bindE (array_get qs i) (\<lambda>other.
           bindE (steal_from cpu mine other ths) (\<lambda>(mine, other, ths).
           steal_loop is cpu (qs[cpu := mine, i := other]) ths))))"

definition steal_work :: "nat \<Rightarrow> run_queue list \<Rightarrow> threads \<Rightarrow> (run_queue list \<times> threads) res" where
  "steal_work cpu qs ths = steal_loop [0..<length qs] cpu qs ths"

text \<open>\<open>schedule\<close>, in the order of the code: stealing when it is this CPU's turn, the account of the time
  slice, the choice of the list for the outgoing thread, pruning and promotions, the choice of the next
  thread, and the switch of the CPU's records to it.\<close>

definition schedule_steal :: "nat \<Rightarrow> u64 \<Rightarrow> sched \<Rightarrow> sched res" where
  "schedule_steal cpu now s =
     bindE (array_get (s_run_queues s) cpu) (\<lambda>q.
     if unat (s_steal_turn s) = cpu \<and> now - rq_last_steal q > steal_frequency
     then bindE (steal_work cpu (s_run_queues s) (s_threads s)) (\<lambda>(qs, ths).
          bindE (array_get qs cpu) (\<lambda>q.
          Inr (s\<lparr>s_run_queues := qs[cpu := q\<lparr>rq_last_steal := now\<rparr>], s_threads := ths,
                 s_steal_turn := (s_steal_turn s + 1) mod of_nat (length qs)\<rparr>)))
     else Inr s)"

definition schedule_account :: "u32 \<Rightarrow> thread \<Rightarrow> thread res" where
  "schedule_account remaining th =
     (let th = map_tcb (\<lambda>c. c\<lparr>t_time_left := remaining\<rparr>) th;
          priority = t_priority (th_tcb th)
      in if remaining = 0
         then let th = (if unat priority < max_priority \<and> \<not> th_constant th then map_tcb (\<lambda>c. c\<lparr>t_priority := priority + 1\<rparr>) th else th)
              in bindE (quantum (priority_of th)) (\<lambda>left. Inr (map_tcb (\<lambda>c. c\<lparr>t_time_left := left\<rparr>) th))
         else bindE (quantum (unat priority)) (\<lambda>slice.
              Inr (map_tcb (\<lambda>c. c\<lparr>t_time_left := t_time_left c + drop_bit 4 slice\<rparr>) th)))"

definition schedule_requeue :: "nat \<Rightarrow> thread \<Rightarrow> run_queue \<Rightarrow> run_queue res" where
  "schedule_requeue t th q =
     (if th_ready th then ready_push_back (priority_of th) t q
      else Inr (q\<lparr>rq_blocked := rq_blocked q @ [t]\<rparr>))"

fun schedule_pick :: "nat \<Rightarrow> nat list list \<Rightarrow> nat res" where
  "schedule_pick p [] = Inl Assert_failed"
| "schedule_pick p (l # ls) = (if l = [] then schedule_pick (Suc p) ls else Inr p)"

definition schedule_queue :: "u32 \<Rightarrow> u64 \<Rightarrow> nat \<Rightarrow> run_queue \<Rightarrow> threads \<Rightarrow> (nat \<times> run_queue \<times> threads) res" where
  "schedule_queue remaining now t q ths =
     bindE (get_thread t ths) (\<lambda>th.
     bindE (schedule_account remaining th) (\<lambda>th.
     bindE (schedule_requeue t th q) (\<lambda>q.
     bindE (prune now q (ths(t \<mapsto> th))) (\<lambda>(q, ths).
     bindE (if now - rq_last_promotion q > promote_frequency then check_promotions now q ths else Inr (q, ths)) (\<lambda>(q, ths).
     bindE (schedule_pick 0 (rq_ready q)) (\<lambda>p.
     bindE (get_thread t ths) (\<lambda>th.
     let ths = ths(t \<mapsto> map_tcb (\<lambda>c. c\<lparr>t_last_ran := now\<rparr>) th);
         l = rq_ready q ! p; next = hd l;
         q = q\<lparr>rq_ready := (rq_ready q)[p := tl l]\<rparr>
     in bindE (get_thread next ths) (\<lambda>nth.
        Inr (next, q, ths(next \<mapsto> map_tcb (\<lambda>c. c\<lparr>t_last_ran := now\<rparr>) nth))))))))))"

text \<open>The result is the new state and the thread to switch to, if it is not the one that runs.\<close>

definition schedule :: "nat \<Rightarrow> u32 \<Rightarrow> u64 \<Rightarrow> sched \<Rightarrow> (sched \<times> nat option) res" where
  "schedule cpu remaining now s =
     bindE (schedule_steal cpu now s) (\<lambda>s.
     bindE (array_get (s_run_queues s) cpu) (\<lambda>q.
     case rq_current q of None \<Rightarrow> Inl Null_deref
     | Some t \<Rightarrow>
         bindE (schedule_queue remaining now t q (s_threads s)) (\<lambda>(next, q, ths).
         bindE (get_thread next ths) (\<lambda>nth.
         let s = s\<lparr>s_threads := ths, s_timer := (s_timer s)(cpu := t_time_left (th_tcb nth))\<rparr>
         in if next = t
            then Inr (s\<lparr>s_run_queues := (s_run_queues s)[cpu := q]\<rparr>, None)
            else bindE (get_thread t ths) (\<lambda>th.
                 Inr (s\<lparr>s_run_queues := (s_run_queues s)[cpu := q\<lparr>rq_prev := ucast (k_obj_id (th_object th)), rq_current := Some next\<rparr>],
                        s_cpu_thread := (s_cpu_thread s)(cpu := Some next),
                        s_cpu_process := (s_cpu_process s)(cpu := Some (th_parent nth))\<rparr>, Some next))))))"

text \<open>The CPU that \<open>maybe_schedule\<close> interrupts, if any.\<close>

definition maybe_schedule :: "nat \<Rightarrow> sched \<Rightarrow> nat option res" where
  "maybe_schedule t s =
     bindE (get_thread t (s_threads s)) (\<lambda>th.
     case t_cpu (th_tcb th) of None \<Rightarrow> Inl Assert_failed
     | Some cpu \<Rightarrow>
         bindE (array_get (s_run_queues s) cpu) (\<lambda>q.
         case rq_current q of None \<Rightarrow> Inl Null_deref
         | Some c \<Rightarrow> bindE (get_thread c (s_threads s)) (\<lambda>cur.
             Inr (if t_priority (th_tcb cur) \<le> t_priority (th_tcb th) then None else Some cpu))))"

section \<open>States of threads\<close>

definition prio :: "threads \<Rightarrow> nat \<Rightarrow> nat option" where
  "prio ths t = map_option priority_of (ths t)"

definition th_keeps :: "thread \<Rightarrow> thread \<Rightarrow> bool" where
  "th_keeps a b \<longleftrightarrow> th_exited b = th_exited a \<and> th_constant b = th_constant a \<and> (th_ready a \<longrightarrow> th_ready b) \<and>
     (th_constant a \<longrightarrow> priority_of b = priority_of a)"

text \<open>What a step of the scheduler does to threads, those it gives up apart: they exist before and after,
  none exits, none stops being ready, and threads of constant priority keep theirs.\<close>

definition threads_keep :: "nat set \<Rightarrow> threads \<Rightarrow> threads \<Rightarrow> bool" where
  "threads_keep gone ths ths' \<longleftrightarrow> (\<forall>t. t \<notin> gone \<longrightarrow> rel_option th_keeps (ths t) (ths' t))"

lemma th_keeps_refl [simp]: "th_keeps a a"
  by (simp add: th_keeps_def)

lemma th_keeps_trans: "th_keeps a b \<Longrightarrow> th_keeps b c \<Longrightarrow> th_keeps a c"
  by (auto simp: th_keeps_def)

lemma threads_keep_refl [simp]: "threads_keep G ths ths"
  by (auto simp: threads_keep_def option.rel_refl)

lemma threads_keep_trans:
  assumes "threads_keep G a b" "threads_keep H b c"
  shows "threads_keep (G \<union> H) a c"
  unfolding threads_keep_def
proof (intro allI impI)
  fix t
  assume "t \<notin> G \<union> H"
  then have "rel_option th_keeps (a t) (b t)" "rel_option th_keeps (b t) (c t)" using assms by (auto simp: threads_keep_def)
  then show "rel_option th_keeps (a t) (c t)"
    by (cases "a t"; cases "b t"; cases "c t") (auto intro: th_keeps_trans)
qed

lemma threads_keep_upd: "ths t = Some a \<Longrightarrow> th_keeps a b \<Longrightarrow> threads_keep G ths (ths(t \<mapsto> b))"
  by (auto simp: threads_keep_def option.rel_refl)

lemma threads_keep_mono: "threads_keep G a b \<Longrightarrow> G \<subseteq> H \<Longrightarrow> threads_keep H a b"
  by (auto simp: threads_keep_def)

lemma state_set_ready:
  "th_exited (set_state st_ready th) = th_exited th" "th_constant (set_state st_ready th) = th_constant th"
  "th_ready (set_state st_ready th)"
  by (simp_all add: th_exited_def th_constant_def th_ready_def has_state_def set_state_def st_ready_def st_exited_def st_constant_def
      bit.conj_disj_distrib2)

lemma map_tcb_state [simp]:
  "th_exited (map_tcb f th) = th_exited th" "th_constant (map_tcb f th) = th_constant th" "th_ready (map_tcb f th) = th_ready th"
  "th_tcb (map_tcb f th) = f (th_tcb th)"
  by (simp_all add: th_exited_def th_constant_def th_ready_def has_state_def map_tcb_def)

lemma th_wake_only_state [simp]:
  "th_exited (th_wake_only th) = th_exited th" "th_constant (th_wake_only th) = th_constant th" "th_ready (th_wake_only th)"
  "priority_of (th_wake_only th) = priority_of th"
  using state_set_ready [of "th\<lparr>th_wake_timeout := 0\<rparr>"]
  by (simp_all add: th_wake_only_def) (simp_all add: th_exited_def th_constant_def has_state_def priority_of_def set_state_def)

lemma prio_upd [simp]: "prio (ths(t \<mapsto> th)) u = (if u = t then Some (priority_of th) else prio ths u)"
  by (simp add: prio_def)

lemma prio_exists: "prio ths t = Some p \<Longrightarrow> \<exists>th. ths t = Some th \<and> priority_of th = p"
  by (auto simp: prio_def)

lemma get_thread_some [simp]: "ths t = Some th \<Longrightarrow> get_thread t ths = Inr th"
  by (simp add: get_thread_def)

lemma quantum_ok: "p < 64 \<Longrightarrow> \<exists>q. quantum p = Inr q"
  by (simp add: quantum_def)

section \<open>Well-formed queues\<close>

definition rq_lists :: "run_queue \<Rightarrow> nat list" where
  "rq_lists q = concat (rq_ready q) @ rq_blocked q"

definition rq_ok :: "threads \<Rightarrow> run_queue \<Rightarrow> bool" where
  "rq_ok ths q \<longleftrightarrow> length (rq_ready q) = 8 \<and> (\<forall>p<8. \<forall>t \<in> set (rq_ready q ! p). prio ths t = Some p) \<and>
     (\<forall>t \<in> set (rq_blocked q). \<exists>p<8. prio ths t = Some p)"

lemma set_rq_lists: "length (rq_ready q) = 8 \<Longrightarrow> t \<in> set (rq_lists q) \<longleftrightarrow> (\<exists>p<8. t \<in> set (rq_ready q ! p)) \<or> t \<in> set (rq_blocked q)"
  by (auto simp: rq_lists_def in_set_conv_nth) (metis nth_mem)+

lemma rq_ok_cong:
  assumes "rq_ok ths q" "\<And>t. t \<in> set (rq_lists q) \<Longrightarrow> prio ths' t = prio ths t"
  shows "rq_ok ths' q"
proof -
  have l: "length (rq_ready q) = 8" using assms(1) by (simp add: rq_ok_def)
  have "prio ths' t = prio ths t" if "p < 8" "t \<in> set (rq_ready q ! p)" for p t using assms(2) that l by (auto simp: set_rq_lists)
  moreover have "prio ths' t = prio ths t" if "t \<in> set (rq_blocked q)" for t using assms(2) that l by (auto simp: set_rq_lists)
  ultimately show ?thesis using assms(1) by (simp add: rq_ok_def)
qed

lemma mset_concat_update: "p < length xs \<Longrightarrow> mset (concat (xs[p := ys])) + mset (xs ! p) = mset (concat xs) + mset ys"
proof (induction xs arbitrary: p)
  case (Cons x xs)
  then show ?case by (cases p) (auto simp: ac_simps)
qed simp

lemma mset_concat_remove:
  "p < length xs \<Longrightarrow> t \<in> set (xs ! p) \<Longrightarrow> mset (concat xs) = add_mset t (mset (concat (xs[p := remove1 t (xs ! p)])))"
proof (induction xs arbitrary: p)
  case (Cons x xs)
  then show ?case by (cases p) (auto simp: ac_simps)
qed simp

lemma ready_push_back_ok:
  assumes "rq_ok ths q" "prio ths t = Some p" "p < 8"
  obtains q' where "ready_push_back p t q = Inr q'" and "rq_ok ths q'" and "mset (rq_lists q') = add_mset t (mset (rq_lists q))"
    and "q' = q\<lparr>rq_ready := (rq_ready q)[p := rq_ready q ! p @ [t]]\<rparr>"
proof -
  let ?q = "q\<lparr>rq_ready := (rq_ready q)[p := rq_ready q ! p @ [t]]\<rparr>"
  have l: "length (rq_ready q) = 8" using assms(1) by (simp add: rq_ok_def)
  have "rq_ok ths ?q" using assms by (auto simp: rq_ok_def nth_list_update)
  moreover have "mset (rq_lists ?q) = add_mset t (mset (rq_lists q))"
    using mset_concat_update [of p "rq_ready q" "rq_ready q ! p @ [t]"] l assms(3) by (simp add: rq_lists_def)
  ultimately show ?thesis using that [of ?q] l assms(3) by (simp add: ready_push_back_def)
qed

lemma ready_remove_ok:
  assumes "rq_ok ths q" "t \<in> set (rq_ready q ! p)" "p < 8"
  obtains q' where "ready_remove p t q = Inr q'" and "rq_ok ths q'" and "mset (rq_lists q) = add_mset t (mset (rq_lists q'))"
    and "q' = q\<lparr>rq_ready := (rq_ready q)[p := remove1 t (rq_ready q ! p)]\<rparr>"
proof -
  let ?q = "q\<lparr>rq_ready := (rq_ready q)[p := remove1 t (rq_ready q ! p)]\<rparr>"
  have l: "length (rq_ready q) = 8" using assms(1) by (simp add: rq_ok_def)
  have "rq_ok ths ?q" using assms set_remove1_subset [of t "rq_ready q ! p"] by (auto simp: rq_ok_def nth_list_update)
  moreover have "mset (concat (rq_ready q)) = add_mset t (mset (concat ((rq_ready q)[p := remove1 t (rq_ready q ! p)])))"
    using mset_concat_remove [of p "rq_ready q" t] l assms(2,3) by simp
  then have "mset (rq_lists q) = add_mset t (mset (rq_lists ?q))" by (simp add: rq_lists_def)
  ultimately show ?thesis using that [of ?q] l assms(2,3) by (simp add: ready_remove_def)
qed

lemma blocked_remove_ok:
  assumes "rq_ok ths q" "t \<in> set (rq_blocked q)"
  obtains q' where "blocked_remove t q = Inr q'" and "rq_ok ths q'" and "mset (rq_lists q) = add_mset t (mset (rq_lists q'))"
    and "q' = q\<lparr>rq_blocked := remove1 t (rq_blocked q)\<rparr>"
proof -
  let ?q = "q\<lparr>rq_blocked := remove1 t (rq_blocked q)\<rparr>"
  have "rq_ok ths ?q" using assms set_remove1_subset [of t "rq_blocked q"] by (auto simp: rq_ok_def)
  moreover have "mset (rq_lists q) = add_mset t (mset (rq_lists ?q))" using assms(2) by (simp add: rq_lists_def)
  ultimately show ?thesis using that [of ?q] assms(2) by (simp add: blocked_remove_def)
qed

text \<open>What an operation on a queue guarantees: the threads on the lists are those from before, without the
  ones it gave up, threads on no list are as before, and constant threads of the least urgent list, the idle thread among them, stay on it.\<close>

definition queue_step :: "nat list \<Rightarrow> run_queue \<Rightarrow> threads \<Rightarrow> run_queue \<Rightarrow> threads \<Rightarrow> bool" where
  "queue_step gone q ths q' ths' \<longleftrightarrow> rq_ok ths' q' \<and> mset (rq_lists q) = mset (rq_lists q') + mset gone \<and>
     threads_keep (set gone) ths ths' \<and> rq_current q' = rq_current q \<and>
     (\<forall>t. t \<notin> set (rq_lists q) \<longrightarrow> ths' t = ths t) \<and>
     (\<forall>t th. t \<in> set (rq_ready q ! 7) \<longrightarrow> ths t = Some th \<longrightarrow> th_constant th \<longrightarrow> t \<in> set (rq_ready q' ! 7))"

lemma queue_stepD:
  assumes "queue_step gone q ths q' ths'"
  shows "rq_ok ths' q'" "mset (rq_lists q) = mset (rq_lists q') + mset gone" "threads_keep (set gone) ths ths'"
    "rq_current q' = rq_current q"
    "t \<in> set (rq_ready q ! 7) \<Longrightarrow> ths t = Some th \<Longrightarrow> th_constant th \<Longrightarrow> t \<in> set (rq_ready q' ! 7)"
    "u \<notin> set (rq_lists q) \<Longrightarrow> ths' u = ths u" "set (rq_lists q') \<subseteq> set (rq_lists q)"
proof -
  have "set_mset (mset (rq_lists q')) \<subseteq> set_mset (mset (rq_lists q))" using assms by (auto simp: queue_step_def simp del: set_mset_mset)
  then show "set (rq_lists q') \<subseteq> set (rq_lists q)" by simp
qed (use assms in \<open>auto simp: queue_step_def\<close>)

lemma queue_step_refl: "rq_ok ths q \<Longrightarrow> queue_step [] q ths q ths"
  by (simp add: queue_step_def)

lemma threads_keepD:
  assumes "threads_keep G ths ths'" "t \<notin> G" "ths t = Some th"
  obtains th' where "ths' t = Some th'" "th_keeps th th'"
proof -
  have "rel_option th_keeps (Some th) (ths' t)" using assms by (metis threads_keep_def)
  then show ?thesis using that by (cases "ths' t") auto
qed

lemma distinct_mset_eq: "distinct xs \<Longrightarrow> mset xs = mset ys + mset zs \<Longrightarrow> distinct ys \<and> distinct zs \<and> set ys \<inter> set zs = {}"
  by (metis distinct_append mset_append mset_eq_imp_distinct_iff)

lemma queue_step_distinct: "queue_step gone q ths q' ths' \<Longrightarrow> distinct (rq_lists q) \<Longrightarrow> distinct (rq_lists q') \<and> set (rq_lists q') \<inter> set gone = {}"
  using distinct_mset_eq [of "rq_lists q" "rq_lists q'" gone] by (auto dest: queue_stepD(2))

lemma ready_in_lists: "rq_ok ths q \<Longrightarrow> p < 8 \<Longrightarrow> t \<in> set (rq_ready q ! p) \<Longrightarrow> t \<in> set (rq_lists q)"
  by (auto simp: rq_ok_def set_rq_lists)

lemma queue_step_trans:
  assumes 1: "queue_step g q ths q1 ths1" and 2: "queue_step g' q1 ths1 q2 ths2" and d: "distinct (rq_lists q)"
  shows "queue_step (g @ g') q ths q2 ths2"
proof -
  note q1 = queue_stepD [OF 1] and q2 = queue_stepD [OF 2]
  have "t \<in> set (rq_ready q2 ! 7)" if t: "t \<in> set (rq_ready q ! 7)" "ths t = Some th" "th_constant th" for t th
  proof -
    have in1: "t \<in> set (rq_ready q1 ! 7)" using q1(5) t by blast
    then have "t \<notin> set g" using queue_step_distinct [OF 1 d] ready_in_lists [OF q1(1), of 7] by auto
    then obtain th' where "ths1 t = Some th'" "th_keeps th th'" using threads_keepD [OF q1(3)] t(2) by blast
    then show ?thesis using q2(5) in1 t(3) by (auto simp: th_keeps_def)
  qed
  moreover have "ths2 u = ths u" if "u \<notin> set (rq_lists q)" for u using q1(6) [OF that] q2(6) [of u] q1(7) that by auto
  ultimately show ?thesis using q1(2,4) q2(1,2,4) threads_keep_trans [OF q1(3) q2(3)] unfolding queue_step_def by (simp add: ac_simps)
qed

section \<open>Pruning\<close>

definition pruned :: "nat list \<Rightarrow> run_queue \<Rightarrow> threads \<Rightarrow> (run_queue \<times> threads) res \<Rightarrow> bool" where
  "pruned from q ths r \<longleftrightarrow> (\<exists>q' ths' gone. r = Inr (q', ths') \<and> queue_step gone q ths q' ths' \<and> set gone \<subseteq> set from \<and>
     (\<forall>t \<in> set gone. rq_current q \<noteq> Some t \<and> (\<exists>th. ths t = Some th \<and> th_exited th)))"

text \<open>One more node: what pruning the rest of the list gives after a step at its head.\<close>

lemma pruned_Cons:
  assumes st: "queue_step g q ths q2 ths2" and d: "distinct (rq_lists q)" and r: "pruned rest q2 ths2 r"
    and g: "set g \<subseteq> {t}" "\<And>u. u \<in> set g \<Longrightarrow> rq_current q \<noteq> Some u \<and> (\<exists>th. ths u = Some th \<and> th_exited th)"
  shows "pruned (t # rest) q ths r"
proof -
  obtain q' ths' gone where r: "r = Inr (q', ths')" "queue_step gone q2 ths2 q' ths'" "set gone \<subseteq> set rest"
    and e: "\<And>u. u \<in> set gone \<Longrightarrow> rq_current q2 \<noteq> Some u \<and> (\<exists>th. ths2 u = Some th \<and> th_exited th)"
    using r by (auto simp: pruned_def)
  have "queue_step (g @ gone) q ths q' ths'" by (rule queue_step_trans [OF st r(2) d])
  moreover have "rq_current q \<noteq> Some u \<and> (\<exists>th. ths u = Some th \<and> th_exited th)" if u: "u \<in> set (g @ gone)" for u
  proof (cases "u \<in> set g")
    case False
    then have ug: "u \<in> set gone" using u by simp
    obtain th2 where th2: "ths2 u = Some th2" "th_exited th2" using e [OF ug] by blast
    have "rel_option th_keeps (ths u) (ths2 u)" using queue_stepD(3) [OF st] False by (auto simp: threads_keep_def)
    then show ?thesis using th2 e [OF ug] queue_stepD(4) [OF st] by (cases "ths u") (auto simp: th_keeps_def)
  qed (rule g(2))
  ultimately show ?thesis using r g(1) unfolding pruned_def by (intro exI [of _ q'] exI [of _ ths'] exI [of _ "g @ gone"]) auto
qed

text \<open>The three things that can happen to a blocked thread.\<close>

lemma prune_gone:
  assumes "rq_ok ths q" "distinct (rq_lists q)" "t \<in> set (rq_blocked q)"
  obtains q' ths' where "blocked_remove t q = Inr q'" and "th_release t ths = Inr ths'" and "queue_step [t] q ths q' ths'"
    and "rq_blocked q' = remove1 t (rq_blocked q)"
proof -
  obtain q1 where q1: "blocked_remove t q = Inr q1" "rq_ok ths q1" "mset (rq_lists q) = add_mset t (mset (rq_lists q1))"
    "q1 = q\<lparr>rq_blocked := remove1 t (rq_blocked q)\<rparr>" by (rule blocked_remove_ok [OF assms(1,3)])
  obtain th where "ths t = Some th" using assms(1,3) prio_exists by (fastforce simp: rq_ok_def)
  then obtain ths2 where rel: "th_release t ths = Inr ths2" "\<And>u. u \<noteq> t \<Longrightarrow> ths2 u = ths u"
    by (fastforce simp: th_release_def split: prod.splits)
  have tn: "t \<notin> set (rq_lists q1)" using assms(2) mset_eq_imp_distinct_iff [of "rq_lists q" "t # rq_lists q1"] q1(3) by simp
  have "rq_ok ths2 q1" by (rule rq_ok_cong [OF q1(2)]) (metis rel(2) tn prio_def)
  moreover have "ths2 u = ths u" if "u \<notin> set (rq_lists q)" for u
    by (rule rel(2)) (use that assms(3) in \<open>auto simp: rq_lists_def\<close>)
  ultimately have "queue_step [t] q ths q1 ths2"
    using q1(3) rel(2) by (auto simp: queue_step_def q1(4) threads_keep_def option.rel_refl)
  then show ?thesis using that q1 rel by simp
qed

lemma prune_readied:
  assumes "rq_ok ths q" "t \<in> set (rq_blocked q)" "prio ths t = Some p"
  obtains q1 q' where "blocked_remove t q = Inr q1" and "ready_push_back p t q1 = Inr q'" and "queue_step [] q ths q' ths"
    and "rq_blocked q' = remove1 t (rq_blocked q)"
proof -
  have p: "p < 8" "length (rq_ready q) = 8" using assms by (auto simp: rq_ok_def)
  obtain q1 where q1: "blocked_remove t q = Inr q1" "rq_ok ths q1" "mset (rq_lists q) = add_mset t (mset (rq_lists q1))"
    "q1 = q\<lparr>rq_blocked := remove1 t (rq_blocked q)\<rparr>" by (rule blocked_remove_ok [OF assms(1,2)])
  obtain q2 where q2: "ready_push_back p t q1 = Inr q2" "rq_ok ths q2" "mset (rq_lists q2) = add_mset t (mset (rq_lists q1))"
    "q2 = q1\<lparr>rq_ready := (rq_ready q1)[p := rq_ready q1 ! p @ [t]]\<rparr>"
    by (rule ready_push_back_ok [OF q1(2) assms(3) p(1)])
  have "queue_step [] q ths q2 ths" using q2(2,3) q1(3) p by (auto simp: queue_step_def q2(4) q1(4) nth_list_update)
  then show ?thesis using that q1 q2 by simp
qed

lemma prune_loop_ok:
  assumes "rq_ok ths q" "distinct (rq_lists q)" "distinct rest" "set rest \<subseteq> set (rq_blocked q)"
  shows "pruned rest q ths (prune_loop now rest q ths)"
  using assms
proof (induction rest arbitrary: q ths)
  case Nil
  then show ?case using queue_step_refl by (fastforce simp: pruned_def)
next
  case (Cons t rest)
  then obtain p where p: "p < 8" "prio ths t = Some p" by (auto simp: rq_ok_def)
  then obtain th where th: "ths t = Some th" "priority_of th = p" using prio_exists by blast
  define th1 where "th1 = (if th_wake_timeout th \<noteq> 0 \<and> th_wake_timeout th \<le> now then th_wake_only th else th)"
  have th1: "priority_of th1 = p" "th_exited th1 = th_exited th" "th_keeps th th1" using th by (auto simp: th1_def th_keeps_def)
  define ths1 where "ths1 = ths(t \<mapsto> th1)"
  have ok1: "rq_ok ths1 q" using Cons.prems(1) by (rule rq_ok_cong) (auto simp: ths1_def th1 p)
  have tb: "t \<in> set (rq_blocked q)" "t \<notin> set rest" using Cons.prems(3,4) by auto
  have step1: "queue_step [] q ths q ths1"
    using ok1 th(1) th1(3) tb(1) by (auto simp: queue_step_def ths1_def rq_lists_def intro: threads_keep_upd)
  have rest: "set rest \<subseteq> set (remove1 t (rq_blocked q))" using Cons.prems(4) tb by (metis in_set_remove1 set_subset_Cons subset_eq)
  have continue: "pruned (t # rest) q ths (prune_loop now rest q2 ths2)"
    if st: "queue_step g q ths1 q2 ths2" and b: "set rest \<subseteq> set (rq_blocked q2)" and g: "set g \<subseteq> {t}" "g \<noteq> [] \<Longrightarrow> rq_current q \<noteq> Some t \<and> th_exited th1" for q2 ths2 g
  proof -
    have st': "queue_step g q ths q2 ths2" using queue_step_trans [OF step1 st Cons.prems(2)] by simp
    then have "pruned rest q2 ths2 (prune_loop now rest q2 ths2)"
      using Cons.IH queue_stepD(1) [OF st'] queue_step_distinct [OF st' Cons.prems(2)] Cons.prems(3) b by simp
    then show ?thesis using pruned_Cons [OF st' Cons.prems(2) _ g(1)] g th th1(2) by (cases g) auto
  qed
  show ?case
  proof (cases "th_exited th1 \<and> rq_current q \<noteq> Some t")
    case True
    obtain q' ths' where "blocked_remove t q = Inr q'" "th_release t ths1 = Inr ths'" "queue_step [t] q ths1 q' ths'"
      "rq_blocked q' = remove1 t (rq_blocked q)" by (rule prune_gone [OF ok1 Cons.prems(2) tb(1)])
    then show ?thesis using continue [of "[t]" q' ths'] True rest th by (simp add: th1_def [symmetric] ths1_def [symmetric] Let_def)
  next
    case False
    obtain q1 q' where "blocked_remove t q = Inr q1" "ready_push_back p t q1 = Inr q'" "queue_step [] q ths1 q' ths1"
      "rq_blocked q' = remove1 t (rq_blocked q)" by (rule prune_readied [OF ok1 tb(1), of p]) (auto simp: ths1_def th1)
    then show ?thesis using continue [of "[]" q' ths1] continue [OF queue_step_refl [OF ok1]] False rest th th1(1) Cons.prems(4)
      by (simp add: th1_def [symmetric] ths1_def [symmetric] Let_def)
  qed
qed

lemma prune_ok:
  assumes "rq_ok ths q" "distinct (rq_lists q)"
  obtains q' ths' gone where "prune now q ths = Inr (q', ths')" and "queue_step gone q ths q' ths'"
    and "\<And>t. t \<in> set gone \<Longrightarrow> rq_current q \<noteq> Some t \<and> (\<exists>th. ths t = Some th \<and> th_exited th)"
proof -
  have "distinct (rq_blocked q)" using assms(2) by (simp add: rq_lists_def)
  from prune_loop_ok [OF assms this subset_refl, of now] that show ?thesis by (auto simp: prune_def pruned_def)
qed

section \<open>Promotions\<close>

definition promoted :: "nat \<Rightarrow> nat \<Rightarrow> run_queue \<Rightarrow> threads \<Rightarrow> run_queue \<Rightarrow> threads \<Rightarrow> bool" where
  "promoted p t q ths q' ths' \<longleftrightarrow> 1 < p \<and> t \<in> set (rq_ready q ! p) \<and>
     q' = q\<lparr>rq_ready := (rq_ready q)[p := remove1 t (rq_ready q ! p), p - 1 := rq_ready q ! (p - 1) @ [t]]\<rparr> \<and>
     (\<exists>th th'. ths t = Some th \<and> \<not> th_constant th \<and> th_keeps th th' \<and> priority_of th' = p - 1 \<and> ths' = ths(t \<mapsto> th'))"

lemma promoted_step:
  assumes pr: "promoted p t q ths q' ths'" and ok: "rq_ok ths q" and d: "distinct (rq_lists q)" and p: "p < 8"
  shows "queue_step [] q ths q' ths'"
proof -
  from pr obtain th th' where p1: "1 < p" and t: "t \<in> set (rq_ready q ! p)" and th: "ths t = Some th" "\<not> th_constant th" "th_keeps th th'" "priority_of th' = p - 1"
    and ths': "ths' = ths(t \<mapsto> th')"
    and q': "q' = q\<lparr>rq_ready := (rq_ready q)[p := remove1 t (rq_ready q ! p), p - 1 := rq_ready q ! (p - 1) @ [t]]\<rparr>"
    by (auto simp: promoted_def)
  obtain q1 where q1: "rq_ok ths q1" "mset (rq_lists q) = add_mset t (mset (rq_lists q1))"
    "q1 = q\<lparr>rq_ready := (rq_ready q)[p := remove1 t (rq_ready q ! p)]\<rparr>" by (rule ready_remove_ok [OF ok t p])
  have tn: "t \<notin> set (rq_lists q1)" using d mset_eq_imp_distinct_iff [of "rq_lists q" "t # rq_lists q1"] q1(2) by simp
  have ok1: "rq_ok ths' q1" by (rule rq_ok_cong [OF q1(1)]) (use tn in \<open>auto simp: ths'\<close>)
  obtain q2 where q2: "rq_ok ths' q2" "mset (rq_lists q2) = add_mset t (mset (rq_lists q1))"
    "q2 = q1\<lparr>rq_ready := (rq_ready q1)[p - 1 := rq_ready q1 ! (p - 1) @ [t]]\<rparr>"
    by (rule ready_push_back_ok [OF ok1, of t "p - 1"]) (use th p in \<open>auto simp: ths'\<close>)
  have q2': "q2 = q'" using p1 by (simp add: q2(3) q1(3) q')
  have l: "length (rq_ready q) = 8" using ok by (simp add: rq_ok_def)
  have "threads_keep (set []) ths ths'" using th by (auto simp: ths' intro: threads_keep_upd)
  moreover have "u \<in> set (rq_ready q' ! 7)" if u: "u \<in> set (rq_ready q ! 7)" "ths u = Some uh" "th_constant uh" for u uh
  proof -
    have "u \<noteq> t" using u th by auto
    then show ?thesis using u(1) p l by (simp add: q' nth_list_update in_set_remove1)
  qed
  moreover have "ths' u = ths u" if "u \<notin> set (rq_lists q)" for u using that ready_in_lists [OF ok p t] by (auto simp: ths')
  ultimately show ?thesis using q2(1,2) q1(2) by (auto simp: queue_step_def q2') (simp add: q')
qed

lemma promoted_lists:
  assumes "promoted p t q ths q' ths'" "length (rq_ready q) = 8" "p < 8" "i < 8"
  shows "set (rq_ready q ! i) \<subseteq> insert t (set (rq_ready q' ! i))" "i \<noteq> p \<Longrightarrow> set (rq_ready q ! i) \<subseteq> set (rq_ready q' ! i)"
proof -
  have p: "p - 1 < 8" "p - 1 \<noteq> p" using assms(1,3) by (auto simp: promoted_def)
  have r: "rq_ready q' ! i = (if i = p - 1 then rq_ready q ! (p - 1) @ [t] else if i = p then remove1 t (rq_ready q ! p) else rq_ready q ! i)"
    using assms p by (auto simp: promoted_def nth_list_update)
  show "set (rq_ready q ! i) \<subseteq> insert t (set (rq_ready q' ! i))" unfolding r using p by (auto dest: in_set_remove1 [THEN iffD2, of _ t "rq_ready q ! p", rotated])
  show "set (rq_ready q ! i) \<subseteq> set (rq_ready q' ! i)" if "i \<noteq> p" unfolding r using that by auto
qed

lemma promote_loop_ok:
  assumes ok: "rq_ok ths q" and p: "p < 8" and l: "set l \<subseteq> set (rq_ready q ! p)"
  shows "promote_loop now l q ths = Inr (q, ths) \<or> (\<exists>t q' ths'. promote_loop now l q ths = Inr (q', ths') \<and> promoted p t q ths q' ths')"
  using l
proof (induction l)
  case (Cons t rest)
  then have t: "t \<in> set (rq_ready q ! p)" by simp
  then have "prio ths t = Some p" using ok p by (auto simp: rq_ok_def)
  then obtain th where th: "ths t = Some th" "priority_of th = p" using prio_exists by blast
  have up: "unat (t_priority (th_tcb th)) = p" using th(2) by (simp add: priority_of_def)
  obtain slice where slice: "quantum p = Inr slice" using quantum_ok [of p] p by auto
  have "p - 1 < 64" using p by simp
  then obtain left where left: "quantum (p - 1) = Inr left" using quantum_ok by blast
  define stale where "stale \<longleftrightarrow> now - t_last_ran (th_tcb th) > ucast (slice * 2) \<and> t_priority (th_tcb th) > promote_limit"
  show ?case
  proof (cases "\<not> th_constant th \<and> stale")
    case False
    then show ?thesis using Cons th(1) slice by (auto simp: stale_def up Let_def)
  next
    case True
    then have p1: "1 < p" using up by (auto simp: stale_def promote_limit_def word_less_nat_alt)
    then have up1: "unat (t_priority (th_tcb th) - 1) = p - 1" using up by (subst unat_sub_no_wrap) auto
    obtain q1 where q1: "ready_remove p t q = Inr q1"
      "q1 = q\<lparr>rq_ready := (rq_ready q)[p := remove1 t (rq_ready q ! p)]\<rparr>" by (rule ready_remove_ok [OF ok t p])
    have len: "length (rq_ready q) = 8" using ok by (simp add: rq_ok_def)
    define th' where "th' = map_tcb (\<lambda>c. c\<lparr>t_priority := t_priority (th_tcb th) - 1, t_time_left := left\<rparr>) th"
    have th': "th_keeps th th'" "priority_of th' = p - 1" using True up1 by (auto simp: th'_def th_keeps_def priority_of_def)
    let ?q' = "q\<lparr>rq_ready := (rq_ready q)[p := remove1 t (rq_ready q ! p), p - 1 := rq_ready q ! (p - 1) @ [t]]\<rparr>"
    have "ready_push_back (p - 1) t q1 = Inr ?q'" using p p1 len by (simp add: ready_push_back_def q1(2))
    then have "promote_loop now (t # rest) q ths = Inr (?q', ths(t \<mapsto> th'))"
      using True th(1) slice left q1(1) up1 by (simp add: stale_def up Let_def th'_def)
    moreover have "promoted p t q ths ?q' (ths(t \<mapsto> th'))" using p1 t th True th' by (auto simp: promoted_def)
    ultimately show ?thesis by blast
  qed
qed simp

text \<open>Of each list at most one thread is promoted, and no thread twice: lists are visited from the most
  urgent on, and a promoted thread goes to a list that was visited before.\<close>

lemma promote_lists_ok:
  assumes "rq_ok ths q" "distinct (rq_lists q)" "p \<le> 8"
  shows "\<exists>q' ths'. promote_lists now [p..<8] q ths = Inr (q', ths') \<and> queue_step [] q ths q' ths' \<and>
     (\<forall>i<8. card {t \<in> set (rq_ready q ! i). prio ths' t \<noteq> Some i} \<le> (if p \<le> i then 1 else 0))"
  using assms
proof (induction "8 - p" arbitrary: p q ths)
  case 0
  then have "p = 8" by simp
  moreover have "{t \<in> set (rq_ready q ! i). prio ths t \<noteq> Some i} = {}" if "i < 8" for i using 0(2) that by (auto simp: rq_ok_def)
  ultimately show ?case using queue_step_refl [OF 0(2)] by simp
next
  case (Suc n)
  then have p: "p < 8" and n: "n = 8 - Suc p" "Suc p \<le> 8" by simp_all
  have len: "length (rq_ready q) = 8" using Suc.prems(1) by (simp add: rq_ok_def)
  have split: "promote_lists now [p..<8] q ths = bindE (promote_loop now (rq_ready q ! p) q ths) (\<lambda>(q, ths). promote_lists now [Suc p..<8] q ths)"
    using p len by (simp add: upt_conv_Cons)
  consider (none) "promote_loop now (rq_ready q ! p) q ths = Inr (q, ths)"
    | (one) t q1 ths1 where "promote_loop now (rq_ready q ! p) q ths = Inr (q1, ths1)" "promoted p t q ths q1 ths1"
    using promote_loop_ok [OF Suc.prems(1) p subset_refl, of now] by blast
  then show ?case
  proof cases
    case none
    from Suc.hyps(1) [OF n(1) Suc.prems(1,2) n(2)] obtain q' ths' where
      "promote_lists now [Suc p..<8] q ths = Inr (q', ths')" "queue_step [] q ths q' ths'"
      and c: "\<And>i. i < 8 \<Longrightarrow> card {t \<in> set (rq_ready q ! i). prio ths' t \<noteq> Some i} \<le> (if Suc p \<le> i then 1 else 0)" by auto
    moreover have "card {t \<in> set (rq_ready q ! i). prio ths' t \<noteq> Some i} \<le> (if p \<le> i then 1 else 0)" if "i < 8" for i
      by (rule order_trans [OF c [OF that]]) simp
    ultimately show ?thesis using none split by simp
  next
    case one
    have st: "queue_step [] q ths q1 ths1" by (rule promoted_step [OF one(2) Suc.prems(1,2) p])
    have d1: "distinct (rq_lists q1)" using queue_step_distinct [OF st Suc.prems(2)] by simp
    from Suc.hyps(1) [OF n(1) queue_stepD(1) [OF st] d1 n(2)] obtain q' ths' where
      r: "promote_lists now [Suc p..<8] q1 ths1 = Inr (q', ths')" "queue_step [] q1 ths1 q' ths'"
      and c: "\<And>i. i < 8 \<Longrightarrow> card {t \<in> set (rq_ready q1 ! i). prio ths' t \<noteq> Some i} \<le> (if Suc p \<le> i then 1 else 0)" by auto
    have "card {u \<in> set (rq_ready q ! i). prio ths' u \<noteq> Some i} \<le> (if p \<le> i then 1 else 0)" if i: "i < 8" for i
    proof -
      have "set (rq_ready q ! i) \<subseteq> (if i = p then insert t (set (rq_ready q1 ! i)) else set (rq_ready q1 ! i))"
        using promoted_lists [OF one(2) len p i] by auto
      then have sub: "{u \<in> set (rq_ready q ! i). prio ths' u \<noteq> Some i} \<subseteq>
          (if i = p then insert t {u \<in> set (rq_ready q1 ! i). prio ths' u \<noteq> Some i} else {u \<in> set (rq_ready q1 ! i). prio ths' u \<noteq> Some i})"
        by (auto split: if_splits)
      let ?A = "{u \<in> set (rq_ready q1 ! i). prio ths' u \<noteq> Some i}"
      have "card {u \<in> set (rq_ready q ! i). prio ths' u \<noteq> Some i} \<le> card (if i = p then insert t ?A else ?A)" by (rule card_mono [OF _ sub]) simp
      also have "\<dots> \<le> (if i = p then Suc (card ?A) else card ?A)" by (simp add: card_insert_if)
      also have "\<dots> \<le> (if p \<le> i then 1 else 0)" using c [OF i] by (cases "i = p"; cases "Suc p \<le> i") simp_all
      finally show ?thesis .
    qed
    then show ?thesis using one split r queue_step_trans [OF st r(2) Suc.prems(2)] by simp
  qed
qed

section \<open>Stealing\<close>

definition threads_same :: "threads \<Rightarrow> threads \<Rightarrow> bool" where
  "threads_same ths ths' \<longleftrightarrow> threads_keep {} ths ths' \<and> (\<forall>t. prio ths' t = prio ths t)"

lemma threads_same_refl [simp]: "threads_same ths ths"
  by (simp add: threads_same_def)

lemma threads_same_trans: "threads_same a b \<Longrightarrow> threads_same b c \<Longrightarrow> threads_same a c"
  using threads_keep_trans [of "{}" a b "{}" c] by (simp add: threads_same_def)

lemma rq_ok_same: "threads_same ths ths' \<Longrightarrow> rq_ok ths' q = rq_ok ths q"
  by (simp add: threads_same_def rq_ok_def)

lemma balance_loop_ok:
  assumes "n \<le> length from" "\<forall>t \<in> set from. prio ths t \<noteq> None"
  shows "\<exists>ths'. balance_loop n cpu to from ths = Inr (rev (take n from) @ to, drop n from, ths') \<and> threads_same ths ths'"
  using assms
proof (induction n arbitrary: to "from" ths)
  case (Suc n)
  then obtain t rest where f: "from = t # rest" by (cases "from") auto
  then obtain th where th: "ths t = Some th" using Suc.prems(2) by (auto simp: prio_def)
  define ths1 where "ths1 = ths(t \<mapsto> map_tcb (\<lambda>c. c\<lparr>t_cpu := Some cpu\<rparr>) th)"
  have "priority_of (map_tcb (\<lambda>c. c\<lparr>t_cpu := Some cpu\<rparr>) th) = priority_of th" by (simp add: priority_of_def)
  then have same: "threads_same ths ths1"
    using th by (auto simp: threads_same_def ths1_def th_keeps_def prio_def intro: threads_keep_upd)
  then have "\<forall>u \<in> set rest. prio ths1 u \<noteq> None" using Suc.prems(2) f by (simp add: threads_same_def)
  with Suc.IH [of rest ths1 "t # to"] Suc.prems(1) f obtain ths' where
    "balance_loop n cpu (t # to) rest ths1 = Inr (rev (take n rest) @ t # to, drop n rest, ths')" "threads_same ths1 ths'" by auto
  then show ?case using f th threads_same_trans [OF same] by (auto simp: ths1_def)
qed simp

lemma balance_lists_ok:
  assumes "\<forall>t \<in> set from. prio ths t \<noteq> None"
  obtains to' from' ths' where "balance_lists cpu to from ths = Inr (to', from', ths')" and "threads_same ths ths'"
    and "mset to' + mset from' = mset to + mset from"
    and "length to \<le> length to'" and "length to < length from \<Longrightarrow> length to' \<le> length from' \<and> length from' \<le> length to' + 1"
proof (cases "length from \<le> length to")
  case True
  then show ?thesis using that [of to "from" ths] by (simp add: balance_lists_def)
next
  case False
  let ?n = "(length from - length to) div 2"
  have n: "?n \<le> length from" by linarith
  obtain ths' where r: "balance_loop ?n cpu to from ths = Inr (rev (take ?n from) @ to, drop ?n from, ths')" "threads_same ths ths'"
    using balance_loop_ok [OF n assms, of cpu to] by blast
  have "mset (rev (take ?n from) @ to) + mset (drop ?n from) = mset to + mset from"
  proof -
    have "mset (take ?n from) + mset (drop ?n from) = mset from" by (simp flip: mset_append)
    from this [symmetric] show ?thesis by (simp add: ac_simps)
  qed
  moreover have "?n + length to \<le> length from - ?n" "length from - ?n \<le> Suc (?n + length to)" using False by linarith+
  ultimately show ?thesis using that [of "rev (take ?n from) @ to" "drop ?n from" ths'] r n False
    by (simp add: balance_lists_def min_absorb2)
qed

definition pair_step :: "run_queue \<Rightarrow> run_queue \<Rightarrow> threads \<Rightarrow> run_queue \<Rightarrow> run_queue \<Rightarrow> threads \<Rightarrow> bool" where
  "pair_step m ot ths m' ot' ths' \<longleftrightarrow> rq_ok ths' m' \<and> rq_ok ths' ot' \<and> threads_same ths ths' \<and>
     mset (rq_lists m') + mset (rq_lists ot') = mset (rq_lists m) + mset (rq_lists ot) \<and>
     rq_current m' = rq_current m \<and> rq_current ot' = rq_current ot \<and> rq_ready m' ! 7 = rq_ready m ! 7 \<and> rq_ready ot' ! 7 = rq_ready ot ! 7"

lemma pair_step_trans:
  "pair_step m ot ths m1 ot1 ths1 \<Longrightarrow> pair_step m1 ot1 ths1 m2 ot2 ths2 \<Longrightarrow> pair_step m ot ths m2 ot2 ths2"
  by (auto simp: pair_step_def intro: threads_same_trans)

lemma steal_ready_step:
  assumes ok: "rq_ok ths m" "rq_ok ths ot" and p: "p < 7"
  obtains to "from" ths' where "balance_lists cpu (rq_ready m ! p) (rq_ready ot ! p) ths = Inr (to, from, ths')"
    and "pair_step m ot ths (m\<lparr>rq_ready := (rq_ready m)[p := to]\<rparr>) (ot\<lparr>rq_ready := (rq_ready ot)[p := from]\<rparr>) ths'"
proof -
  have len: "length (rq_ready m) = 8" "length (rq_ready ot) = 8" using ok by (auto simp: rq_ok_def)
  have pr: "\<forall>t \<in> set (rq_ready m ! p) \<union> set (rq_ready ot ! p). prio ths t = Some p" using ok p by (auto simp: rq_ok_def)
  then have "\<forall>t \<in> set (rq_ready ot ! p). prio ths t \<noteq> None" by auto
  then obtain to "from" ths' where b: "balance_lists cpu (rq_ready m ! p) (rq_ready ot ! p) ths = Inr (to, from, ths')"
    and same: "threads_same ths ths'" and ms: "mset to + mset from = mset (rq_ready m ! p) + mset (rq_ready ot ! p)"
    by (rule balance_lists_ok)
  have sub: "set to \<union> set from = set (rq_ready m ! p) \<union> set (rq_ready ot ! p)"
    using ms by (metis set_mset_mset set_mset_union)
  have "rq_ok ths' (m\<lparr>rq_ready := (rq_ready m)[p := to]\<rparr>)" "rq_ok ths' (ot\<lparr>rq_ready := (rq_ready ot)[p := from]\<rparr>)"
    unfolding rq_ok_same [OF same] using ok pr sub p len by (auto simp: rq_ok_def nth_list_update)
  moreover have "mset (concat ((rq_ready m)[p := to])) + mset (concat ((rq_ready ot)[p := from])) = mset (concat (rq_ready m)) + mset (concat (rq_ready ot))"
  proof -
    have "mset (concat ((rq_ready m)[p := to])) + mset (concat ((rq_ready ot)[p := from])) + (mset (rq_ready m ! p) + mset (rq_ready ot ! p)) =
       mset (concat (rq_ready m)) + mset (concat (rq_ready ot)) + (mset to + mset from)"
      using mset_concat_update [of p "rq_ready m" to] mset_concat_update [of p "rq_ready ot" "from"] p len by (simp add: ac_simps)
    then show ?thesis unfolding ms by simp
  qed
  ultimately show ?thesis using that [OF b] same p len by (simp add: pair_step_def rq_lists_def ac_simps)
qed

lemma steal_ready_ok:
  assumes "rq_ok ths m" "rq_ok ths ot" "set ps \<subseteq> {..<7}"
  shows "\<exists>m' ot' ths'. steal_ready ps cpu m ot ths = Inr (m', ot', ths') \<and> pair_step m ot ths m' ot' ths'"
  using assms
proof (induction ps arbitrary: m ot ths)
  case Nil
  then show ?case by (simp add: pair_step_def)
next
  case (Cons p ps)
  then have p: "p < 7" by simp
  have len: "length (rq_ready m) = 8" "length (rq_ready ot) = 8" using Cons.prems by (auto simp: rq_ok_def)
  obtain to "from" ths1 where b: "balance_lists cpu (rq_ready m ! p) (rq_ready ot ! p) ths = Inr (to, from, ths1)"
    and st: "pair_step m ot ths (m\<lparr>rq_ready := (rq_ready m)[p := to]\<rparr>) (ot\<lparr>rq_ready := (rq_ready ot)[p := from]\<rparr>) ths1"
    by (rule steal_ready_step [OF Cons.prems(1,2) p])
  from Cons.IH [of ths1 "m\<lparr>rq_ready := (rq_ready m)[p := to]\<rparr>" "ot\<lparr>rq_ready := (rq_ready ot)[p := from]\<rparr>"] st Cons.prems(3)
  obtain m' ot' ths' where "steal_ready ps cpu (m\<lparr>rq_ready := (rq_ready m)[p := to]\<rparr>) (ot\<lparr>rq_ready := (rq_ready ot)[p := from]\<rparr>) ths1 = Inr (m', ot', ths')"
    "pair_step (m\<lparr>rq_ready := (rq_ready m)[p := to]\<rparr>) (ot\<lparr>rq_ready := (rq_ready ot)[p := from]\<rparr>) ths1 m' ot' ths'"
    by (auto simp: pair_step_def)
  then show ?case using b p len pair_step_trans [OF st] by auto
qed

lemma steal_from_ok:
  assumes "rq_ok ths m" "rq_ok ths ot"
  shows "\<exists>m' ot' ths'. steal_from cpu m ot ths = Inr (m', ot', ths') \<and> pair_step m ot ths m' ot' ths'"
proof -
  have "set [0..<idle_priority] \<subseteq> {..<7}" by (auto simp: idle_priority_def num_priorities_def)
  then obtain m1 ot1 ths1 where 1: "steal_ready [0..<idle_priority] cpu m ot ths = Inr (m1, ot1, ths1)" "pair_step m ot ths m1 ot1 ths1"
    using steal_ready_ok [OF assms] by blast
  then have ok1: "rq_ok ths1 m1" "rq_ok ths1 ot1" by (auto simp: pair_step_def)
  then have "\<forall>t \<in> set (rq_blocked ot1). prio ths1 t \<noteq> None" by (auto simp: rq_ok_def)
  then obtain to "from" ths2 where b: "balance_lists cpu (rq_blocked m1) (rq_blocked ot1) ths1 = Inr (to, from, ths2)"
    and same: "threads_same ths1 ths2" and ms: "mset to + mset from = mset (rq_blocked m1) + mset (rq_blocked ot1)"
    by (rule balance_lists_ok)
  have sub: "set to \<union> set from = set (rq_blocked m1) \<union> set (rq_blocked ot1)" using ms by (metis set_mset_mset set_mset_union)
  have "\<forall>t \<in> set (rq_blocked m1) \<union> set (rq_blocked ot1). \<exists>p<8. prio ths1 t = Some p" using ok1 by (auto simp: rq_ok_def)
  then have "rq_ok ths2 (m1\<lparr>rq_blocked := to\<rparr>)" "rq_ok ths2 (ot1\<lparr>rq_blocked := from\<rparr>)"
    unfolding rq_ok_same [OF same] sub [symmetric] using ok1 by (auto simp: rq_ok_def)
  then have "pair_step m1 ot1 ths1 (m1\<lparr>rq_blocked := to\<rparr>) (ot1\<lparr>rq_blocked := from\<rparr>) ths2"
    using same ms by (simp add: pair_step_def rq_lists_def)
  then show ?thesis using 1 b pair_step_trans by (fastforce simp: steal_from_def)
qed

lemma steal_loop_ok:
  assumes "\<forall>i < length qs. rq_ok ths (qs ! i)" "cpu < length qs" "set is \<subseteq> {..<length qs}"
  shows "\<exists>qs' ths'. steal_loop is cpu qs ths = Inr (qs', ths') \<and> length qs' = length qs \<and> threads_same ths ths' \<and>
     mset (concat (map rq_lists qs')) = mset (concat (map rq_lists qs)) \<and>
     (\<forall>i < length qs. rq_ok ths' (qs' ! i) \<and> rq_current (qs' ! i) = rq_current (qs ! i) \<and> rq_ready (qs' ! i) ! 7 = rq_ready (qs ! i) ! 7)"
  using assms
proof (induction "is" arbitrary: qs ths)
  case (Cons i "is")
  show ?case
  proof (cases "i = cpu")
    case True
    then show ?thesis using Cons by simp
  next
    case False
    have i: "i < length qs" using Cons.prems(3) by simp
    obtain m ot ths1 where st: "steal_from cpu (qs ! cpu) (qs ! i) ths = Inr (m, ot, ths1)" "pair_step (qs ! cpu) (qs ! i) ths m ot ths1"
      using steal_from_ok [of ths "qs ! cpu" "qs ! i" cpu] Cons.prems i by blast
    let ?qs = "qs[cpu := m, i := ot]"
    have same: "threads_same ths ths1" using st(2) by (simp add: pair_step_def)
    have nth: "?qs ! j = (if j = i then ot else if j = cpu then m else qs ! j)" if "j < length qs" for j
      using that i Cons.prems(2) by (simp add: nth_list_update)
    have ok: "\<forall>j < length ?qs. rq_ok ths1 (?qs ! j)" using st(2) Cons.prems(1) by (simp add: nth pair_step_def rq_ok_same [OF same])
    have pool: "mset (concat (map rq_lists ?qs)) = mset (concat (map rq_lists qs))"
    proof -
      have "mset (concat (map rq_lists ?qs)) + (mset (rq_lists (qs ! cpu)) + mset (rq_lists (qs ! i))) =
          mset (concat (map rq_lists qs)) + (mset (rq_lists m) + mset (rq_lists ot))"
        using mset_concat_update [of cpu "map rq_lists qs" "rq_lists m"]
          mset_concat_update [of i "map rq_lists (qs[cpu := m])" "rq_lists ot"] i Cons.prems(2) False
        by (simp add: map_update ac_simps)
      then show ?thesis using st(2) by (simp add: pair_step_def)
    qed
    from Cons.IH [OF ok] Cons.prems(2,3) obtain qs' ths' where
      r: "steal_loop is cpu ?qs ths1 = Inr (qs', ths')" "length qs' = length qs" "threads_same ths1 ths'"
      "mset (concat (map rq_lists qs')) = mset (concat (map rq_lists ?qs))"
      and q: "\<And>j. j < length qs \<Longrightarrow> rq_ok ths' (qs' ! j) \<and> rq_current (qs' ! j) = rq_current (?qs ! j) \<and> rq_ready (qs' ! j) ! 7 = rq_ready (?qs ! j) ! 7"
      by auto
    have "rq_current (?qs ! j) = rq_current (qs ! j) \<and> rq_ready (?qs ! j) ! 7 = rq_ready (qs ! j) ! 7" if "j < length qs" for j
      using st(2) that by (auto simp: nth pair_step_def)
    then show ?thesis using r q pool st(1) i Cons.prems(2) False threads_same_trans [OF same r(3)] by auto
  qed
qed simp

section \<open>Choosing the next thread\<close>

lemma schedule_account_ok:
  assumes "priority_of th < 8"
  obtains th' where "schedule_account remaining th = Inr th'" and "th_keeps th th'" and "priority_of th' < 8" and "th_ready th' = th_ready th"
proof -
  let ?th = "map_tcb (\<lambda>c. c\<lparr>t_time_left := remaining\<rparr>) th"
  have pr: "unat (t_priority (th_tcb th)) < 8" using assms by (simp add: priority_of_def)
  show ?thesis
  proof (cases "remaining = 0")
    case False
    obtain slice where "quantum (unat (t_priority (th_tcb th))) = Inr slice" using quantum_ok [of "unat (t_priority (th_tcb th))"] pr by auto
    then show ?thesis using that [of "map_tcb (\<lambda>c. c\<lparr>t_time_left := t_time_left c + drop_bit 4 slice\<rparr>) ?th"] False assms
      by (auto simp: schedule_account_def Let_def th_keeps_def priority_of_def)
  next
    case True
    let ?demote = "unat (t_priority (th_tcb th)) < max_priority \<and> \<not> th_constant th"
    define th1 where "th1 = (if ?demote then map_tcb (\<lambda>c. c\<lparr>t_priority := t_priority (th_tcb th) + 1\<rparr>) ?th else ?th)"
    have "unat (t_priority (th_tcb th) + 1) = unat (t_priority (th_tcb th)) + 1" using pr by (subst unat_add_no_wrap) simp_all
    then have p1: "priority_of th1 < 8" "th_keeps th th1" "th_ready th1 = th_ready th"
      using pr by (auto simp: th1_def priority_of_def max_priority_def idle_priority_def num_priorities_def th_keeps_def)
    have "priority_of th1 < 64" using p1(1) by simp
    then obtain left where "quantum (priority_of th1) = Inr left" using quantum_ok by blast
    then have "schedule_account remaining th = Inr (map_tcb (\<lambda>c. c\<lparr>t_time_left := left\<rparr>) th1)"
      using True by (cases ?demote) (auto simp: schedule_account_def Let_def th1_def)
    then show ?thesis using that p1 by (auto simp: th_keeps_def priority_of_def)
  qed
qed

lemma schedule_requeue_ok:
  assumes "rq_ok ths q" "ths t = Some th" "priority_of th < 8"
  obtains q' where "schedule_requeue t th q = Inr q'" and "rq_ok ths q'" and "mset (rq_lists q') = add_mset t (mset (rq_lists q))"
    and "rq_current q' = rq_current q" and "set (rq_ready q ! 7) \<subseteq> set (rq_ready q' ! 7)"
    and "th_ready th \<Longrightarrow> priority_of th = 7 \<Longrightarrow> t \<in> set (rq_ready q' ! 7)"
proof (cases "th_ready th")
  case True
  have l: "length (rq_ready q) = 8" using assms(1) by (simp add: rq_ok_def)
  have "prio ths t = Some (priority_of th)" using assms(2) by (simp add: prio_def)
  then obtain q' where "ready_push_back (priority_of th) t q = Inr q'" "rq_ok ths q'" "mset (rq_lists q') = add_mset t (mset (rq_lists q))"
    and q': "q' = q\<lparr>rq_ready := (rq_ready q)[priority_of th := rq_ready q ! priority_of th @ [t]]\<rparr>"
    by (rule ready_push_back_ok [OF assms(1) _ assms(3)])
  moreover have "set (rq_ready q ! 7) \<subseteq> set (rq_ready q' ! 7)" using l assms(3) by (cases "priority_of th = 7") (auto simp: q' nth_list_update)
  ultimately show ?thesis using that [of q'] True l assms(3) by (auto simp: schedule_requeue_def)
next
  case False
  have "rq_ok ths (q\<lparr>rq_blocked := rq_blocked q @ [t]\<rparr>)" using assms by (auto simp: rq_ok_def prio_def)
  then show ?thesis using that [of "q\<lparr>rq_blocked := rq_blocked q @ [t]\<rparr>"] False by (simp add: schedule_requeue_def rq_lists_def)
qed

lemma schedule_pick_ok:
  assumes "i < length ls" "ls ! i \<noteq> []"
  shows "\<exists>p. schedule_pick k ls = Inr (k + p) \<and> p \<le> i \<and> ls ! p \<noteq> [] \<and> (\<forall>j<p. ls ! j = [])"
  using assms
proof (induction ls arbitrary: k i)
  case (Cons l ls)
  show ?case
  proof (cases "l = []")
    case True
    then obtain j where j: "i = Suc j" using Cons.prems by (cases i) auto
    then obtain p where "schedule_pick (Suc k) ls = Inr (Suc k + p)" "p \<le> j" "ls ! p \<noteq> []" "\<forall>m<p. ls ! m = []"
      using Cons.IH [of j "Suc k"] Cons.prems by auto
    then show ?thesis using True j by (intro exI [of _ "Suc p"]) (auto simp: less_Suc_eq_0_disj)
  next
    case False
    then show ?thesis by (intro exI [of _ 0]) simp
  qed
qed simp

lemma check_promotions_ok:
  assumes "rq_ok ths q" "distinct (rq_lists q)"
  obtains q' ths' where "check_promotions now q ths = Inr (q', ths')" and "queue_step [] q ths q' ths'"
    and "\<And>i. i < 8 \<Longrightarrow> card {t \<in> set (rq_ready q ! i). prio ths' t \<noteq> Some i} \<le> 1"
proof -
  obtain q1 ths1 where r: "promote_lists now [0..<8] q ths = Inr (q1, ths1)" "queue_step [] q ths q1 ths1"
    and c: "\<And>i. i < 8 \<Longrightarrow> card {t \<in> set (rq_ready q ! i). prio ths1 t \<noteq> Some i} \<le> 1"
    using promote_lists_ok [OF assms, of 0 now] by auto
  have "queue_step [] q ths (q1\<lparr>rq_last_promotion := now\<rparr>) ths1" using r(2) by (simp add: queue_step_def rq_ok_def rq_lists_def)
  then show ?thesis using that r(1) c by (simp add: check_promotions_def num_priorities_def)
qed

text \<open>The first half of \<open>schedule\<close> on its queue, up to the choice of the next thread.\<close>

lemma schedule_prepare:
  assumes ok: "rq_ok ths q" and d: "distinct (t # rq_lists q)" and cur: "rq_current q = Some t"
    and th: "ths t = Some th" "priority_of th < 8"
    and idle: "ths i = Some ih" "th_constant ih" "th_ready ih" "priority_of ih = 7" "i = t \<or> i \<in> set (rq_ready q ! 7)"
  obtains th1 q1 q2 ths2 q3 ths3 gone where "schedule_account remaining th = Inr th1" and "schedule_requeue t th1 q = Inr q1"
    and "prune now q1 (ths(t \<mapsto> th1)) = Inr (q2, ths2)"
    and "(if now - rq_last_promotion q2 > promote_frequency then check_promotions now q2 ths2 else Inr (q2, ths2)) = Inr (q3, ths3)"
    and "rq_ok ths3 q3" and "mset (t # rq_lists q) = mset (rq_lists q3) + mset gone" and "threads_keep (set gone) ths ths3"
    and "rq_current q3 = Some t" and "t \<notin> set gone" and "\<forall>g \<in> set gone. \<exists>th. ths g = Some th \<and> th_exited th" and "i \<in> set (rq_ready q3 ! 7)"
    and "\<And>u. u \<notin> set (t # rq_lists q) \<Longrightarrow> ths3 u = ths u"
proof -
  obtain th1 where th1: "schedule_account remaining th = Inr th1" "th_keeps th th1" "priority_of th1 < 8" "th_ready th1 = th_ready th"
    by (rule schedule_account_ok [OF th(2)])
  define ths1 where "ths1 = ths(t \<mapsto> th1)"
  have ok1: "rq_ok ths1 q" using ok by (rule rq_ok_cong) (use d in \<open>auto simp: ths1_def\<close>)
  have tth1: "ths1 t = Some th1" by (simp add: ths1_def)
  have keep1: "threads_keep {} ths ths1" using th(1) th1(2) by (simp add: ths1_def threads_keep_upd)
  obtain q1 where q1: "schedule_requeue t th1 q = Inr q1" "rq_ok ths1 q1" "mset (rq_lists q1) = add_mset t (mset (rq_lists q))"
    "rq_current q1 = rq_current q" "set (rq_ready q ! 7) \<subseteq> set (rq_ready q1 ! 7)"
    "th_ready th1 \<Longrightarrow> priority_of th1 = 7 \<Longrightarrow> t \<in> set (rq_ready q1 ! 7)"
    by (rule schedule_requeue_ok [OF ok1 tth1 th1(3)]) blast
  obtain ih1 where ih1: "ths1 i = Some ih1" "th_constant ih1" using threads_keepD [OF keep1 _ idle(1)] idle(2) by (auto simp: th_keeps_def)
  have i1: "i \<in> set (rq_ready q1 ! 7)" using q1(5,6) idle th th1(2,4) by (auto simp: th_keeps_def)
  have d1: "distinct (rq_lists q1)" using d mset_eq_imp_distinct_iff [of "rq_lists q1" "t # rq_lists q"] q1(3) by simp
  obtain q2 ths2 gone where q2: "prune now q1 ths1 = Inr (q2, ths2)" "queue_step gone q1 ths1 q2 ths2"
    and gone: "\<And>g. g \<in> set gone \<Longrightarrow> rq_current q1 \<noteq> Some g \<and> (\<exists>th. ths1 g = Some th \<and> th_exited th)"
    by (rule prune_ok [OF q1(2) d1, of now]) blast
  note d2 = queue_step_distinct [OF q2(2) d1]
  obtain q3 ths3 where q3: "(if now - rq_last_promotion q2 > promote_frequency then check_promotions now q2 ths2 else Inr (q2, ths2)) = Inr (q3, ths3)"
    and st: "queue_step [] q2 ths2 q3 ths3"
    using check_promotions_ok [OF queue_stepD(1) [OF q2(2)], of now] queue_step_refl [OF queue_stepD(1) [OF q2(2)]] d2 by metis
  have st3: "queue_step gone q1 ths1 q3 ths3" using queue_step_trans [OF q2(2) st d1] by simp
  have "\<exists>th. ths g = Some th \<and> th_exited th" if "g \<in> set gone" for g
    using gone [OF that] cur q1(4) by (auto simp: ths1_def split: if_splits)
  moreover have "threads_keep (set gone) ths ths3" using threads_keep_trans [OF keep1 queue_stepD(3) [OF st3]] by simp
  moreover have "i \<in> set (rq_ready q3 ! 7)" using queue_stepD(5) [OF st3] i1 ih1 by blast
  moreover have "t \<notin> set gone" using gone cur q1(4) by fastforce
  moreover have "ths3 u = ths u" if "u \<notin> set (t # rq_lists q)" for u
  proof -
    have "u \<notin> set (rq_lists q1)" using that q1(3) by (metis list.set(2) set_mset_add_mset_insert set_mset_mset)
    then show ?thesis using queue_stepD(6) [OF st3] that by (simp add: ths1_def)
  qed
  ultimately show ?thesis using that [OF th1(1) q1(1) q2(1) [unfolded ths1_def] q3] queue_stepD(1,2,4) [OF st3] q1(3,4) cur by simp
qed

text \<open>The second half: the first thread of the first list that is not empty.\<close>

lemma schedule_take:
  assumes ok: "rq_ok ths q" and d: "distinct (rq_lists q)" and th: "ths t = Some th" and i: "i \<in> set (rq_ready q ! 7)"
  obtains p "next" l nth ths' where "schedule_pick 0 (rq_ready q) = Inr p" and "rq_ready q ! p = next # l"
    and "(ths(t \<mapsto> map_tcb (\<lambda>c. c\<lparr>t_last_ran := now\<rparr>) th)) next = Some nth"
    and "ths' = ths(t \<mapsto> map_tcb (\<lambda>c. c\<lparr>t_last_ran := now\<rparr>) th, next \<mapsto> map_tcb (\<lambda>c. c\<lparr>t_last_ran := now\<rparr>) nth)"
    and "threads_same ths ths'" and "rq_ok ths' (q\<lparr>rq_ready := (rq_ready q)[p := l]\<rparr>)"
    and "mset (rq_lists q) = add_mset next (mset (rq_lists (q\<lparr>rq_ready := (rq_ready q)[p := l]\<rparr>)))"
    and "p < 8" and "prio ths' next = Some p" and "\<forall>j<p. rq_ready q ! j = []"
    and "i = next \<or> i \<in> set (rq_ready q ! 7) \<and> p \<noteq> 7 \<or> p = 7 \<and> i \<in> set l"
proof -
  have len: "length (rq_ready q) = 8" using ok by (simp add: rq_ok_def)
  have "rq_ready q ! 7 \<noteq> []" using i by auto
  then obtain p where p: "schedule_pick 0 (rq_ready q) = Inr p" "p \<le> 7" "rq_ready q ! p \<noteq> []" "\<forall>j<p. rq_ready q ! j = []"
    using schedule_pick_ok [of 7 "rq_ready q" 0] len by auto
  then obtain "next" l where nl: "rq_ready q ! p = next # l" by (cases "rq_ready q ! p") auto
  have "prio ths next = Some p" using ok p(2) nl by (auto simp: rq_ok_def)
  define f where "f = map_tcb (\<lambda>c. c\<lparr>t_last_ran := now\<rparr>)"
  have f: "th_keeps x (f x)" "priority_of (f x) = priority_of x" for x by (simp_all add: f_def th_keeps_def priority_of_def)
  define ths1 where "ths1 = ths(t \<mapsto> f th)"
  have same1: "threads_same ths ths1" using th f by (auto simp: threads_same_def ths1_def prio_def intro: threads_keep_upd)
  then obtain nth where nth: "ths1 next = Some nth" using \<open>prio ths next = Some p\<close> by (metis prio_exists threads_same_def)
  have "threads_same ths1 (ths1(next \<mapsto> f nth))" using nth f by (auto simp: threads_same_def prio_def intro: threads_keep_upd)
  with same1 have same: "threads_same ths (ths1(next \<mapsto> f nth))" by (rule threads_same_trans)
  obtain q1 where q1: "rq_ok ths q1" "mset (rq_lists q) = add_mset next (mset (rq_lists q1))"
    "q1 = q\<lparr>rq_ready := (rq_ready q)[p := remove1 next (rq_ready q ! p)]\<rparr>"
    by (rule ready_remove_ok [OF ok, of "next" p]) (use nl p(2) in auto)
  then have q1': "q1 = q\<lparr>rq_ready := (rq_ready q)[p := l]\<rparr>" by (simp add: nl)
  have "prio (ths1(next \<mapsto> f nth)) next = Some p" using same \<open>prio ths next = Some p\<close> unfolding threads_same_def by metis
  moreover have "i = next \<or> i \<in> set (rq_ready q ! 7) \<and> p \<noteq> 7 \<or> p = 7 \<and> i \<in> set l" using i nl by (cases "p = 7") auto
  moreover have "rq_ok (ths1(next \<mapsto> f nth)) (q\<lparr>rq_ready := (rq_ready q)[p := l]\<rparr>)" using q1(1) q1' rq_ok_same [OF same] by simp
  ultimately show ?thesis using that [of p "next" l nth "ths1(next \<mapsto> f nth)"] p nl q1(2) q1' same nth
    by (simp add: ths1_def f_def)
qed

lemma schedule_queue_ok:
  assumes ok: "rq_ok ths q" and d: "distinct (t # rq_lists q)" and cur: "rq_current q = Some t"
    and th: "ths t = Some th" "priority_of th < 8"
    and idle: "ths i = Some ih" "th_constant ih" "th_ready ih" "priority_of ih = 7" "i = t \<or> i \<in> set (rq_ready q ! 7)"
  obtains "next" q' ths' gone p where "schedule_queue remaining now t q ths = Inr (next, q', ths')" and "rq_ok ths' q'"
    and "mset (t # rq_lists q) = mset (next # rq_lists q') + mset gone" and "threads_keep (set gone) ths ths'"
    and "rq_current q' = Some t" and "t \<notin> set gone" and "\<forall>g \<in> set gone. \<exists>th. ths g = Some th \<and> th_exited th"
    and "p < 8" and "prio ths' next = Some p" and "\<forall>j<p. rq_ready q' ! j = []" and "i = next \<or> i \<in> set (rq_ready q' ! 7)"
    and "\<And>u. u \<notin> set (t # rq_lists q) \<Longrightarrow> ths' u = ths u"
proof -
  obtain th1 q1 q2 ths2 q3 ths3 gone where 1: "schedule_account remaining th = Inr th1" "schedule_requeue t th1 q = Inr q1"
    "prune now q1 (ths(t \<mapsto> th1)) = Inr (q2, ths2)"
    "(if now - rq_last_promotion q2 > promote_frequency then check_promotions now q2 ths2 else Inr (q2, ths2)) = Inr (q3, ths3)"
    and ok3: "rq_ok ths3 q3" and ms: "mset (t # rq_lists q) = mset (rq_lists q3) + mset gone" and keep: "threads_keep (set gone) ths ths3"
    and cur3: "rq_current q3 = Some t" and gone: "t \<notin> set gone" "\<forall>g \<in> set gone. \<exists>th. ths g = Some th \<and> th_exited th" and i3: "i \<in> set (rq_ready q3 ! 7)"
    and frame: "\<And>u. u \<notin> set (t # rq_lists q) \<Longrightarrow> ths3 u = ths u"
    by (rule schedule_prepare [OF assms]) blast
  have d3: "distinct (rq_lists q3)" using distinct_mset_eq [OF d ms] by simp
  obtain th3 where th3: "ths3 t = Some th3" using threads_keepD [OF keep gone(1) th(1)] by blast
  obtain p "next" l nth ths' where 2: "schedule_pick 0 (rq_ready q3) = Inr p" "rq_ready q3 ! p = next # l"
    "(ths3(t \<mapsto> map_tcb (\<lambda>c. c\<lparr>t_last_ran := now\<rparr>) th3)) next = Some nth"
    "ths' = ths3(t \<mapsto> map_tcb (\<lambda>c. c\<lparr>t_last_ran := now\<rparr>) th3, next \<mapsto> map_tcb (\<lambda>c. c\<lparr>t_last_ran := now\<rparr>) nth)"
    and same: "threads_same ths3 ths'" and ok': "rq_ok ths' (q3\<lparr>rq_ready := (rq_ready q3)[p := l]\<rparr>)"
    and ms': "mset (rq_lists q3) = add_mset next (mset (rq_lists (q3\<lparr>rq_ready := (rq_ready q3)[p := l]\<rparr>)))"
    and p: "p < 8" "prio ths' next = Some p" "\<forall>j<p. rq_ready q3 ! j = []" and i: "i = next \<or> i \<in> set (rq_ready q3 ! 7) \<and> p \<noteq> 7 \<or> p = 7 \<and> i \<in> set l"
    by (rule schedule_take [OF ok3 d3 th3 i3, of now])
  have len: "length (rq_ready q3) = 8" using ok3 by (simp add: rq_ok_def)
  have "schedule_queue remaining now t q ths = Inr (next, q3\<lparr>rq_ready := (rq_ready q3)[p := l]\<rparr>, ths')"
    using th(1) 1 2 th3 by (simp add: schedule_queue_def Let_def)
  moreover have "threads_keep (set gone) ths ths'"
    using threads_keep_trans [OF keep, of "{}" ths'] same by (simp add: threads_same_def)
  moreover have "i = next \<or> i \<in> set ((rq_ready q3)[p := l] ! 7)" using i p(1) len by (auto simp: nth_list_update)
  moreover have "ths' u = ths u" if u: "u \<notin> set (t # rq_lists q)" for u
  proof -
    have "next \<in> set (rq_lists q3)" using ready_in_lists [OF ok3 p(1)] 2(2) by simp
    then have "next \<in> set (t # rq_lists q)" using ms by (metis Un_iff set_mset_mset set_mset_union)
    then show ?thesis using u frame [OF u] by (auto simp: 2(4))
  qed
  ultimately show ?thesis using that [of "next" "q3\<lparr>rq_ready := (rq_ready q3)[p := l]\<rparr>" ths' gone p] ok' ms ms' cur3 gone p len by simp
qed

section \<open>The invariant of the scheduler\<close>

definition rq_all :: "run_queue \<Rightarrow> nat list" where
  "rq_all q = (case rq_current q of None \<Rightarrow> [] | Some t \<Rightarrow> [t]) @ rq_lists q"

definition sched_threads :: "sched \<Rightarrow> nat list" where
  "sched_threads s = concat (map rq_all (s_run_queues s))"

definition cpu_ok :: "threads \<Rightarrow> nat \<Rightarrow> run_queue \<Rightarrow> bool" where
  "cpu_ok ths idle q \<longleftrightarrow> rq_ok ths q \<and> (\<exists>t p. rq_current q = Some t \<and> prio ths t = Some p \<and> p < 8) \<and>
     (\<exists>ih. ths idle = Some ih \<and> th_constant ih \<and> th_ready ih \<and> priority_of ih = 7) \<and>
     (rq_current q = Some idle \<or> idle \<in> set (rq_ready q ! 7))"

text \<open>Every thread is in one place only, on the list of its priority; every CPU runs a thread and has an
  idle thread, which is ready, of constant priority, and either runs or is on the least urgent list.\<close>

definition sched_ok :: "(nat \<Rightarrow> nat) \<Rightarrow> sched \<Rightarrow> bool" where
  "sched_ok idle s \<longleftrightarrow> (\<forall>cpu < length (s_run_queues s). cpu_ok (s_threads s) (idle cpu) (s_run_queues s ! cpu)) \<and> distinct (sched_threads s)"

lemma rq_all_current: "rq_current q = Some t \<Longrightarrow> rq_all q = t # rq_lists q"
  by (simp add: rq_all_def)

lemma cpu_ok_same:
  assumes "cpu_ok ths i q" "threads_same ths ths'" "rq_ok ths' q'" "rq_current q' = rq_current q" "rq_ready q' ! 7 = rq_ready q ! 7"
  shows "cpu_ok ths' i q'"
proof -
  obtain ih where "ths i = Some ih" "th_constant ih" "th_ready ih" "priority_of ih = 7" using assms(1) by (auto simp: cpu_ok_def)
  then obtain ih' where "ths' i = Some ih'" "th_constant ih'" "th_ready ih'" "priority_of ih' = 7"
    using threads_keepD [of "{}" ths ths' i ih] assms(2) by (auto simp: threads_same_def th_keeps_def)
  then show ?thesis using assms by (auto simp: cpu_ok_def threads_same_def)
qed

lemma mset_all_eq:
  assumes "map rq_current qs' = map rq_current qs" "mset (concat (map rq_lists qs')) = mset (concat (map rq_lists qs))"
  shows "mset (concat (map rq_all qs')) = mset (concat (map rq_all qs))"
proof -
  have split: "mset (concat (map rq_all qs)) = mset (concat (map (\<lambda>c. case c of None \<Rightarrow> [] | Some t \<Rightarrow> [t]) (map rq_current qs))) +
      mset (concat (map rq_lists qs))" for qs
    by (induction qs) (auto simp: rq_all_def)
  show ?thesis unfolding split using assms by simp
qed

lemma schedule_steal_ok:
  assumes ok: "sched_ok idle s" and cpu: "cpu < length (s_run_queues s)"
  obtains s' where "schedule_steal cpu now s = Inr s'" and "sched_ok idle s'" and "length (s_run_queues s') = length (s_run_queues s)"
    and "threads_same (s_threads s) (s_threads s')" and "mset (sched_threads s') = mset (sched_threads s)"
proof (cases "unat (s_steal_turn s) = cpu \<and> now - rq_last_steal (s_run_queues s ! cpu) > steal_frequency")
  case False
  then show ?thesis using that [of s] ok cpu by (auto simp: schedule_steal_def)
next
  case True
  let ?qs = "s_run_queues s" and ?ths = "s_threads s"
  have "\<forall>i < length ?qs. rq_ok ?ths (?qs ! i)" using ok by (simp add: sched_ok_def cpu_ok_def)
  moreover have "set [0..<length ?qs] \<subseteq> {..<length ?qs}" by auto
  ultimately obtain qs ths where st: "steal_loop [0..<length ?qs] cpu ?qs ?ths = Inr (qs, ths)" "length qs = length ?qs" "threads_same ?ths ths"
    "mset (concat (map rq_lists qs)) = mset (concat (map rq_lists ?qs))"
    and q: "\<And>i. i < length ?qs \<Longrightarrow> rq_ok ths (qs ! i) \<and> rq_current (qs ! i) = rq_current (?qs ! i) \<and> rq_ready (qs ! i) ! 7 = rq_ready (?qs ! i) ! 7"
    using steal_loop_ok cpu by blast
  define qs' where "qs' = qs[cpu := (qs ! cpu)\<lparr>rq_last_steal := now\<rparr>]"
  have q': "rq_lists (qs' ! i) = rq_lists (qs ! i)" "rq_ready (qs' ! i) = rq_ready (qs ! i)" "rq_current (qs' ! i) = rq_current (qs ! i)"
    "rq_ok ths (qs' ! i) = rq_ok ths (qs ! i)" if "i < length qs" for i
    using that by (cases "i = cpu"; simp add: qs'_def rq_lists_def rq_ok_def)+
  have maps: "map rq_lists qs' = map rq_lists qs" "map rq_current qs' = map rq_current ?qs"
    by (rule nth_equalityI; use q' q st(2) in \<open>simp add: qs'_def\<close>)+
  define s' where "s' = s\<lparr>s_run_queues := qs', s_threads := ths, s_steal_turn := (s_steal_turn s + 1) mod of_nat (length qs)\<rparr>"
  have ms: "mset (sched_threads s') = mset (sched_threads s)"
    using mset_all_eq [OF maps(2)] st(4) by (simp add: sched_threads_def s'_def maps(1))
  have "sched_ok idle s'"
    unfolding sched_ok_def
  proof (intro conjI allI impI)
    show "distinct (sched_threads s')" using ok mset_eq_imp_distinct_iff [OF ms] by (simp add: sched_ok_def)
    fix i
    assume "i < length (s_run_queues s')"
    then have i: "i < length ?qs" by (simp add: s'_def qs'_def st(2))
    then have "cpu_ok ?ths (idle i) (?qs ! i)" using ok by (simp add: sched_ok_def)
    then show "cpu_ok (s_threads s') (idle i) (s_run_queues s' ! i)"
      using cpu_ok_same [OF _ st(3), of "idle i" "?qs ! i" "qs' ! i"] q [OF i] q' i st(2) by (simp add: s'_def)
  qed
  moreover have "schedule_steal cpu now s = Inr s'" using True cpu st by (simp add: schedule_steal_def steal_work_def s'_def qs'_def)
  ultimately show ?thesis using that ms st(2,3) by (simp add: s'_def qs'_def)
qed

lemma distinct_concat_nth:
  assumes "distinct (concat xs)" "i < length xs"
  shows "distinct (xs ! i)" and "j < length xs \<Longrightarrow> i \<noteq> j \<Longrightarrow> set (xs ! i) \<inter> set (xs ! j) = {}"
  using assms
proof (induction xs arbitrary: i j)
  case (Cons x xs)
  {
    case 1
    then show ?case using Cons.IH(1) by (cases i) auto
  next
    case 2
    have "set x \<inter> set (xs ! k) = {}" if "k < length xs" for k using 2(3) nth_mem [OF that] by auto
    then show ?case using 2 Cons.IH(2) by (cases i; cases j) auto
  }
qed auto

lemma cpu_ok_frame:
  assumes "cpu_ok ths i q" "\<And>u. u \<in> set (rq_all q) \<Longrightarrow> ths' u = ths u"
  shows "cpu_ok ths' i q"
proof -
  obtain t p where cur: "rq_current q = Some t" "prio ths t = Some p" "p < 8" using assms(1) by (auto simp: cpu_ok_def)
  have ok: "rq_ok ths q" using assms(1) by (simp add: cpu_ok_def)
  then have "rq_ok ths' q" by (rule rq_ok_cong) (simp add: prio_def assms(2) rq_all_current [OF cur(1)])
  moreover have "i \<in> set (rq_all q)" using assms(1) cur ready_in_lists [OF ok, of 7] by (auto simp: cpu_ok_def rq_all_current)
  ultimately show ?thesis using assms cur by (auto simp: cpu_ok_def prio_def rq_all_current)
qed

text \<open>What \<open>schedule\<close> does to its own queue.\<close>

lemma schedule_own:
  assumes ok: "cpu_ok ths i q" and d: "distinct (rq_all q)" and cur: "rq_current q = Some t"
  obtains "next" q' ths' gone where "schedule_queue remaining now t q ths = Inr (next, q', ths')" and "rq_current q' = Some t"
    and "\<And>v. cpu_ok ths' i (q'\<lparr>rq_prev := v, rq_current := Some next\<rparr>)" and "mset (rq_all q) = mset (next # rq_lists q') + mset gone"
    and "\<And>u. u \<notin> set (rq_all q) \<Longrightarrow> ths' u = ths u" and "ths' t \<noteq> None" and "ths' next \<noteq> None"
    and "\<And>p j. prio ths' next = Some p \<Longrightarrow> j < p \<Longrightarrow> rq_ready q' ! j = []"
    and "\<forall>g \<in> set gone. \<exists>th. ths g = Some th \<and> th_exited th"
proof -
  obtain th where th: "ths t = Some th" "priority_of th < 8" using ok cur by (auto simp: cpu_ok_def dest!: prio_exists)
  obtain ih where ih: "ths i = Some ih" "th_constant ih" "th_ready ih" "priority_of ih = 7" "i = t \<or> i \<in> set (rq_ready q ! 7)"
    using ok cur by (auto simp: cpu_ok_def)
  have okq: "rq_ok ths q" using ok by (simp add: cpu_ok_def)
  have d': "distinct (t # rq_lists q)" using d cur by (simp add: rq_all_current)
  obtain "next" q' ths' gone p where r: "schedule_queue remaining now t q ths = Inr (next, q', ths')" "rq_ok ths' q'"
    "mset (t # rq_lists q) = mset (next # rq_lists q') + mset gone" "threads_keep (set gone) ths ths'"
    "rq_current q' = Some t" "t \<notin> set gone" "\<forall>g \<in> set gone. \<exists>th. ths g = Some th \<and> th_exited th"
    and p: "p < 8" "prio ths' next = Some p" "\<forall>j<p. rq_ready q' ! j = []" and i: "i = next \<or> i \<in> set (rq_ready q' ! 7)"
    and frame: "\<And>u. u \<notin> set (t # rq_lists q) \<Longrightarrow> ths' u = ths u"
    by (rule schedule_queue_ok [OF okq d' cur th ih, of remaining now]) blast
  have "i \<in> set (next # rq_lists q')" using i ready_in_lists [OF r(2), of 7] by auto
  then have "i \<notin> set gone" using distinct_mset_eq [OF d' r(3)] by auto
  then obtain ih' where "ths' i = Some ih'" "th_keeps ih ih'" using threads_keepD [OF r(4) _ ih(1)] by blast
  then have "cpu_ok ths' i (q'\<lparr>rq_prev := v, rq_current := Some next\<rparr>)" for v
    using ih r(2) p i by (auto simp: cpu_ok_def rq_ok_def th_keeps_def)
  moreover have "ths' t \<noteq> None" using threads_keepD [OF r(4,6) th(1)] by auto
  moreover have "ths' next \<noteq> None" using p(2) by (auto simp: prio_def)
  ultimately show ?thesis using that [OF r(1,5)] r(3,7) p frame by (simp add: rq_all_current [OF cur])
qed

lemma schedule_ok:
  assumes ok: "sched_ok idle s" and cpu: "cpu < length (s_run_queues s)"
  obtains s' sw gone t p where "schedule cpu remaining now s = Inr (s', sw)" and "sched_ok idle s'"
    and "length (s_run_queues s') = length (s_run_queues s)" and "mset (sched_threads s) = mset (sched_threads s') + mset gone"
    and "\<forall>g \<in> set gone. \<exists>th. s_threads s g = Some th \<and> th_exited th"
    and "rq_current (s_run_queues s' ! cpu) = Some t" and "prio (s_threads s') t = Some p" and "\<forall>j<p. rq_ready (s_run_queues s' ! cpu) ! j = []"
proof -
  obtain s1 where s1: "schedule_steal cpu now s = Inr s1" "sched_ok idle s1" "length (s_run_queues s1) = length (s_run_queues s)"
    "threads_same (s_threads s) (s_threads s1)" "mset (sched_threads s1) = mset (sched_threads s)"
    by (rule schedule_steal_ok [OF ok cpu])
  let ?qs = "s_run_queues s1" and ?ths = "s_threads s1"
  have c: "cpu < length ?qs" using cpu s1(3) by simp
  have okq: "cpu_ok ?ths (idle cpu) (?qs ! cpu)" using s1(2) c by (simp add: sched_ok_def)
  have dis: "distinct (concat (map rq_all ?qs))" using s1(2) by (simp add: sched_ok_def sched_threads_def)
  have d: "distinct (rq_all (?qs ! cpu))" using distinct_concat_nth(1) [OF dis, of cpu] c by simp
  obtain t where cur: "rq_current (?qs ! cpu) = Some t" using okq by (auto simp: cpu_ok_def)
  obtain "next" q' ths' gone where r: "schedule_queue remaining now t (?qs ! cpu) ?ths = Inr (next, q', ths')" "rq_current q' = Some t"
    and own: "\<And>v. cpu_ok ths' (idle cpu) (q'\<lparr>rq_prev := v, rq_current := Some next\<rparr>)"
    and ms: "mset (rq_all (?qs ! cpu)) = mset (next # rq_lists q') + mset gone"
    and frame: "\<And>u. u \<notin> set (rq_all (?qs ! cpu)) \<Longrightarrow> ths' u = ?ths u" and ex: "ths' t \<noteq> None" "ths' next \<noteq> None"
    and urgent: "\<And>p j. prio ths' next = Some p \<Longrightarrow> j < p \<Longrightarrow> rq_ready q' ! j = []"
    and gone: "\<forall>g \<in> set gone. \<exists>th. ?ths g = Some th \<and> th_exited th"
    by (rule schedule_own [OF okq d cur, of remaining now]) blast
  obtain v where v: "if next = t then q' = q'\<lparr>rq_prev := v, rq_current := Some next\<rparr> else v = ucast (k_obj_id (th_object (the (ths' t))))"
    using r(2) by (cases "next = t") (auto intro: that [of "rq_prev q'"])
  define q2 where "q2 = q'\<lparr>rq_prev := v, rq_current := Some next\<rparr>"
  have q2: "rq_all q2 = next # rq_lists q'" "rq_ready q2 = rq_ready q'" "rq_current q2 = Some next" by (simp_all add: q2_def rq_all_def rq_lists_def)
  obtain s' sw where s': "schedule cpu remaining now s = Inr (s', sw)" "s_run_queues s' = ?qs[cpu := q2]" "s_threads s' = ths'"
    using s1(1) c cur r(1) ex v by (cases "next = t") (auto simp: schedule_def Let_def q2_def)
  have tot: "mset (sched_threads s) = mset (sched_threads s') + mset gone"
    using mset_concat_update [of cpu "map rq_all ?qs" "rq_all q2"] c ms s1(5) q2(1) by (simp add: sched_threads_def s'(2) map_update)
  have "distinct (sched_threads s)" using ok by (simp add: sched_ok_def)
  then have "distinct (sched_threads s')" using distinct_mset_eq [OF _ tot] by blast
  moreover have "cpu_ok ths' (idle j) (?qs[cpu := q2] ! j)" if j: "j < length ?qs" for j
  proof (cases "j = cpu")
    case True
    then show ?thesis using own c by (simp add: q2_def)
  next
    case False
    have dj: "set (rq_all (?qs ! j)) \<inter> set (rq_all (?qs ! cpu)) = {}" using distinct_concat_nth(2) [OF dis, of j cpu] c j False by simp
    have "cpu_ok ?ths (idle j) (?qs ! j)" using s1(2) j by (simp add: sched_ok_def)
    then have "cpu_ok ths' (idle j) (?qs ! j)" by (rule cpu_ok_frame) (use dj in \<open>blast intro: frame\<close>)
    then show ?thesis using False by simp
  qed
  ultimately have "sched_ok idle s'" by (simp add: sched_ok_def s'(2,3))
  moreover have "\<exists>th. s_threads s g = Some th \<and> th_exited th" if "g \<in> set gone" for g
  proof -
    obtain th where th: "?ths g = Some th" "th_exited th" using gone \<open>g \<in> set gone\<close> by blast
    have "rel_option th_keeps (s_threads s g) (?ths g)" using s1(4) by (simp add: threads_same_def threads_keep_def)
    then show ?thesis using th by (cases "s_threads s g") (auto simp: th_keeps_def)
  qed
  moreover obtain p where "prio ths' next = Some p" using ex(2) by (auto simp: prio_def)
  ultimately show ?thesis using that [OF s'(1), of gone "next" p] s' tot urgent c s1(3) q2 by simp
qed

section \<open>Runs of the scheduler\<close>

text \<open>What happens to the scheduler over time: a CPU enters \<open>schedule\<close>, a new thread is added, and
  threads other than the idle ones are woken, blocked or ended, or given a timeout, at any moment.\<close>

inductive sched_step :: "(nat \<Rightarrow> nat) \<Rightarrow> sched \<Rightarrow> sched \<Rightarrow> bool" for idle where
  run: "cpu < length (s_run_queues s) \<Longrightarrow> schedule cpu remaining now s = Inr (s', sw) \<Longrightarrow> sched_step idle s s'"
| new: "s_threads s t = None \<Longrightarrow> priority_of th < 8 \<Longrightarrow> sched_add_thread t (s\<lparr>s_threads := (s_threads s)(t \<mapsto> th)\<rparr>) = Inr s' \<Longrightarrow> sched_step idle s s'"
| wake: "s_threads s t = Some th \<Longrightarrow> sched_step idle s (s\<lparr>s_threads := (s_threads s)(t \<mapsto> th_wake v th)\<rparr>)"
| block: "s_threads s t = Some th \<Longrightarrow> t \<notin> range idle \<Longrightarrow> sched_step idle s (s\<lparr>s_threads := (s_threads s)(t \<mapsto> th_block th)\<rparr>)"
| exit: "s_threads s t = Some th \<Longrightarrow> t \<notin> range idle \<Longrightarrow>
    sched_step idle s (s\<lparr>s_threads := (s_threads s)(t \<mapsto> th_block (set_state st_exited (th_set_wake_timeout 0 th)))\<rparr>)"
| timeout: "s_threads s t = Some th \<Longrightarrow> sched_step idle s (s\<lparr>s_threads := (s_threads s)(t \<mapsto> th_set_wake_timeout v th)\<rparr>)"

lemma cpu_ok_upd:
  assumes "cpu_ok ths i q" "ths t = Some th" "priority_of th' = priority_of th"
    and "t = i \<Longrightarrow> th_constant th' = th_constant th \<and> (th_ready th \<longrightarrow> th_ready th')"
  shows "cpu_ok (ths(t \<mapsto> th')) i q"
proof -
  have "prio (ths(t \<mapsto> th')) = prio ths" using assms(2,3) by (auto simp: prio_def)
  then show ?thesis using assms by (auto simp: cpu_ok_def rq_ok_def)
qed

lemma sched_ok_upd:
  assumes "sched_ok idle s" "s_threads s t = Some th" "priority_of th' = priority_of th"
    and "t \<in> range idle \<Longrightarrow> th_constant th' = th_constant th \<and> (th_ready th \<longrightarrow> th_ready th')"
  shows "sched_ok idle (s\<lparr>s_threads := (s_threads s)(t \<mapsto> th')\<rparr>)"
proof -
  have "cpu_ok ((s_threads s)(t \<mapsto> th')) (idle i) (s_run_queues s ! i)" if "i < length (s_run_queues s)" for i
    by (rule cpu_ok_upd [of "s_threads s" _ _ t th]) (use assms that in \<open>auto simp: sched_ok_def\<close>)
  then show ?thesis using assms(1) by (simp add: sched_ok_def sched_threads_def)
qed

lemma rq_all_exists:
  assumes "cpu_ok ths i q" "t \<in> set (rq_all q)"
  shows "prio ths t \<noteq> None"
proof -
  obtain c p where c: "rq_current q = Some c" "prio ths c = Some p" using assms(1) by (auto simp: cpu_ok_def)
  have ok: "rq_ok ths q" using assms(1) by (simp add: cpu_ok_def)
  then have len: "length (rq_ready q) = 8" by (simp add: rq_ok_def)
  show ?thesis using assms(2) c ok by (auto simp: rq_all_current set_rq_lists [OF len] rq_ok_def)
qed

lemma sched_add_thread_ok:
  assumes ok: "sched_ok idle s" and t: "s_threads s t = None" and th: "priority_of th < 8" and n: "s_run_queues s \<noteq> []"
  obtains s' where "sched_add_thread t (s\<lparr>s_threads := (s_threads s)(t \<mapsto> th)\<rparr>) = Inr s'" and "sched_ok idle s'"
proof -
  let ?qs = "s_run_queues s"
  define cpu where "cpu = unat (s_add_index s) mod length ?qs"
  have cpu: "cpu < length ?qs" using n by (simp add: cpu_def)
  have "priority_of th < 64" using th by simp
  then obtain left where left: "quantum (priority_of th) = Inr left" using quantum_ok by blast
  define th' where "th' = map_tcb (\<lambda>c. c\<lparr>t_cpu := Some cpu, t_time_left := left\<rparr>) (th\<lparr>th_object := handle_retain (th_object th)\<rparr>)"
  have p': "priority_of th' = priority_of th" by (simp add: th'_def priority_of_def)
  define ths' where "ths' = (s_threads s)(t \<mapsto> th')"
  define q' where "q' = (?qs ! cpu)\<lparr>rq_blocked := rq_blocked (?qs ! cpu) @ [t]\<rparr>"
  obtain s' where s': "sched_add_thread t (s\<lparr>s_threads := (s_threads s)(t \<mapsto> th)\<rparr>) = Inr s'"
    "s_run_queues s' = ?qs[cpu := q']" "s_threads s' = ths'"
    using cpu left by (auto simp: sched_add_thread_def Let_def cpu_def [symmetric] th_retain_def ths'_def th'_def q'_def priority_of_def)
  have okq: "cpu_ok (s_threads s) (idle i) (?qs ! i)" if "i < length ?qs" for i using ok that by (simp add: sched_ok_def)
  have fresh: "t \<notin> set (rq_all (?qs ! i))" if "i < length ?qs" for i using rq_all_exists [OF okq [OF that], of t] t by (auto simp: prio_def)
  have okq': "cpu_ok ths' (idle i) (?qs ! i)" if "i < length ?qs" for i
    using okq [OF that] by (rule cpu_ok_frame) (use fresh [OF that] in \<open>auto simp: ths'_def\<close>)
  then have "cpu_ok ths' (idle i) (?qs[cpu := q'] ! i)" if "i < length ?qs" for i
    using that th p' cpu by (cases "i = cpu") (auto simp: q'_def cpu_ok_def rq_ok_def ths'_def)
  moreover have "mset (concat (map rq_all (?qs[cpu := q']))) = add_mset t (mset (concat (map rq_all ?qs)))"
    using mset_concat_update [of cpu "map rq_all ?qs" "rq_all q'"] cpu
    by (simp add: map_update) (simp add: q'_def rq_all_def rq_lists_def ac_simps)
  then have "distinct (concat (map rq_all (?qs[cpu := q']))) \<longleftrightarrow> distinct (t # concat (map rq_all ?qs))"
    by (intro mset_eq_imp_distinct_iff) simp
  moreover have "t \<notin> set (concat (map rq_all ?qs))" using fresh by (auto simp: set_conv_nth [of ?qs])
  then have "distinct (t # concat (map rq_all ?qs))" using ok by (simp add: sched_ok_def sched_threads_def)
  ultimately have "sched_ok idle s'" by (simp add: sched_ok_def s' sched_threads_def)
  then show ?thesis using that s'(1) by blast
qed

lemma state_bits [simp]:
  "th_constant (th_wake v th) = th_constant th" "th_ready th \<Longrightarrow> th_ready (th_wake v th)" "priority_of (th_wake v th) = priority_of th"
  "th_constant (th_set_wake_timeout v th) = th_constant th" "th_ready (th_set_wake_timeout v th) = th_ready th"
  "priority_of (th_set_wake_timeout v th) = priority_of th" "priority_of (th_block th) = priority_of th"
  "priority_of (set_state b th) = priority_of th"
proof -
  have v: "th_constant (th\<lparr>th_wake_value := v\<rparr>) = th_constant th" "priority_of (th\<lparr>th_wake_value := v\<rparr>) = priority_of th"
    by (simp_all add: th_constant_def has_state_def priority_of_def)
  show "th_constant (th_wake v th) = th_constant th" "th_ready th \<Longrightarrow> th_ready (th_wake v th)" "priority_of (th_wake v th) = priority_of th"
    using v by (simp_all add: th_wake_def)
qed (simp_all add: th_set_wake_timeout_def th_constant_def th_ready_def has_state_def priority_of_def th_block_def clear_state_def set_state_def)

lemma sched_step_ok:
  assumes "sched_step idle s s'" "sched_ok idle s" "s_run_queues s \<noteq> []"
  shows "sched_ok idle s' \<and> length (s_run_queues s') = length (s_run_queues s)"
  using assms
proof cases
  case (run cpu remaining now sw)
  then show ?thesis using schedule_ok [OF assms(2), of cpu remaining now] by (metis Inr_inject prod.inject)
next
  case (new t th)
  obtain s1 where "sched_add_thread t (s\<lparr>s_threads := (s_threads s)(t \<mapsto> th)\<rparr>) = Inr s1" "sched_ok idle s1"
    by (rule sched_add_thread_ok [OF assms(2) new(1,2) assms(3)])
  moreover have "length (s_run_queues s') = length (s_run_queues s)" using new(3) by (auto simp: sched_add_thread_def Let_def bindE_Inr_iff)
  ultimately show ?thesis using new(3) by simp
qed (auto intro!: sched_ok_upd)

lemma sched_reach_ok:
  assumes "(sched_step idle)\<^sup>*\<^sup>* s s'" "sched_ok idle s" "s_run_queues s \<noteq> []"
  shows "sched_ok idle s' \<and> length (s_run_queues s') = length (s_run_queues s)"
  using assms
proof (induction rule: rtranclp_induct)
  case (step s1 s2)
  then have "sched_ok idle s1" "length (s_run_queues s1) = length (s_run_queues s)" "s_run_queues s1 \<noteq> []" by auto
  then show ?case using sched_step_ok [OF step.hyps(2)] by simp
qed simp

section \<open>Properties\<close>

definition sched_thread :: "u8 \<Rightarrow> u8 \<Rightarrow> thread" where
  "sched_thread pri st = \<lparr>th_object = \<lparr>k_handle_count = 1, k_type = Thread_object, k_obj_id = 0\<rparr>, th_tcb = (tcb_example 0)\<lparr>t_priority := pri\<rparr>,
     th_parent = 0, th_creator = None, th_state = st, th_mxcsr = 0, th_wake_value = 0, th_wake_timeout = 0\<rparr>"

text \<open>Two CPUs with idle threads 10 and 11; on CPU 0 thread 1 runs, thread 2 is ready and more urgent, and
  thread 3, of the priority of thread 1, has just been woken.\<close>

definition sched_example :: sched where
  "sched_example = \<lparr>s_add_index = 0,
     s_run_queues = [run_queue_new\<lparr>rq_current := Some 1, rq_ready := [[], [2], [], [], [], [], [], [10]], rq_blocked := [3]\<rparr>,
                     run_queue_new\<lparr>rq_current := Some 11\<rparr>],
     s_steal_turn = 1,
     s_threads = [1 \<mapsto> sched_thread 2 0x01, 2 \<mapsto> sched_thread 1 0x01, 3 \<mapsto> sched_thread 2 0x01, 10 \<mapsto> sched_thread 7 0x81, 11 \<mapsto> sched_thread 7 0x81],
     s_cpu_thread = (\<lambda>_. None)(0 := Some 1, 1 := Some 11), s_cpu_process = \<lambda>_. None, s_timer = \<lambda>_. 0\<rparr>"

lemma all_less_8: "(\<forall>p<8. P p) \<longleftrightarrow> P 0 \<and> P 1 \<and> P 2 \<and> P 3 \<and> P 4 \<and> P 5 \<and> P 6 \<and> P (7 :: nat)"
proof
  assume *: "P 0 \<and> P 1 \<and> P 2 \<and> P 3 \<and> P 4 \<and> P 5 \<and> P 6 \<and> P 7"
  show "\<forall>p<8. P p"
  proof (intro allI impI)
    fix p :: nat
    assume "p < 8"
    then have "p \<in> {0, 1, 2, 3, 4, 5, 6, 7}" by auto
    then show "P p" using * by auto
  qed
qed simp

lemma sched_example_ok: "sched_ok (\<lambda>cpu. 10 + cpu) sched_example"
proof -
  have [simp]: "priority_of (sched_thread p st) = unat p" "th_constant (sched_thread p st) = (st AND 0x80 \<noteq> 0)" "th_ready (sched_thread p st) = (st AND 1 \<noteq> 0)" for p st
    by (simp_all add: priority_of_def sched_thread_def th_constant_def th_ready_def has_state_def st_constant_def st_ready_def)
  let ?ths = "s_threads sched_example" and ?qs = "s_run_queues sched_example"
  note defs = sched_example_def cpu_ok_def rq_ok_def prio_def all_less_8 run_queue_new_def num_priorities_def
  have "cpu_ok ?ths 10 (?qs ! 0)" "cpu_ok ?ths 11 (?qs ! 1)" by (simp_all add: defs)
  moreover have "length ?qs = 2" by (simp add: sched_example_def)
  moreover have "distinct (sched_threads sched_example)" by (simp add: sched_threads_def rq_all_def rq_lists_def defs)
  ultimately show ?thesis by (auto simp: sched_ok_def less_2_cases_iff)
qed

text \<open>C4. The scheduler never runs out of threads: from a well-formed state, after any sequence of calls of
  \<open>schedule\<close> on any CPU, of new threads, and of threads being woken, blocked, ended or given a timeout, a
  further \<open>schedule\<close> on any CPU succeeds (no list is corrupted, no thread is used after it was deleted, and
  the assertion that some list is not empty holds) and the state is well-formed again.\<close>

theorem scheduler_never_stuck:
  assumes "sched_ok idle s" and "(sched_step idle)\<^sup>*\<^sup>* s s'" and "cpu < length (s_run_queues s)"
  shows "\<exists>s'' sw. schedule cpu remaining now s' = Inr (s'', sw) \<and> sched_ok idle s''"
proof -
  have "s_run_queues s \<noteq> []" using assms(3) by auto
  then have "sched_ok idle s'" "cpu < length (s_run_queues s')" using sched_reach_ok [OF assms(2,1)] assms(3) by auto
  from schedule_ok [OF this, of remaining now] show ?thesis by metis
qed

theorem scheduler_never_stuck_witness:
  "\<exists>s'' sw. schedule 0 0 50 (sched_example\<lparr>s_threads := (s_threads sched_example)(1 \<mapsto> th_block (sched_thread 2 0x01))\<rparr>) = Inr (s'', sw) \<and>
     sched_ok (\<lambda>cpu. 10 + cpu) s''"
proof (rule scheduler_never_stuck [OF sched_example_ok])
  show "(sched_step (\<lambda>cpu. 10 + cpu))\<^sup>*\<^sup>* sched_example (sched_example\<lparr>s_threads := (s_threads sched_example)(1 \<mapsto> th_block (sched_thread 2 0x01))\<rparr>)"
    by (intro r_into_rtranclp sched_step.block) (auto simp: sched_example_def)
qed (simp add: sched_example_def)

text \<open>C5. The thread chosen by \<open>schedule\<close> is a most urgent one: every list of its CPU that is more urgent is
  empty. No thread is lost: the threads of all CPUs, running or on a list, are those from before except for
  threads that had exited.\<close>

theorem schedule_most_urgent:
  assumes "sched_ok idle s" and "cpu < length (s_run_queues s)"
  shows "\<exists>s' sw gone t p. schedule cpu remaining now s = Inr (s', sw) \<and>
     rq_current (s_run_queues s' ! cpu) = Some t \<and> prio (s_threads s') t = Some p \<and> (\<forall>j \<in> {..<p}. rq_ready (s_run_queues s' ! cpu) ! j = []) \<and>
     mset (sched_threads s) = mset (sched_threads s') + mset gone \<and> (\<forall>g \<in> set gone. \<exists>th. s_threads s g = Some th \<and> th_exited th)"
  using schedule_ok [OF assms, of remaining now] by (metis lessThan_iff)

theorem schedule_most_urgent_witness:
  "\<exists>s' sw t p. schedule 0 5 50 sched_example = Inr (s', sw) \<and> rq_current (s_run_queues s' ! 0) = Some t \<and> prio (s_threads s') t = Some p \<and>
     {j. j < p \<and> rq_ready (s_run_queues s' ! 0) ! j \<noteq> []} = {}"
  using schedule_most_urgent [OF sched_example_ok, of 0 5 50] by (auto simp: sched_example_def)

text \<open>A pass of \<open>check_promotions\<close> promotes at most one thread of each ready list, however many of
  them are stale; the threads on the lists stay the same.\<close>

theorem promotions_one_per_list:
  assumes "rq_ok ths q" and "distinct (rq_lists q)"
  shows "\<exists>q' ths'. check_promotions now q ths = Inr (q', ths') \<and> rq_ok ths' q' \<and> mset (rq_lists q') = mset (rq_lists q) \<and>
     (\<forall>p \<in> {..<8}. card {t \<in> set (rq_ready q ! p). prio ths' t \<noteq> Some p} \<le> 1)"
proof -
  obtain q' ths' where "check_promotions now q ths = Inr (q', ths')" "queue_step [] q ths q' ths'"
    "\<And>i. i < 8 \<Longrightarrow> card {t \<in> set (rq_ready q ! i). prio ths' t \<noteq> Some i} \<le> 1"
    by (rule check_promotions_ok [OF assms, of now]) blast
  then show ?thesis by (auto simp: queue_step_def)
qed

theorem promotions_one_per_list_witness:
  "\<exists>q' ths'. check_promotions 5000000 (run_queue_new\<lparr>rq_ready := [[], [], [1, 2, 3], [], [], [], [], []]\<rparr>)
       [1 \<mapsto> sched_thread 2 0x01, 2 \<mapsto> sched_thread 2 0x01, 3 \<mapsto> sched_thread 2 0x01] = Inr (q', ths') \<and>
     card {t \<in> {1, 2, 3}. prio ths' t \<noteq> Some 2} \<le> 1"
proof -
  let ?q = "run_queue_new\<lparr>rq_ready := [[], [], [1, 2, 3], [], [], [], [], []]\<rparr>"
  let ?ths = "[1 \<mapsto> sched_thread 2 0x01, 2 \<mapsto> sched_thread 2 0x01, 3 \<mapsto> sched_thread 2 0x01]"
  have "rq_ok ?ths ?q" by (simp add: rq_ok_def all_less_8 prio_def run_queue_new_def sched_thread_def priority_of_def)
  moreover have "distinct (rq_lists ?q)" by (simp add: rq_lists_def run_queue_new_def)
  ultimately obtain q' ths' where r: "check_promotions 5000000 ?q ?ths = Inr (q', ths')"
    and c: "\<forall>p \<in> {..<8}. card {t \<in> set (rq_ready ?q ! p). prio ths' t \<noteq> Some p} \<le> 1"
    using promotions_one_per_list [of ?ths ?q 5000000] by blast
  have "card {t \<in> set (rq_ready ?q ! 2). prio ths' t \<noteq> Some 2} \<le> 1" using c by (rule bspec) simp
  with r show ?thesis by (intro exI conjI) simp_all
qed

end
