(* ===== verification/Heap_Allocator.thy ===== *)
theory Heap_Allocator
  imports Util_Basics
begin

text \<open>
  The buddy allocator of the kernel heap, \<open>src/src/kernel/heap_allocator.cpp\<close> and \<open>heap_allocator.h\<close>,
  in the configuration without heap debugging. Addresses are natural numbers; the differences and
  truncations that make a map key of an address are written out. The free lists are lists of addresses, one
  for each order, and the order that a free block keeps in its header is a map of its own. The table of blocks is a
  finite map from keys, as theories \<open>Node_Map\<close> and \<open>Hash_Map\<close> provide it.
\<close>

unbundle bit_operations_syntax

section \<open>State\<close>

definition min_order :: nat where "min_order = 5"

record block_info =
  bi_order :: nat
  bi_free :: bool

record heap =
  h_start :: nat
  h_end :: nat
  h_maxsize :: nat
  h_free :: "nat \<Rightarrow> nat list"
  h_header :: "nat \<Rightarrow> nat"
  h_allocated_size :: u64
  h_map :: "nat \<rightharpoonup> block_info"

section \<open>Operations\<close>

definition map_key :: "heap \<Rightarrow> nat \<Rightarrow> nat" where
  "map_key h p = (p + 2 ^ 64 - h_start h) mod 2 ^ 64 div 2 ^ min_order mod 2 ^ 32"





text \<open>\<open>m_map[key]\<close>, which makes a new entry when there is none, with the given change.\<close>

definition map_update :: "(block_info \<Rightarrow> block_info) \<Rightarrow> nat \<Rightarrow> heap \<Rightarrow> heap" where
  "map_update f b h = h\<lparr>h_map := (h_map h)(map_key h b \<mapsto>
     f (case h_map h (map_key h b) of None \<Rightarrow> \<lparr>bi_order = 0, bi_free = False\<rparr> | Some i \<Rightarrow> i))\<rparr>"


definition register_free_block :: "nat \<Rightarrow> nat \<Rightarrow> heap \<Rightarrow> heap" where
  "register_free_block b order h =
     (let h = map_update (\<lambda>i. i\<lparr>bi_free := True, bi_order := order\<rparr>) b h
      in h\<lparr>h_header := (h_header h)(b := order), h_free := (h_free h)(order := b # h_free h order)\<rparr>)"













section \<open>Buddies\<close>




section \<open>Alignment of an address\<close>





section \<open>Blocks as a tiling of the heap\<close>

text \<open>A view of the table by address.\<close>

definition in_range :: "heap \<Rightarrow> nat \<Rightarrow> bool" where
  "in_range h a \<longleftrightarrow> h_start h \<le> a \<and> a < h_start h + 2 ^ 37 \<and> 32 dvd a"

definition blk :: "heap \<Rightarrow> nat \<rightharpoonup> block_info" where
  "blk h a = (if in_range h a then h_map h (map_key h a) else None)"


lemma map_key_cong:
  assumes "h_start h' = h_start h"
  shows "map_key h' = map_key h" "in_range h' = in_range h"
  by (simp_all only: map_key_def in_range_def fun_eq_iff assms simp_thms)

lemma map_key_simps [simp]:
  "map_key (h\<lparr>h_free := f\<rparr>) = map_key h" "map_key (h\<lparr>h_header := g\<rparr>) = map_key h" "map_key (h\<lparr>h_end := e\<rparr>) = map_key h"
  "map_key (h\<lparr>h_allocated_size := w\<rparr>) = map_key h" "map_key (h\<lparr>h_map := m\<rparr>) = map_key h"
  "in_range (h\<lparr>h_free := f\<rparr>) = in_range h" "in_range (h\<lparr>h_header := g\<rparr>) = in_range h" "in_range (h\<lparr>h_end := e\<rparr>) = in_range h"
  "in_range (h\<lparr>h_allocated_size := w\<rparr>) = in_range h" "in_range (h\<lparr>h_map := m\<rparr>) = in_range h"
  by (rule map_key_cong; simp)+

lemma blk_simps [simp]:
  "blk (h\<lparr>h_free := f\<rparr>) = blk h" "blk (h\<lparr>h_header := g\<rparr>) = blk h" "blk (h\<lparr>h_end := e\<rparr>) = blk h" "blk (h\<lparr>h_allocated_size := w\<rparr>) = blk h"
  by (simp_all add: blk_def fun_eq_iff)



lemma map_update_simps [simp]:
  "h_start (map_update f b h) = h_start h" "h_end (map_update f b h) = h_end h" "h_free (map_update f b h) = h_free h"
  "h_header (map_update f b h) = h_header h" "map_key (map_update f b h) = map_key h" "in_range (map_update f b h) = in_range h"
  by (simp_all add: map_update_def)

text \<open>A tiling of the addresses from \<open>S\<close> to \<open>E\<close>: where blocks start, and their orders.\<close>

definition tiled :: "nat \<Rightarrow> nat \<Rightarrow> (nat \<rightharpoonup> nat) \<Rightarrow> bool" where
  "tiled S E T \<longleftrightarrow>
     (\<forall>a n. T a = Some n \<longrightarrow> S \<le> a \<and> a + 2 ^ n \<le> E \<and> 5 \<le> n \<and> n \<le> 22 \<and> 2 ^ n dvd a) \<and>
     (\<forall>a n b. T a = Some n \<longrightarrow> b \<in> dom T \<longrightarrow> a < b \<longrightarrow> a + 2 ^ n \<le> b) \<and>
     (\<forall>x. S \<le> x \<longrightarrow> x < E \<longrightarrow> (\<exists>a n. T a = Some n \<and> a \<le> x \<and> x < a + 2 ^ n))"









section \<open>The invariant\<close>

definition orders :: "heap \<Rightarrow> nat \<rightharpoonup> nat" where
  "orders h a = map_option bi_order (blk h a)"

definition is_free :: "heap \<Rightarrow> nat \<Rightarrow> bool" where
  "is_free h a \<longleftrightarrow> (\<exists>i. blk h a = Some i \<and> bi_free i)"

text \<open>The free lists hold the free blocks, the ones in \<open>X\<close> apart, which are being worked on.\<close>

definition free_ok :: "nat set \<Rightarrow> heap \<Rightarrow> bool" where
  "free_ok X h \<longleftrightarrow> (\<forall>n. distinct (h_free h n)) \<and>
     (\<forall>n a. a \<in> set (h_free h n) \<longleftrightarrow> a \<notin> X \<and> orders h a = Some n \<and> is_free h a) \<and>
     (\<forall>n a. a \<in> set (h_free h n) \<longrightarrow> h_header h a = n)"

definition heap_inv :: "nat set \<Rightarrow> heap \<Rightarrow> bool" where
  "heap_inv X h \<longleftrightarrow> 2 ^ 22 dvd h_start h \<and> 32 dvd h_end h \<and> h_start h \<le> h_end h \<and> h_end h \<le> h_start h + 2 ^ 36 \<and>
     tiled (h_start h) (h_end h) (orders h) \<and> free_ok X h"

text \<open>The blocks in use, with their orders.\<close>

definition used :: "heap \<Rightarrow> nat \<rightharpoonup> nat" where
  "used h a = (if is_free h a then None else orders h a)"





lemma view_simps [simp]:
  "orders (h\<lparr>h_free := f\<rparr>) = orders h" "orders (h\<lparr>h_header := g\<rparr>) = orders h" "orders (h\<lparr>h_end := e\<rparr>) = orders h"
  "orders (h\<lparr>h_allocated_size := w\<rparr>) = orders h"
  "is_free (h\<lparr>h_free := f\<rparr>) = is_free h" "is_free (h\<lparr>h_header := g\<rparr>) = is_free h" "is_free (h\<lparr>h_end := e\<rparr>) = is_free h"
  "is_free (h\<lparr>h_allocated_size := w\<rparr>) = is_free h"
  by (simp_all add: orders_def is_free_def fun_eq_iff)




section \<open>Free lists\<close>


lemma register_simps [simp]:
  "h_start (register_free_block b n h) = h_start h" "h_end (register_free_block b n h) = h_end h"
  "h_header (register_free_block b n h) = (h_header h)(b := n)"
  "h_free (register_free_block b n h) = (h_free h)(n := b # h_free h n)"
  by (simp_all add: register_free_block_def Let_def)




section \<open>Splitting\<close>






definition taken :: "nat \<Rightarrow> nat \<Rightarrow> heap \<Rightarrow> heap \<Rightarrow> bool" where
  "taken n b h h' \<longleftrightarrow> heap_inv {b} h' \<and> orders h' b = Some n \<and> is_free h' b \<and> (\<forall>a. used h' a = used h a) \<and> h_start h' = h_start h \<and> h_end h' = h_end h"


section \<open>Growing the heap\<close>


lemma heap_inv_size [simp]:
  "heap_inv X (h\<lparr>h_allocated_size := w\<rparr>) = heap_inv X h" "used (h\<lparr>h_allocated_size := w\<rparr>) = used h"
  "taken n b (h\<lparr>h_allocated_size := w\<rparr>) = taken n b h"
  by (simp_all add: heap_inv_def free_ok_def used_def taken_def fun_eq_iff)







section \<open>Merging\<close>






section \<open>A client of the heap\<close>




















end
