(* ===== verification/Capabilities.thy ===== *)
theory Capabilities
  imports Kernel_Threads
begin

text \<open>
  Capabilities: \<open>src/src/kernel/capabilities.cpp\<close> and \<open>capabilities.h\<close>, the handles of a process
  (\<open>objects/process.cpp\<close>), the helpers of the system calls (\<open>syscalls/helpers.h\<close>), the checks that
  \<open>syscall_verify.cpp.cog\<close> generates around every system call, and the system calls on handles
  (\<open>syscalls/handle.cpp\<close>, \<open>process_give_handle\<close>). The table of capabilities is a finite map from
  handles, as theory \<open>Node_Map\<close> provides it, with its count of nodes; the handles of a process are a list without
  duplicates in place of the order of its table. Processes are named by the address of their object. The capability
  masks that are generated from the interface definitions are a record of parameters.
\<close>

unbundle bit_operations_syntax

section \<open>State\<close>

definition j6_handle_invalid :: u64 where "j6_handle_invalid = 0"

datatype j6_status = J6_ok | Err_invalid_arg | Err_denied | Err_insufficient

record capability =
  c_id :: u64
  c_parent :: u64
  c_holders :: u32
  c_caps :: u16
  c_type :: obj_type
  c_object :: "nat option"

text \<open>\<open>cs_mapped\<close> says which memory areas are mapped in some space.\<close>

record cap_state =
  cs_caps :: "u64 \<rightharpoonup> capability"
  cs_size :: nat
  cs_count :: u64
  cs_objects :: "nat \<rightharpoonup> kobject"
  cs_mapped :: "nat \<Rightarrow> bool"
  cs_handles :: "nat \<Rightarrow> u64 list"

text \<open>The masks \<open>j6_cap_\<dots>_all\<close> and \<open>j6_cap_object_clone\<close>.\<close>

record cap_flags =
  cf_all :: "obj_type \<Rightarrow> u16"
  cf_clone :: u16

section \<open>Objects\<close>

definition object_retain :: "nat option \<Rightarrow> cap_state \<Rightarrow> cap_state res" where
  "object_retain p s = (case p of None \<Rightarrow> Inr s
     | Some a \<Rightarrow> (case cs_objects s a of None \<Rightarrow> Inl Use_after_free
         | Some ob \<Rightarrow> Inr (s\<lparr>cs_objects := (cs_objects s)(a \<mapsto> handle_retain ob)\<rparr>)))"

text \<open>\<open>on_no_handles\<close>: whether the object is deleted with its last handle.\<close>

definition on_no_handles :: "obj_type \<Rightarrow> bool \<Rightarrow> bool" where
  "on_no_handles t mapped = (case t of Process_object \<Rightarrow> False | System_object \<Rightarrow> False | Vma_object \<Rightarrow> \<not> mapped | _ \<Rightarrow> True)"

definition object_release :: "nat option \<Rightarrow> cap_state \<Rightarrow> cap_state res" where
  "object_release p s = (case p of None \<Rightarrow> Inr s
     | Some a \<Rightarrow> (case cs_objects s a of None \<Rightarrow> Inl Use_after_free
         | Some ob \<Rightarrow> (case handle_release ob of (ob, gone) \<Rightarrow>
             Inr (s\<lparr>cs_objects := (cs_objects s)(a := if gone \<and> on_no_handles (k_type ob) (cs_mapped s a) then None else Some ob)\<rparr>))))"

section \<open>The table of capabilities\<close>

definition cap_table_new :: cap_state where
  "cap_table_new = \<lparr>cs_caps = Map.empty, cs_size = 0, cs_count = 0, cs_objects = Map.empty, cs_mapped = \<lambda>_. False, cs_handles = \<lambda>_. []\<rparr>"

definition make_handle :: "cap_state \<Rightarrow> u64 \<times> cap_state" where
  "make_handle s = (cs_count s + 1, s\<lparr>cs_count := cs_count s + 1\<rparr>)"

text \<open>\<open>m_caps.find\<close>. The search for the invalid handle stops at an open slot and returns what is left there.\<close>

definition cap_find :: "u64 \<Rightarrow> cap_state \<Rightarrow> capability option res" where
  "cap_find h s = (if cs_size s = 0 then Inr None
     else if h = j6_handle_invalid then Inl Use_after_free
     else Inr (cs_caps s h))"

definition cap_insert :: "capability \<Rightarrow> cap_state \<Rightarrow> cap_state" where
  "cap_insert c s = s\<lparr>cs_caps := (cs_caps s)(c_id c \<mapsto> c), cs_size := cs_size s + 1\<rparr>"

definition cap_erase :: "u64 \<Rightarrow> cap_state \<Rightarrow> cap_state" where
  "cap_erase h s = s\<lparr>cs_caps := (cs_caps s)(h := None), cs_size := cs_size s - 1\<rparr>"

definition cap_create :: "nat option \<Rightarrow> u16 \<Rightarrow> cap_state \<Rightarrow> (u64 \<times> cap_state) res" where
  "cap_create target caps s =
     (let (new_handle, s) = make_handle s
      in case target of None \<Rightarrow> Inl Null_deref
      | Some a \<Rightarrow> (case cs_objects s a of None \<Rightarrow> Inl Use_after_free
         | Some ob \<Rightarrow>
             let s = cap_insert \<lparr>c_id = new_handle, c_parent = j6_handle_invalid, c_holders = 0, c_caps = caps,
                       c_type = k_type ob, c_object = target\<rparr> s
             in bindE (object_retain target s) (\<lambda>s. Inr (new_handle, s))))"

text \<open>
  \<open>derive\<close> reads the object through \<open>existing\<close> once more after the insertion, which may have moved the entry
  to another slot: \<open>there\<close> is the handle of the capability that is then in the slot.
\<close>

definition cap_derive :: "u64 \<Rightarrow> u64 \<Rightarrow> u16 \<Rightarrow> cap_state \<Rightarrow> (u64 \<times> cap_state) res" where
  "cap_derive there base caps s =
     bindE (cap_find base s) (\<lambda>found. case found of
        None \<Rightarrow> Inr (j6_handle_invalid, s)
      | Some existing \<Rightarrow>
          let caps = caps AND c_caps existing;
              (new_handle, s) = make_handle s;
              s = cap_insert \<lparr>c_id = new_handle, c_parent = base, c_holders = 0, c_caps = caps,
                    c_type = c_type existing, c_object = c_object existing\<rparr> s
          in case cs_caps s there of None \<Rightarrow> Inl Use_after_free
             | Some existing \<Rightarrow> bindE (object_retain (c_object existing) s) (\<lambda>s. Inr (new_handle, s)))"

definition cap_retain :: "u64 \<Rightarrow> cap_state \<Rightarrow> (capability option \<times> cap_state) res" where
  "cap_retain h s =
     bindE (cap_find h s) (\<lambda>found. case found of
        None \<Rightarrow> Inr (None, s)
      | Some c \<Rightarrow> let c = c\<lparr>c_holders := c_holders c + 1\<rparr> in Inr (Some c, s\<lparr>cs_caps := (cs_caps s)(h \<mapsto> c)\<rparr>))"

definition cap_release :: "u64 \<Rightarrow> cap_state \<Rightarrow> cap_state res" where
  "cap_release h s =
     bindE (cap_find h s) (\<lambda>found. case found of
        None \<Rightarrow> Inr s
      | Some c \<Rightarrow>
          let c = c\<lparr>c_holders := c_holders c - 1\<rparr>;
              s = s\<lparr>cs_caps := (cs_caps s)(h \<mapsto> c)\<rparr>
          in if c_holders c = 0 then bindE (object_release (c_object c) s) (\<lambda>s. Inr (cap_erase h s)) else Inr s)"

section \<open>Handles of a process\<close>

definition add_handle :: "nat \<Rightarrow> u64 \<Rightarrow> cap_state \<Rightarrow> cap_state res" where
  "add_handle p h s =
     (if h = j6_handle_invalid then Inr s
      else bindE (cap_retain h s) (\<lambda>(c, s). case c of
             None \<Rightarrow> Inl Assert_failed
           | Some _ \<Rightarrow> Inr (if h \<in> set (cs_handles s p) then s else s\<lparr>cs_handles := (cs_handles s)(p := cs_handles s p @ [h])\<rparr>)))"

definition remove_handle :: "nat \<Rightarrow> u64 \<Rightarrow> cap_state \<Rightarrow> (bool \<times> cap_state) res" where
  "remove_handle p h s =
     (if h \<in> set (cs_handles s p)
      then bindE (cap_release h (s\<lparr>cs_handles := (cs_handles s)(p := remove1 h (cs_handles s p))\<rparr>)) (\<lambda>s. Inr (True, s))
      else Inr (False, s))"

definition has_handle :: "nat \<Rightarrow> u64 \<Rightarrow> cap_state \<Rightarrow> bool" where
  "has_handle p h s \<longleftrightarrow> h \<in> set (cs_handles s p)"

record handle_descriptor =
  hd_handle :: u64
  hd_caps :: u16
  hd_type :: obj_type

text \<open>The loop of \<open>list_handles\<close>, into an array of the caller.\<close>

fun list_handles_loop :: "u64 list \<Rightarrow> nat \<Rightarrow> u64 \<Rightarrow> cap_state \<Rightarrow> handle_descriptor list \<Rightarrow> handle_descriptor list res" where
  "list_handles_loop [] count len s out = Inr out"
| "list_handles_loop (h # hs) count len s out =
     bindE (cap_find h s) (\<lambda>c. case c of None \<Rightarrow> Inl Assert_failed
     | Some cap \<Rightarrow>
         bindE (array_set out count \<lparr>hd_handle = h, hd_caps = c_caps cap, hd_type = c_type cap\<rparr>) (\<lambda>out.
         if of_nat (count + 1) = len then Inr out else list_handles_loop hs (count + 1) len s out))"

definition list_handles :: "nat \<Rightarrow> handle_descriptor list \<Rightarrow> u64 \<Rightarrow> cap_state \<Rightarrow> (u64 \<times> handle_descriptor list) res" where
  "list_handles p out len s =
     bindE (list_handles_loop (cs_handles s p) 0 len s out) (\<lambda>out. Inr (of_nat (length (cs_handles s p)), out))"

section \<open>System calls\<close>

text \<open>\<open>construct_handle\<close>: a new object of type \<open>t\<close> with id \<open>i\<close> at the free address \<open>a\<close>.\<close>

definition construct_handle :: "cap_flags \<Rightarrow> nat \<Rightarrow> obj_type \<Rightarrow> u32 \<Rightarrow> nat \<Rightarrow> cap_state \<Rightarrow> (u64 \<times> cap_state) res" where
  "construct_handle F p t i a s =
     (let s = s\<lparr>cs_objects := (cs_objects s)(a \<mapsto> \<lparr>k_handle_count = 0, k_type = t, k_obj_id = i\<rparr>)\<rparr>
      in bindE (cap_create (Some a) (cf_all F t) s) (\<lambda>(h, s).
         bindE (add_handle p h s) (\<lambda>s. Inr (h, s))))"

text \<open>\<open>get_handle\<close> for the current process \<open>p\<close>; the type is \<open>None\<close> for the variant that takes any object.\<close>

definition get_handle :: "nat \<Rightarrow> obj_type option \<Rightarrow> u64 \<Rightarrow> u16 \<Rightarrow> bool \<Rightarrow> cap_state \<Rightarrow> (j6_status \<times> nat option \<times> cap_state) res" where
  "get_handle p ty h caps optional s =
     (if h = j6_handle_invalid then Inr (if optional then J6_ok else Err_invalid_arg, None, s)
      else bindE (cap_retain h s) (\<lambda>(found, s). case found of
             None \<Rightarrow> Inr (Err_invalid_arg, None, s)
           | Some capdata \<Rightarrow>
               if ty \<noteq> None \<and> ty \<noteq> Some (c_type capdata) then Inr (Err_invalid_arg, None, s)
               else if \<not> has_handle p h s \<or> c_caps capdata AND caps \<noteq> caps then Inr (Err_denied, None, s)
               else Inr (J6_ok, c_object capdata, s)))"

text \<open>A handle argument of a system call.\<close>

record handle_param =
  hp_type :: "obj_type option"
  hp_handle :: u64
  hp_caps :: u16
  hp_optional :: bool

fun get_handles :: "nat \<Rightarrow> handle_param list \<Rightarrow> cap_state \<Rightarrow> (j6_status \<times> nat option list \<times> cap_state) res" where
  "get_handles p [] s = Inr (J6_ok, [], s)"
| "get_handles p (x # xs) s =
     bindE (get_handle p (hp_type x) (hp_handle x) (hp_caps x) (hp_optional x) s) (\<lambda>(res, ob, s).
     if res \<noteq> J6_ok then Inr (res, [], s)
     else bindE (get_handles p xs s) (\<lambda>(res, obs, s). Inr (res, ob # obs, s)))"

fun release_handles :: "u64 list \<Rightarrow> cap_state \<Rightarrow> cap_state res" where
  "release_handles [] s = Inr s"
| "release_handles (h # hs) s = bindE (cap_release h s) (release_handles hs)"

text \<open>
  The generated function around a system call. The handles are read again after the call, from where the call
  may have changed them: the call returns them with its status.
\<close>

definition syscall_verify :: "nat \<Rightarrow> handle_param list \<Rightarrow> (nat option list \<Rightarrow> cap_state \<Rightarrow> (j6_status \<times> u64 list \<times> cap_state) res)
    \<Rightarrow> cap_state \<Rightarrow> (j6_status \<times> cap_state) res" where
  "syscall_verify p params call s =
     bindE (get_handles p params s) (\<lambda>(res, obs, s).
     if res \<noteq> J6_ok then Inr (res, s)
     else bindE (call obs s) (\<lambda>(retval, handles, s).
          bindE (release_handles handles s) (\<lambda>s. Inr (retval, s))))"

definition handle_list :: "nat \<Rightarrow> handle_descriptor list \<Rightarrow> u64 \<Rightarrow> cap_state \<Rightarrow> (j6_status \<times> u64 \<times> handle_descriptor list) res" where
  "handle_list p out requested s =
     bindE (list_handles p out requested s) (\<lambda>(n, out).
     Inr (if n > requested then Err_insufficient else J6_ok, n, out))"

definition handle_clone :: "nat \<Rightarrow> u64 \<Rightarrow> u64 \<Rightarrow> u32 \<Rightarrow> cap_state \<Rightarrow> (j6_status \<times> cap_state) res" where
  "handle_clone p there orig keep s =
     bindE (cap_derive there orig (ucast keep) s) (\<lambda>(clone, s).
     bindE (add_handle p clone s) (\<lambda>s. Inr (J6_ok, s)))"

definition handle_close :: "nat \<Rightarrow> u64 \<Rightarrow> cap_state \<Rightarrow> (j6_status \<times> cap_state) res" where
  "handle_close p hnd s = bindE (remove_handle p hnd s) (\<lambda>(_, s). Inr (J6_ok, s))"

definition process_give_handle :: "nat \<Rightarrow> u64 \<Rightarrow> cap_state \<Rightarrow> (j6_status \<times> cap_state) res" where
  "process_give_handle self target s = bindE (add_handle self target s) (\<lambda>s. Inr (J6_ok, s))"

text \<open>
  What processes do with handles: create an object, clone, close and give a handle, and pass a handle to
  any other system call on an object. A clone's entry takes the slot of the original or leaves it alone.
\<close>

datatype cap_op =
    New nat obj_type u32 nat
  | Clone nat u64 u32 bool
  | Close nat u64
  | Give nat u64 u64
  | Use nat "obj_type option" u64 u16

primrec cap_actor :: "cap_op \<Rightarrow> nat" where
  "cap_actor (New p t i a) = p"
| "cap_actor (Clone p h keep slot) = p"
| "cap_actor (Close p h) = p"
| "cap_actor (Give p self h) = p"
| "cap_actor (Use p ty h caps) = p"

definition scalar :: "u64 list \<Rightarrow> (j6_status \<times> cap_state) res \<Rightarrow> (j6_status \<times> u64 list \<times> cap_state) res" where
  "scalar hs r = bindE r (\<lambda>(st, s). Inr (st, hs, s))"

primrec cap_step :: "cap_flags \<Rightarrow> cap_op \<Rightarrow> cap_state \<Rightarrow> cap_state res" where
  "cap_step F (New p t i a) s =
     (if cs_objects s a \<noteq> None then Inr s else bindE (construct_handle F p t i a s) (\<lambda>(_, s). Inr s))"
| "cap_step F (Clone p h keep slot) s =
     bindE (syscall_verify p [\<lparr>hp_type = None, hp_handle = h, hp_caps = cf_clone F, hp_optional = False\<rparr>]
        (\<lambda>_ s. scalar [h] (handle_clone p (if slot then cs_count s + 1 else h) h keep s)) s) (\<lambda>(_, s). Inr s)"
| "cap_step F (Close p h) s =
     bindE (syscall_verify p [\<lparr>hp_type = None, hp_handle = h, hp_caps = 0, hp_optional = False\<rparr>]
        (\<lambda>_ s. scalar [h] (handle_close p h s)) s) (\<lambda>(_, s). Inr s)"
| "cap_step F (Give p self h) s =
     bindE (syscall_verify p [\<lparr>hp_type = Some Process_object, hp_handle = self, hp_caps = 0, hp_optional = False\<rparr>,
          \<lparr>hp_type = None, hp_handle = h, hp_caps = 0, hp_optional = False\<rparr>]
        (\<lambda>obs s. case obs of Some q # _ \<Rightarrow> scalar [self, h] (process_give_handle q h s) | _ \<Rightarrow> Inl Null_deref) s) (\<lambda>(_, s). Inr s)"
| "cap_step F (Use p ty h caps) s =
     bindE (syscall_verify p [\<lparr>hp_type = ty, hp_handle = h, hp_caps = caps, hp_optional = False\<rparr>]
        (\<lambda>obs s. case obs of Some a # _ \<Rightarrow> if cs_objects s a = None then Inl Use_after_free else Inr (J6_ok, [h], s) | _ \<Rightarrow> Inl Null_deref) s)
        (\<lambda>(_, s). Inr s)"

fun cap_run :: "cap_flags \<Rightarrow> cap_op list \<Rightarrow> cap_state \<Rightarrow> cap_state res" where
  "cap_run F [] s = Inr s"
| "cap_run F (x # xs) s = bindE (cap_step F x s) (cap_run F xs)"

section \<open>Invariant\<close>

definition holders_of :: "cap_state \<Rightarrow> u64 \<Rightarrow> nat set" where
  "holders_of s h = {p. h \<in> set (cs_handles s p)}"

definition caps_of :: "cap_state \<Rightarrow> nat \<Rightarrow> u64 set" where
  "caps_of s a = {h. \<exists>c. cs_caps s h = Some c \<and> c_object c = Some a}"

definition cap_ok :: "cap_flags \<Rightarrow> cap_state \<Rightarrow> u64 \<Rightarrow> capability \<Rightarrow> bool" where
  "cap_ok F s h c \<longleftrightarrow> h \<noteq> j6_handle_invalid \<and> c_id c = h \<and> unat h \<le> unat (cs_count s) \<and> c_caps c AND cf_all F (c_type c) = c_caps c \<and>
     (\<exists>a ob. c_object c = Some a \<and> cs_objects s a = Some ob \<and> k_type ob = c_type c)"

definition tab_ok :: "cap_flags \<Rightarrow> cap_state \<Rightarrow> bool" where
  "tab_ok F s \<longleftrightarrow> (\<forall>h c. cs_caps s h = Some c \<longrightarrow> cap_ok F s h c) \<and> finite (dom (cs_caps s)) \<and> cs_size s = card (dom (cs_caps s))"

definition obj_ok :: "cap_state \<Rightarrow> bool" where
  "obj_ok s \<longleftrightarrow> (\<forall>a ob. cs_objects s a = Some ob \<longrightarrow> card (caps_of s a) \<le> unat (k_handle_count ob) \<and> unat (k_handle_count ob) \<le> unat (cs_count s))"

text \<open>\<open>e\<close> counts the references to capabilities that are held by system calls in progress.\<close>

definition hold_ok :: "(u64 \<Rightarrow> nat) \<Rightarrow> nat \<Rightarrow> cap_state \<Rightarrow> bool" where
  "hold_ok e B s \<longleftrightarrow>
     (\<forall>p. distinct (cs_handles s p) \<and> set (cs_handles s p) \<subseteq> dom (cs_caps s)) \<and> finite {p. cs_handles s p \<noteq> []} \<and>
     (\<forall>h c. cs_caps s h = Some c \<longrightarrow> card (holders_of s h) + e h \<le> unat (c_holders c) \<and> unat (c_holders c) \<le> B) \<and>
     (\<forall>h. 0 < e h \<longrightarrow> h \<in> dom (cs_caps s))"

definition cap_inv :: "cap_flags \<Rightarrow> (u64 \<Rightarrow> nat) \<Rightarrow> nat \<Rightarrow> cap_state \<Rightarrow> bool" where
  "cap_inv F e B s \<longleftrightarrow> tab_ok F s \<and> obj_ok s \<and> hold_ok e B s"

text \<open>The rights that the entries of the table carry are those of before.\<close>

definition caps_from :: "cap_state \<Rightarrow> cap_state \<Rightarrow> bool" where
  "caps_from s s' \<longleftrightarrow> (\<forall>h c'. cs_caps s' h = Some c' \<longrightarrow> (\<exists>c. cs_caps s h = Some c \<and> c_object c' = c_object c \<and> c_caps c' = c_caps c \<and> c_type c' = c_type c))"

lemma caps_from_refl [simp]: "caps_from s s"
  by (simp add: caps_from_def)

lemma caps_fromD: "caps_from s s' \<Longrightarrow> cs_caps s' h = Some c' \<Longrightarrow> \<exists>c. cs_caps s h = Some c \<and> c_object c' = c_object c \<and> c_caps c' = c_caps c \<and> c_type c' = c_type c"
  by (simp add: caps_from_def)

lemma caps_from_trans: "caps_from s s' \<Longrightarrow> caps_from s' s'' \<Longrightarrow> caps_from s s''"
  by (fastforce simp: caps_from_def)

lemma cap_invD:
  assumes "cap_inv F e B s"
  shows "tab_ok F s" "obj_ok s" "hold_ok e B s" "cs_caps s h = Some c \<Longrightarrow> cap_ok F s h c"
    "h \<in> set (cs_handles s p) \<Longrightarrow> h \<in> dom (cs_caps s)"
  using assms by (auto simp: cap_inv_def tab_ok_def hold_ok_def)

lemma cap_inv_weaken: "cap_inv F e B s \<Longrightarrow> (\<And>h. e' h \<le> e h) \<Longrightarrow> B \<le> B' \<Longrightarrow> cap_inv F e' B' s"
  unfolding cap_inv_def hold_ok_def
  by (meson add_left_mono le_trans less_le_trans)

lemma cap_find_ok:
  assumes "cap_inv F e B s" "h \<noteq> j6_handle_invalid"
  shows "cap_find h s = Inr (cs_caps s h)"
proof -
  have "cs_size s = card (dom (cs_caps s))" "finite (dom (cs_caps s))" using cap_invD(1) [OF assms(1)] by (simp_all add: tab_ok_def)
  then have "cs_caps s h = None" if "cs_size s = 0" using that by auto
  then show ?thesis using assms(2) by (simp add: cap_find_def)
qed

lemma cap_find_dom: "cap_inv F e B s \<Longrightarrow> cs_caps s h = Some c \<Longrightarrow> cap_find h s = Inr (Some c)"
  using cap_find_ok [of F e B s h] cap_invD(4) [of F e B s h c] by (simp add: cap_ok_def)

text \<open>Changing the count of holders of an entry.\<close>

lemma set_holders:
  assumes inv: "cap_inv F e B s" and c: "cs_caps s h = Some c"
    and n: "card (holders_of s h) + e' h \<le> unat n" "unat n \<le> B'" "\<And>k. k \<noteq> h \<Longrightarrow> e' k = e k" "B \<le> B'"
  defines "s' \<equiv> s\<lparr>cs_caps := (cs_caps s)(h \<mapsto> c\<lparr>c_holders := n\<rparr>)\<rparr>"
  shows "cap_inv F e' B' s'" "caps_from s s'"
proof -
  note I = cap_invD [OF inv]
  have dom: "dom (cs_caps s') = dom (cs_caps s)" using c by (auto simp: s'_def)
  have "cap_ok F s' k d" if "cs_caps s' k = Some d" for k d
  proof (cases "k = h")
    case True
    then show ?thesis using I(4) [OF c] that by (simp add: s'_def cap_ok_def) (auto simp: cap_ok_def)
  next
    case False
    then show ?thesis using I(4) [of k d] that by (simp add: s'_def cap_ok_def)
  qed
  then have "tab_ok F s'" using I(1) dom by (simp add: tab_ok_def) (simp add: s'_def)
  moreover have "caps_of s' = caps_of s" using c by (auto simp: caps_of_def s'_def fun_eq_iff)
  then have "obj_ok s'" using I(2) by (simp add: obj_ok_def) (simp add: s'_def)
  moreover have "card (holders_of s' k) + e' k \<le> unat (c_holders d) \<and> unat (c_holders d) \<le> B'" if "cs_caps s' k = Some d" for k d
  proof (cases "k = h")
    case True
    then show ?thesis using that n(1,2) by (auto simp: s'_def holders_of_def)
  next
    case False
    then have "card (holders_of s k) + e k \<le> unat (c_holders d) \<and> unat (c_holders d) \<le> B" using that I(3) by (simp add: s'_def hold_ok_def)
    then show ?thesis using n(3) [OF False] n(4) by (simp add: s'_def holders_of_def)
  qed
  moreover have "k \<in> dom (cs_caps s')" if "0 < e' k" for k
    using that n(3) [of k] c I(3) unfolding dom by (cases "k = h") (auto simp: hold_ok_def)
  moreover have "distinct (cs_handles s' p) \<and> set (cs_handles s' p) \<subseteq> dom (cs_caps s')" for p
    using I(3) unfolding dom by (simp add: s'_def hold_ok_def)
  moreover have "finite {p. cs_handles s' p \<noteq> []}" using I(3) by (simp add: s'_def hold_ok_def)
  ultimately show "cap_inv F e' B' s'" by (simp add: cap_inv_def hold_ok_def)
  show "caps_from s s'" using c by (auto simp: caps_from_def s'_def)
qed

lemma holdD:
  assumes "cap_inv F e B s" "cs_caps s h = Some c"
  shows "card (holders_of s h) + e h \<le> unat (c_holders c)" "unat (c_holders c) \<le> B"
  using cap_invD(3) [OF assms(1)] assms(2) by (auto simp: hold_ok_def)

lemma cap_retain_ok:
  assumes inv: "cap_inv F e B s" and h: "h \<noteq> j6_handle_invalid" and B: "Suc B < 2 ^ 32"
  obtains (none) "cs_caps s h = None" "cap_retain h s = Inr (None, s)"
  | (some) c s' where "cs_caps s h = Some c" "cap_retain h s = Inr (Some (c\<lparr>c_holders := c_holders c + 1\<rparr>), s')"
      "cap_inv F (e(h := Suc (e h))) (Suc B) s'" "caps_from s s'" "cs_handles s' = cs_handles s" "cs_count s' = cs_count s" "cs_objects s' = cs_objects s"
      "dom (cs_caps s') = dom (cs_caps s)"
proof (cases "cs_caps s h")
  case None
  then show ?thesis using none cap_find_ok [OF inv h] by (simp add: cap_retain_def)
next
  case (Some c)
  let ?s = "s\<lparr>cs_caps := (cs_caps s)(h \<mapsto> c\<lparr>c_holders := c_holders c + 1\<rparr>)\<rparr>"
  note H = holdD [OF inv Some]
  have "unat (c_holders c) < 2 ^ 32 - 1" using H(2) B by simp
  then have u: "unat (c_holders c + 1) = Suc (unat (c_holders c))" by (simp add: unat_word_ariths)
  have "cap_inv F (e(h := Suc (e h))) (Suc B) ?s" "caps_from s ?s"
    using set_holders [OF inv Some, of "e(h := Suc (e h))" "c_holders c + 1" "Suc B"] H unfolding u by simp_all
  moreover have "dom (cs_caps ?s) = dom (cs_caps s)" using Some by auto
  ultimately show ?thesis using some [of c ?s] Some cap_find_ok [OF inv h] by (simp add: cap_retain_def Let_def)
qed

text \<open>Erasing an entry that no one holds, with the reference it has to its object.\<close>

lemma object_count:
  assumes "cap_inv F e B s" "cs_objects s a = Some ob" "h \<in> caps_of s a"
  shows "0 < unat (k_handle_count ob)" "unat (k_handle_count ob - 1) = unat (k_handle_count ob) - 1" "card (caps_of s a - {h}) \<le> unat (k_handle_count ob) - 1"
proof -
  have fin: "finite (caps_of s a)" using cap_invD(1) [OF assms(1)] by (rule_tac finite_subset [of _ "dom (cs_caps s)"]) (auto simp: caps_of_def tab_ok_def)
  have le: "card (caps_of s a) \<le> unat (k_handle_count ob)" using cap_invD(2) [OF assms(1)] assms(2) by (simp add: obj_ok_def)
  moreover have "0 < card (caps_of s a)" using fin assms(3) by (auto simp: card_gt_0_iff)
  ultimately show pos: "0 < unat (k_handle_count ob)" by simp
  then have "1 \<le> k_handle_count ob" by (simp add: word_le_nat_alt)
  then show "unat (k_handle_count ob - 1) = unat (k_handle_count ob) - 1" by (simp add: unat_sub)
  show "card (caps_of s a - {h}) \<le> unat (k_handle_count ob) - 1" using fin assms(3) le by simp
qed

lemma cap_drop:
  assumes inv: "cap_inv F e B s" and c: "cs_caps s h = Some c" and nobody: "holders_of s h = {}" "e h = 0"
  obtains s' where "bindE (object_release (c_object c) s) (\<lambda>s. Inr (cap_erase h s)) = Inr s'" "cap_inv F e B s'" "caps_from s s'"
    "cs_handles s' = cs_handles s" "cs_count s' = cs_count s" "dom (cs_caps s') = dom (cs_caps s) - {h}"
proof -
  note I = cap_invD [OF inv]
  obtain a ob where a: "c_object c = Some a" "cs_objects s a = Some ob" "k_type ob = c_type c" using I(4) [OF c] by (auto simp: cap_ok_def)
  have mem: "h \<in> caps_of s a" using c a by (auto simp: caps_of_def)
  note N = object_count [OF inv a(2) mem]
  let ?ob = "ob\<lparr>k_handle_count := k_handle_count ob - 1\<rparr>"
  define gone where "gone \<longleftrightarrow> k_handle_count ob - 1 = 0 \<and> on_no_handles (k_type ob) (cs_mapped s a)"
  define s' where "s' = cap_erase h (s\<lparr>cs_objects := (cs_objects s)(a := if gone then None else Some ?ob)\<rparr>)"
  have run: "bindE (object_release (c_object c) s) (\<lambda>s. Inr (cap_erase h s)) = Inr s'"
    using a by (simp add: object_release_def handle_release_def Let_def s'_def gone_def)
  have caps: "cs_caps s' = (cs_caps s)(h := None)" "cs_size s' = cs_size s - 1" "cs_handles s' = cs_handles s" "cs_count s' = cs_count s"
    "cs_objects s' = (cs_objects s)(a := if gone then None else Some ?ob)" by (simp_all add: s'_def cap_erase_def)
  have of: "caps_of s' b = caps_of s b - {h}" for b by (auto simp: caps_of_def caps)
  have fin: "finite (dom (cs_caps s))" "cs_size s = card (dom (cs_caps s))" using I(1) by (simp_all add: tab_ok_def)
  have last: "caps_of s' a = {}" if gone
  proof -
    have "unat (k_handle_count ob) - 1 = 0" using that N(2) by (simp add: gone_def)
    then have "card (caps_of s' a) = 0" using N(3) of by simp
    moreover have "finite (caps_of s' a)" by (rule finite_subset [OF _ fin(1)]) (auto simp: caps_of_def caps)
    ultimately show ?thesis by simp
  qed
  have "cap_ok F s' k d" if "cs_caps s' k = Some d" for k d
  proof -
    have kd: "cs_caps s k = Some d" "k \<noteq> h" using that by (auto simp: caps split: if_splits)
    obtain b ob' where b: "c_object d = Some b" "cs_objects s b = Some ob'" "k_type ob' = c_type d" using I(4) [OF kd(1)] by (auto simp: cap_ok_def)
    have "k \<in> caps_of s' b" using that b(1) by (auto simp: caps_of_def)
    then have "\<not> (gone \<and> b = a)" using last by auto
    then have "\<exists>ob'. cs_objects s' b = Some ob' \<and> k_type ob' = c_type d" using b a(2) by (auto simp: caps)
    then show ?thesis using I(4) [OF kd(1)] b(1) by (auto simp: cap_ok_def caps)
  qed
  then have "tab_ok F s'" using fin c by (simp add: tab_ok_def caps domI)
  moreover have "card (caps_of s' b) \<le> unat (k_handle_count ob') \<and> unat (k_handle_count ob') \<le> unat (cs_count s')" if "cs_objects s' b = Some ob'" for b ob'
  proof (cases "b = a")
    case True
    then have "ob' = ?ob" using that by (auto simp: caps split: if_splits)
    moreover have "unat (k_handle_count ob) \<le> unat (cs_count s)" using I(2) a(2) by (simp add: obj_ok_def)
    ultimately show ?thesis using N True of [of a] by (simp add: caps)
  next
    case False
    then have "card (caps_of s b) \<le> unat (k_handle_count ob') \<and> unat (k_handle_count ob') \<le> unat (cs_count s)" using that I(2) by (simp add: obj_ok_def caps)
    then show ?thesis using card_Diff1_le [of "caps_of s b" h] by (simp add: of caps)
  qed
  then have "obj_ok s'" by (simp add: obj_ok_def)
  moreover have "hold_ok e B s'"
  proof -
    have "k \<noteq> h" if "k \<in> set (cs_handles s p)" for k p using nobody(1) that by (auto simp: holders_of_def)
    then show ?thesis using I(3) nobody(2) by (fastforce simp: hold_ok_def caps holders_of_def)
  qed
  ultimately have "cap_inv F e B s'" by (simp add: cap_inv_def)
  moreover have "caps_from s s'" by (auto simp: caps_from_def caps split: if_splits)
  ultimately show ?thesis using that run caps by simp
qed

lemma cap_release_ok:
  assumes inv: "cap_inv F e B s" and h: "0 < e h"
  obtains s' where "cap_release h s = Inr s'" "cap_inv F (e(h := e h - 1)) B s'" "caps_from s s'"
    "cs_handles s' = cs_handles s" "cs_count s' = cs_count s"
proof -
  have "h \<in> dom (cs_caps s)" using cap_invD(3) [OF inv] h by (simp add: hold_ok_def)
  then obtain c where c: "cs_caps s h = Some c" by blast
  note H = holdD [OF inv c]
  let ?c = "c\<lparr>c_holders := c_holders c - 1\<rparr>"
  let ?s = "s\<lparr>cs_caps := (cs_caps s)(h \<mapsto> ?c)\<rparr>" and ?e = "e(h := e h - 1)"
  have "1 \<le> c_holders c" using H(1) h by (simp add: word_le_nat_alt)
  then have u: "unat (c_holders c - 1) = unat (c_holders c) - 1" by (simp add: unat_sub)
  have S: "cap_inv F ?e B ?s" "caps_from s ?s" using set_holders [OF inv c, of ?e "c_holders c - 1" B] H h unfolding u by simp_all
  show ?thesis
  proof (cases "c_holders c - 1 = 0")
    case False
    then show ?thesis using that [of ?s] S cap_find_dom [OF inv c] by (simp add: cap_release_def Let_def)
  next
    case True
    then have "unat (c_holders c) - 1 = 0" using u by simp
    then have "e h - 1 = 0" "card (holders_of s h) = 0" using H(1) h by simp_all
    moreover have "finite (holders_of s h)"
      using cap_invD(3) [OF inv] by (rule_tac finite_subset [of _ "{p. cs_handles s p \<noteq> []}"]) (auto simp: holders_of_def hold_ok_def)
    ultimately have "holders_of ?s h = {}" "?e h = 0" by (simp_all add: holders_of_def)
    then obtain s' where s': "bindE (object_release (c_object ?c) ?s) (\<lambda>s. Inr (cap_erase h s)) = Inr s'"
      "cap_inv F ?e B s'" "caps_from ?s s'" "cs_handles s' = cs_handles ?s" "cs_count s' = cs_count ?s"
      by (rule_tac cap_drop [OF S(1), of h ?c]) simp_all
    then show ?thesis using that [of s'] True caps_from_trans [OF S(2) s'(3)] cap_find_dom [OF inv c] by (simp add: cap_release_def Let_def)
  qed
qed

text \<open>A new entry for a live object.\<close>

definition new_cap :: "cap_flags \<Rightarrow> cap_state \<Rightarrow> capability \<Rightarrow> nat \<Rightarrow> kobject \<Rightarrow> bool" where
  "new_cap F s c a ob \<longleftrightarrow> c_id c = cs_count s + 1 \<and> c_holders c = 0 \<and> c_object c = Some a \<and> cs_objects s a = Some ob \<and> k_type ob = c_type c \<and>
     c_caps c AND cf_all F (c_type c) = c_caps c"

lemma cap_insert_ok:
  assumes inv: "cap_inv F e B s" and c: "new_cap F s c a ob" and count: "unat (cs_count s) < 2 ^ 16 - 1"
  defines "s' \<equiv> (cap_insert c (s\<lparr>cs_count := cs_count s + 1\<rparr>))\<lparr>cs_objects := (cs_objects s)(a \<mapsto> handle_retain ob)\<rparr>"
  shows "cap_inv F e B s'" "cs_caps s (c_id c) = None" "\<And>p. c_id c \<notin> set (cs_handles s p)" "c_id c \<noteq> j6_handle_invalid"
proof -
  note I = cap_invD [OF inv]
  let ?h = "cs_count s + 1"
  from c have c': "c_id c = ?h" "c_holders c = 0" "c_object c = Some a" "cs_objects s a = Some ob" "k_type ob = c_type c" "c_caps c AND cf_all F (c_type c) = c_caps c"
    by (simp_all add: new_cap_def)
  have u: "unat ?h = Suc (unat (cs_count s))" using count by (simp add: unat_word_ariths)
  then show nz: "c_id c \<noteq> j6_handle_invalid" using c'(1) by (auto simp: j6_handle_invalid_def)
  show fresh: "cs_caps s (c_id c) = None"
  proof (cases "cs_caps s (c_id c)")
    case (Some d)
    then show ?thesis using I(4) [OF Some] u c'(1) by (simp add: cap_ok_def)
  qed simp
  then show nobody: "\<And>p. c_id c \<notin> set (cs_handles s p)" using I(5) by fastforce
  have f: "cs_caps s' = (cs_caps s)(?h \<mapsto> c)" "cs_size s' = cs_size s + 1" "cs_handles s' = cs_handles s" "cs_count s' = ?h"
    "cs_objects s' = (cs_objects s)(a \<mapsto> handle_retain ob)" by (simp_all add: s'_def cap_insert_def c'(1))
  have "cap_ok F s' k d" if "cs_caps s' k = Some d" for k d
  proof (cases "k = ?h")
    case True
    then show ?thesis using that c' nz by (auto simp: cap_ok_def f handle_retain_def)
  next
    case False
    then have "cap_ok F s k d" using that I(4) by (simp add: f)
    then show ?thesis using u c'(4) by (auto simp: cap_ok_def f handle_retain_def)
  qed
  then have "tab_ok F s'" using I(1) fresh c'(1) by (simp add: tab_ok_def f domIff)
  moreover have "card (caps_of s' b) \<le> unat (k_handle_count ob') \<and> unat (k_handle_count ob') \<le> unat (cs_count s')" if "cs_objects s' b = Some ob'" for b ob'
  proof (cases "b = a")
    case True
    have le: "card (caps_of s a) \<le> unat (k_handle_count ob)" "unat (k_handle_count ob) \<le> unat (cs_count s)" using I(2) c'(4) by (auto simp: obj_ok_def)
    have "caps_of s' a = insert ?h (caps_of s a)" using c' by (auto simp: caps_of_def f)
    then have "card (caps_of s' a) \<le> Suc (card (caps_of s a))" by (simp add: card_insert_le_m1)
    moreover have "unat (k_handle_count ob + 1) = Suc (unat (k_handle_count ob))" using le(2) count by (simp add: unat_word_ariths)
    moreover have "k_handle_count ob' = k_handle_count ob + 1" using that True by (auto simp: f handle_retain_def)
    ultimately show ?thesis using le u True by (simp add: f)
  next
    case False
    then have "caps_of s' b = caps_of s b" using fresh c' by (auto simp: caps_of_def f)
    moreover have "card (caps_of s b) \<le> unat (k_handle_count ob') \<and> unat (k_handle_count ob') \<le> unat (cs_count s)" using that False I(2) by (auto simp: obj_ok_def f)
    ultimately show ?thesis using u by (simp add: f)
  qed
  then have "obj_ok s'" by (simp add: obj_ok_def)
  moreover have "hold_ok e B s'"
  proof -
    have "holders_of s ?h = {}" using nobody c'(1) by (simp add: holders_of_def)
    moreover have "e ?h = 0" using I(3) fresh c'(1) by (force simp: hold_ok_def)
    ultimately show ?thesis using I(3) c'(2) by (auto simp: hold_ok_def f holders_of_def)
  qed
  ultimately show "cap_inv F e B s'" by (simp add: cap_inv_def)
qed

text \<open>Changing the handles of a process.\<close>

lemma set_handles:
  assumes inv: "cap_inv F e B s" and l: "distinct l" "set l \<subseteq> dom (cs_caps s)"
    and e': "\<And>h. card (holders_of (s\<lparr>cs_handles := (cs_handles s)(p := l)\<rparr>) h) + e' h \<le> card (holders_of s h) + e h" "\<And>h. 0 < e' h \<Longrightarrow> h \<in> dom (cs_caps s)"
  shows "cap_inv F e' B (s\<lparr>cs_handles := (cs_handles s)(p := l)\<rparr>)"
proof -
  let ?s = "s\<lparr>cs_handles := (cs_handles s)(p := l)\<rparr>"
  note I = cap_invD [OF inv]
  have "tab_ok F ?s" "obj_ok ?s" using I(1,2) by (simp_all add: tab_ok_def cap_ok_def obj_ok_def caps_of_def)
  moreover have "{q. cs_handles ?s q \<noteq> []} \<subseteq> insert p {q. cs_handles s q \<noteq> []}" by auto
  moreover have "finite {q. cs_handles s q \<noteq> []}" using I(3) by (simp add: hold_ok_def)
  ultimately have "tab_ok F ?s" "obj_ok ?s" "finite {q. cs_handles ?s q \<noteq> []}" by (simp_all add: finite_subset)
  moreover have "card (holders_of ?s h) + e' h \<le> unat (c_holders c) \<and> unat (c_holders c) \<le> B" if "cs_caps ?s h = Some c" for h c
    using e'(1) [of h] holdD [OF inv, of h c] that by simp
  ultimately show ?thesis using I(3) l e'(2) by (simp add: cap_inv_def hold_ok_def)
qed

lemma holders_finite: "cap_inv F e B s \<Longrightarrow> finite (holders_of s h)"
  using cap_invD(3) [of F e B s] by (rule_tac finite_subset [of _ "{p. cs_handles s p \<noteq> []}"]) (auto simp: holders_of_def hold_ok_def)

lemma handles_append:
  assumes inv: "cap_inv F e B s" and h: "0 < e h" "h \<notin> set (cs_handles s p)"
  shows "cap_inv F (e(h := e h - 1)) B (s\<lparr>cs_handles := (cs_handles s)(p := cs_handles s p @ [h])\<rparr>)"
proof (rule set_handles [OF inv])
  note I = cap_invD [OF inv]
  show "distinct (cs_handles s p @ [h])" "set (cs_handles s p @ [h]) \<subseteq> dom (cs_caps s)" using I(3) h by (auto simp: hold_ok_def)
  show "0 < (e(h := e h - 1)) k \<Longrightarrow> k \<in> dom (cs_caps s)" for k using I(3) h(1) by (simp add: hold_ok_def split: if_splits)
  fix k
  let ?s = "s\<lparr>cs_handles := (cs_handles s)(p := cs_handles s p @ [h])\<rparr>"
  have "holders_of ?s k = (if k = h then insert p (holders_of s h) else holders_of s k)" by (auto simp: holders_of_def)
  moreover have "card (insert p (holders_of s h)) = Suc (card (holders_of s h))" using h(2) holders_finite [OF inv] by (simp add: holders_of_def)
  ultimately show "card (holders_of ?s k) + (e(h := e h - 1)) k \<le> card (holders_of s k) + e k" using h(1) by simp
qed

lemma handles_remove:
  assumes inv: "cap_inv F e B s" and h: "h \<in> set (cs_handles s p)"
  shows "cap_inv F (e(h := Suc (e h))) B (s\<lparr>cs_handles := (cs_handles s)(p := remove1 h (cs_handles s p))\<rparr>)"
proof (rule set_handles [OF inv])
  note I = cap_invD [OF inv]
  have d: "distinct (cs_handles s p)" "set (cs_handles s p) \<subseteq> dom (cs_caps s)" using I(3) by (simp_all add: hold_ok_def)
  then show "distinct (remove1 h (cs_handles s p))" "set (remove1 h (cs_handles s p)) \<subseteq> dom (cs_caps s)" by auto
  show "0 < (e(h := Suc (e h))) k \<Longrightarrow> k \<in> dom (cs_caps s)" for k using I(3) d h by (auto simp: hold_ok_def split: if_splits)
  fix k
  let ?s = "s\<lparr>cs_handles := (cs_handles s)(p := remove1 h (cs_handles s p))\<rparr>"
  have "holders_of ?s k = (if k = h then holders_of s h - {p} else holders_of s k)" using d(1) by (auto simp: holders_of_def)
  moreover have "Suc (card (holders_of s h - {p})) = card (holders_of s h)"
    using h holders_finite [OF inv] by (intro card_Suc_Diff1) (simp_all add: holders_of_def)
  ultimately show "card (holders_of ?s k) + (e(h := Suc (e h))) k \<le> card (holders_of s k) + e k" by simp
qed

lemma caps_from_handles [simp]: "caps_from s (s'\<lparr>cs_handles := f\<rparr>) = caps_from s s'"
  by (simp add: caps_from_def)

lemma add_handle_ok:
  assumes inv: "cap_inv F e B s" and h: "cs_caps s h = Some c" and B: "Suc B < 2 ^ 32"
  obtains s' where "add_handle p h s = Inr s'" "cap_inv F e (Suc B) s'" "caps_from s s'" "cs_count s' = cs_count s" "dom (cs_caps s') = dom (cs_caps s)"
    "\<And>q. set (cs_handles s' q) = set (cs_handles s q) \<union> (if q = p then {h} else {})"
proof -
  have nz: "h \<noteq> j6_handle_invalid" using cap_invD(4) [OF inv h] by (simp add: cap_ok_def)
  show ?thesis
  proof (cases rule: cap_retain_ok [OF inv nz B])
    case 1
    then show ?thesis using h by simp
  next
    case (2 c' s1)
    show ?thesis
    proof (cases "h \<in> set (cs_handles s p)")
      case True
      have "cap_inv F e (Suc B) s1" by (rule cap_inv_weaken [OF 2(3)]) simp_all
      moreover have "add_handle p h s = Inr s1" using 2 nz True by (simp add: add_handle_def)
      moreover have "set (cs_handles s1 q) = set (cs_handles s q) \<union> (if q = p then {h} else {})" for q using 2(5) True by auto
      ultimately show ?thesis using that [of s1] 2 by blast
    next
      case False
      let ?s = "s1\<lparr>cs_handles := (cs_handles s1)(p := cs_handles s1 p @ [h])\<rparr>"
      have "cap_inv F ((e(h := Suc (e h)))(h := (e(h := Suc (e h))) h - 1)) (Suc B) ?s" by (rule handles_append [OF 2(3)]) (use 2 False in simp_all)
      then have "cap_inv F e (Suc B) ?s" by simp
      moreover have "add_handle p h s = Inr ?s" using 2 nz False by (simp add: add_handle_def)
      moreover have "set (cs_handles ?s q) = set (cs_handles s q) \<union> (if q = p then {h} else {})" for q using 2(5) by auto
      moreover have "caps_from s ?s" "cs_count ?s = cs_count s" "dom (cs_caps ?s) = dom (cs_caps s)" using 2 by simp_all
      ultimately show ?thesis using that [of ?s] by blast
    qed
  qed
qed

lemma remove_handle_ok:
  assumes inv: "cap_inv F e B s" and h: "h \<in> set (cs_handles s p)"
  obtains s' where "remove_handle p h s = Inr (True, s')" "cap_inv F e B s'" "caps_from s s'" "cs_count s' = cs_count s"
    "cs_handles s' = (cs_handles s)(p := remove1 h (cs_handles s p))"
proof -
  let ?s = "s\<lparr>cs_handles := (cs_handles s)(p := remove1 h (cs_handles s p))\<rparr>"
  obtain s' where s': "cap_release h ?s = Inr s'" "cap_inv F ((e(h := Suc (e h)))(h := (e(h := Suc (e h))) h - 1)) B s'" "caps_from ?s s'"
    "cs_handles s' = cs_handles ?s" "cs_count s' = cs_count ?s" by (rule cap_release_ok [OF handles_remove [OF inv h], of h]) simp_all
  have "caps_from s s'" using s'(3) by (simp add: caps_from_def)
  then show ?thesis using that [of s'] s' h by (simp add: remove_handle_def)
qed

section \<open>System calls keep the invariant\<close>

text \<open>What a step that changes no handles leaves as it was.\<close>

definition same_handles :: "cap_state \<Rightarrow> cap_state \<Rightarrow> bool" where
  "same_handles s s' \<longleftrightarrow> caps_from s s' \<and> cs_handles s' = cs_handles s \<and> cs_count s' = cs_count s"

lemma get_handle_ok:
  assumes inv: "cap_inv F e B s" and B: "Suc B < 2 ^ 32"
  obtains (bad) st s' where "get_handle p ty h caps False s = Inr (st, None, s')" "st \<noteq> J6_ok" "cap_inv F e (Suc B) s'" "same_handles s s'"
  | (good) c a s' where "get_handle p ty h caps False s = Inr (J6_ok, Some a, s')" "cs_caps s h = Some c" "c_object c = Some a" "h \<in> set (cs_handles s p)"
      "cap_inv F (e(h := Suc (e h))) (Suc B) s'" "same_handles s s'" "dom (cs_caps s') = dom (cs_caps s)" "cs_objects s' = cs_objects s"
proof (cases "h = j6_handle_invalid")
  case True
  have "cap_inv F e (Suc B) s" by (rule cap_inv_weaken [OF inv]) simp_all
  then show ?thesis using bad True by (simp add: get_handle_def same_handles_def)
next
  case False
  show ?thesis
  proof (cases rule: cap_retain_ok [OF inv False B])
    case 1
    have "cap_inv F e (Suc B) s" by (rule cap_inv_weaken [OF inv]) simp_all
    then show ?thesis using bad 1 False by (simp add: get_handle_def same_handles_def)
  next
    case (2 c s')
    have weak: "cap_inv F e (Suc B) s'" by (rule cap_inv_weaken [OF 2(3)]) simp_all
    obtain a where a: "c_object c = Some a" using cap_invD(4) [OF inv 2(1)] by (auto simp: cap_ok_def)
    consider "ty \<noteq> None \<and> ty \<noteq> Some (c_type c)" | "\<not> (ty \<noteq> None \<and> ty \<noteq> Some (c_type c))" "\<not> has_handle p h s' \<or> c_caps c AND caps \<noteq> caps"
      | "\<not> (ty \<noteq> None \<and> ty \<noteq> Some (c_type c))" "has_handle p h s'" "c_caps c AND caps = caps" by blast
    then show ?thesis
    proof cases
      case 1
      then show ?thesis using bad [of Err_invalid_arg s'] 2 False weak by (simp add: get_handle_def same_handles_def)
    next
      case prems: 2
      then show ?thesis using bad [of Err_denied s'] 2 False weak by (auto simp: get_handle_def same_handles_def)
    next
      case 3
      have "get_handle p ty h caps False s = Inr (J6_ok, Some a, s')" using 2 3 False a by (simp add: get_handle_def)
      moreover have "h \<in> set (cs_handles s p)" using 3(2) 2(5) by (simp add: has_handle_def)
      ultimately show ?thesis using good a 2 by (simp add: same_handles_def)
    qed
  qed
qed

section \<open>Rights\<close>

definition has_right :: "cap_state \<Rightarrow> nat \<Rightarrow> nat \<Rightarrow> nat \<Rightarrow> bool" where
  "has_right s p a r \<longleftrightarrow> (\<exists>h c. h \<in> set (cs_handles s p) \<and> cs_caps s h = Some c \<and> c_object c = Some a \<and> bit (c_caps c) r)"

text \<open>A step by \<open>q\<close> gives a process no right but those of \<open>q\<close> and those on a new object.\<close>

definition confined :: "nat \<Rightarrow> cap_state \<Rightarrow> cap_state \<Rightarrow> bool" where
  "confined q s s' \<longleftrightarrow> (\<forall>p a r. has_right s' p a r \<longrightarrow> has_right s p a r \<or> has_right s q a r \<or> cs_objects s a = None)"

lemma has_right_from:
  assumes "caps_from s s'" "set (cs_handles s' p) \<subseteq> set (cs_handles s p)" "has_right s' p a r"
  shows "has_right s p a r"
  using assms by (fastforce simp: has_right_def caps_from_def)

lemma confined_from: "caps_from s s' \<Longrightarrow> (\<And>p. set (cs_handles s' p) \<subseteq> set (cs_handles s p)) \<Longrightarrow> confined q s s'"
  using has_right_from by (simp add: confined_def)

lemma has_right_cap: "h \<in> set (cs_handles s p) \<Longrightarrow> cs_caps s h = Some c \<Longrightarrow> c_object c = Some a \<Longrightarrow> bit (c_caps c) r \<Longrightarrow> has_right s p a r"
  by (auto simp: has_right_def)

lemma confined_give:
  assumes "caps_from s s'" "h \<in> set (cs_handles s p)" "\<And>r. set (cs_handles s' r) \<subseteq> insert h (set (cs_handles s r))"
  shows "confined p s s'"
  unfolding confined_def
proof (intro allI impI)
  fix r b n
  assume "has_right s' r b n"
  then obtain k c' where k: "k \<in> set (cs_handles s' r)" "cs_caps s' k = Some c'" "c_object c' = Some b" "bit (c_caps c') n" by (auto simp: has_right_def)
  obtain c where c: "cs_caps s k = Some c" "c_object c' = c_object c" "c_caps c' = c_caps c" using assms(1) k(2) by (auto simp: caps_from_def)
  have "k \<in> set (cs_handles s r) \<or> k \<in> set (cs_handles s p)" using k(1) assms(2,3) by blast
  then show "has_right s r b n \<or> has_right s p b n \<or> cs_objects s b = None" using k(3,4) c has_right_cap [of k s] by auto
qed

text \<open>What every step does.\<close>

definition step_ok :: "cap_flags \<Rightarrow> nat \<Rightarrow> nat \<Rightarrow> cap_state \<Rightarrow> cap_state \<Rightarrow> bool" where
  "step_ok F q B s s' \<longleftrightarrow> cap_inv F (\<lambda>_. 0) (B + 3) s' \<and> unat (cs_count s') \<le> Suc (unat (cs_count s)) \<and> confined q s s'"

lemma step_okI:
  assumes "cap_inv F (\<lambda>_. 0) B' s'" "B' \<le> B + 3" "unat (cs_count s') \<le> Suc (unat (cs_count s))" "confined q s s'"
  shows "step_ok F q B s s'"
  using assms cap_inv_weaken [OF assms(1), of "\<lambda>_. 0" "B + 3"] by (simp add: step_ok_def)

lemma use_ok:
  assumes inv: "cap_inv F (\<lambda>_. 0) B s" and B: "B + 3 < 2 ^ 32"
  shows "\<exists>s'. cap_step F (Use p ty h caps) s = Inr s' \<and> step_ok F p B s s'"
proof -
  from B have B': "Suc B < 2 ^ 32" by simp
  show ?thesis
  proof (cases rule: get_handle_ok [OF inv B', of p ty h caps])
    case (1 st s')
    then have "step_ok F p B s s'" by (intro step_okI [of _ "Suc B"] confined_from) (simp_all add: same_handles_def)
    then show ?thesis using 1 by (simp add: syscall_verify_def)
  next
    case (2 c a s1)
    obtain s' where s': "cap_release h s1 = Inr s'" "cap_inv F (((\<lambda>_. 0)(h := Suc 0))(h := ((\<lambda>_. 0)(h := Suc 0)) h - 1)) (Suc B) s'" "caps_from s1 s'"
      "cs_handles s' = cs_handles s1" "cs_count s' = cs_count s1" by (rule cap_release_ok [OF 2(5), of h]) simp_all
    then have inv': "cap_inv F (\<lambda>_. 0) (Suc B) s'" by (simp add: fun_upd_idem)
    have "caps_from s s'" using 2(6) s'(3) caps_from_trans by (auto simp: same_handles_def)
    then have "step_ok F p B s s'" using inv' 2(6) s'(4,5) by (intro step_okI [of _ "Suc B"] confined_from) (simp_all add: same_handles_def)
    moreover have "cs_objects s a \<noteq> None" using cap_invD(4) [OF inv 2(2)] 2(3) by (auto simp: cap_ok_def)
    ultimately show ?thesis using 2(1,8) s'(1) by (simp add: syscall_verify_def)
  qed
qed

text \<open>The release at the end of a system call on one handle.\<close>

lemma release_last:
  assumes "cap_inv F ((\<lambda>_. 0)(h := Suc 0)) B s"
  obtains s' where "cap_release h s = Inr s'" "cap_inv F (\<lambda>_. 0) B s'" "caps_from s s'" "cs_handles s' = cs_handles s" "cs_count s' = cs_count s"
proof -
  obtain s' where s': "cap_release h s = Inr s'" "cap_inv F (((\<lambda>_. 0)(h := Suc 0))(h := ((\<lambda>_. 0)(h := Suc 0)) h - 1)) B s'" "caps_from s s'"
    "cs_handles s' = cs_handles s" "cs_count s' = cs_count s" by (rule cap_release_ok [OF assms, of h]) simp_all
  then show ?thesis using that by (simp add: fun_upd_idem)
qed

lemma close_ok:
  assumes inv: "cap_inv F (\<lambda>_. 0) B s" and B: "B + 3 < 2 ^ 32"
  shows "\<exists>s'. cap_step F (Close p h) s = Inr s' \<and> step_ok F p B s s'"
proof -
  from B have B': "Suc B < 2 ^ 32" by simp
  show ?thesis
  proof (cases rule: get_handle_ok [OF inv B', of p None h 0])
    case (1 st s')
    then have "step_ok F p B s s'" by (intro step_okI [of _ "Suc B"] confined_from) (simp_all add: same_handles_def)
    then show ?thesis using 1 by (simp add: syscall_verify_def)
  next
    case (2 c a s1)
    have "h \<in> set (cs_handles s1 p)" using 2(4,6) by (simp add: same_handles_def)
    then obtain s2 where s2: "remove_handle p h s1 = Inr (True, s2)" "cap_inv F ((\<lambda>_. 0)(h := Suc 0)) (Suc B) s2" "caps_from s1 s2" "cs_count s2 = cs_count s1"
      "cs_handles s2 = (cs_handles s1)(p := remove1 h (cs_handles s1 p))" by (rule remove_handle_ok [OF 2(5)])
    obtain s' where s': "cap_release h s2 = Inr s'" "cap_inv F (\<lambda>_. 0) (Suc B) s'" "caps_from s2 s'" "cs_handles s' = cs_handles s2" "cs_count s' = cs_count s2"
      by (rule release_last [OF s2(2)])
    have "caps_from s s'" using 2(6) caps_from_trans [OF s2(3) s'(3)] caps_from_trans [of s s1 s'] by (simp add: same_handles_def)
    moreover have "set (cs_handles s' q) \<subseteq> set (cs_handles s q)" for q using s'(4) s2(5) 2(6) set_remove1_subset [of h "cs_handles s p"] by (simp add: same_handles_def)
    ultimately have "step_ok F p B s s'" using s'(2,5) s2(4) 2(6) by (intro step_okI [of _ "Suc B"] confined_from) (simp_all add: same_handles_def)
    then show ?thesis using 2(1) s2(1) s'(1) by (simp add: syscall_verify_def scalar_def handle_close_def)
  qed
qed

lemma give_ok:
  assumes inv: "cap_inv F (\<lambda>_. 0) B s" and B: "B + 3 < 2 ^ 32"
  shows "\<exists>s'. cap_step F (Give p self h) s = Inr s' \<and> step_ok F p B s s'"
proof -
  from B have B': "Suc B < 2 ^ 32" "Suc (Suc B) < 2 ^ 32" "Suc (Suc (Suc B)) < 2 ^ 32" by simp_all
  show ?thesis
  proof (cases rule: get_handle_ok [OF inv B'(1), of p "Some Process_object" self 0])
    case (1 st s')
    then have "step_ok F p B s s'" by (intro step_okI [of _ "Suc B"] confined_from) (simp_all add: same_handles_def)
    then show ?thesis using 1 by (simp add: syscall_verify_def)
  next
    case (2 c q s1)
    let ?e1 = "(\<lambda>_. 0)(self := Suc 0)"
    show ?thesis
    proof (cases rule: get_handle_ok [OF 2(5) B'(2), of p None h 0])
      case (1 st s')
      have "cap_inv F (\<lambda>_. 0) (Suc (Suc B)) s'" by (rule cap_inv_weaken [OF 1(3)]) simp_all
      moreover have "caps_from s s'" using 2(6) 1(4) caps_from_trans by (auto simp: same_handles_def)
      ultimately have "step_ok F p B s s'" using 2(6) 1(4) by (intro step_okI [of _ "Suc (Suc B)"] confined_from) (simp_all add: same_handles_def)
      then show ?thesis using 2(1) 1(1,2) by (simp add: syscall_verify_def)
    next
      case h: (2 d a s2)
      let ?e2 = "?e1(h := Suc (?e1 h))"
      have "h \<in> dom (cs_caps s2)" using h(2,7) by auto
      then obtain d' where d': "cs_caps s2 h = Some d'" by blast
      obtain s3 where s3: "add_handle q h s2 = Inr s3" "cap_inv F ?e2 (Suc (Suc (Suc B))) s3" "caps_from s2 s3" "cs_count s3 = cs_count s2" "dom (cs_caps s3) = dom (cs_caps s2)"
        "\<And>r. set (cs_handles s3 r) = set (cs_handles s2 r) \<union> (if r = q then {h} else {})" by (rule add_handle_ok [OF h(5) d' B'(3), of q]) blast
      obtain s4 where s4: "cap_release self s3 = Inr s4" "cap_inv F (?e2(self := ?e2 self - 1)) (Suc (Suc (Suc B))) s4" "caps_from s3 s4"
        "cs_handles s4 = cs_handles s3" "cs_count s4 = cs_count s3" by (rule cap_release_ok [OF s3(2), of self]) simp_all
      have "?e2(self := ?e2 self - 1) = (\<lambda>_. 0)(h := Suc 0)" by (auto simp: fun_eq_iff)
      then obtain s' where s': "cap_release h s4 = Inr s'" "cap_inv F (\<lambda>_. 0) (Suc (Suc (Suc B))) s'" "caps_from s4 s'" "cs_handles s' = cs_handles s4" "cs_count s' = cs_count s4"
        using s4(2) by (rule_tac release_last [of F h "Suc (Suc (Suc B))" s4]) simp_all
      have cf: "caps_from s s'"
        using 2(6) h(6) s3(3) s4(3) s'(3) unfolding same_handles_def by (meson caps_from_trans)
      have hs: "set (cs_handles s' r) = set (cs_handles s r) \<union> (if r = q then {h} else {})" for r
        using s'(4) s4(4) s3(6) h(6) 2(6) by (simp add: same_handles_def)
      have mine: "h \<in> set (cs_handles s p)" using h(4) 2(6) by (simp add: same_handles_def)
      have "confined p s s'" using hs by (intro confined_give [OF cf mine]) auto
      then have "step_ok F p B s s'" using s' s4(5) s3(4) h(6) 2(6) by (intro step_okI [of _ "Suc (Suc (Suc B))"]) (simp_all add: same_handles_def)
      then show ?thesis using 2(1) h(1) s3(1) s4(1) s'(1) by (simp add: syscall_verify_def scalar_def process_give_handle_def)
    qed
  qed
qed

text \<open>A new entry of the table that only the acting process gets.\<close>

lemma confined_new:
  assumes h: "\<And>q. h \<notin> set (cs_handles s q)" "\<And>c a r. cs_caps s' h = Some c \<Longrightarrow> c_object c = Some a \<Longrightarrow> bit (c_caps c) r \<Longrightarrow> has_right s p a r \<or> cs_objects s a = None"
    and old: "\<And>k c'. k \<noteq> h \<Longrightarrow> cs_caps s' k = Some c' \<Longrightarrow> \<exists>c. cs_caps s k = Some c \<and> c_object c' = c_object c \<and> c_caps c' = c_caps c"
    and hs: "\<And>q. set (cs_handles s' q) \<subseteq> set (cs_handles s q) \<union> (if q = p then {h} else {})"
  shows "confined p s s'"
  unfolding confined_def
proof (intro allI impI)
  fix q a r
  assume "has_right s' q a r"
  then obtain k c' where k: "k \<in> set (cs_handles s' q)" "cs_caps s' k = Some c'" "c_object c' = Some a" "bit (c_caps c') r" by (auto simp: has_right_def)
  show "has_right s q a r \<or> has_right s p a r \<or> cs_objects s a = None"
  proof (cases "k = h")
    case True
    show ?thesis using h(2) [OF k(2) [unfolded True] k(3,4)] by blast
  next
    case False
    obtain c where c: "cs_caps s k = Some c" "c_object c' = c_object c" "c_caps c' = c_caps c" using old [OF False k(2)] by blast
    moreover have "k \<in> set (cs_handles s q)" using k(1) hs [of q] False by (auto split: if_splits)
    ultimately show ?thesis using has_right_cap [of k s q c a r] k(3,4) by auto
  qed
qed

lemma new_ok:
  assumes inv: "cap_inv F (\<lambda>_. 0) B s" and B: "B + 3 < 2 ^ 32" and count: "unat (cs_count s) < 2 ^ 16 - 1"
  shows "\<exists>s'. cap_step F (New p t i a) s = Inr s' \<and> step_ok F p B s s'"
proof (cases "cs_objects s a")
  case (Some ob)
  have "step_ok F p B s s" using inv by (intro step_okI [of _ B] confined_from) simp_all
  then show ?thesis using Some by simp
next
  case None
  let ?ob = "\<lparr>k_handle_count = 0, k_type = t, k_obj_id = i\<rparr>"
  let ?h = "cs_count s + 1"
  let ?c = "\<lparr>c_id = ?h, c_parent = j6_handle_invalid, c_holders = 0, c_caps = cf_all F t, c_type = t, c_object = Some a\<rparr>"
  define s0 where "s0 = s\<lparr>cs_objects := (cs_objects s)(a \<mapsto> ?ob)\<rparr>"
  have none: "caps_of s a = {}" using cap_invD(4) [OF inv] None by (fastforce simp: caps_of_def cap_ok_def)
  have "tab_ok F s0" using cap_invD(1) [OF inv] None by (fastforce simp: tab_ok_def cap_ok_def s0_def)
  moreover have "obj_ok s0" using cap_invD(2) [OF inv] none by (auto simp: obj_ok_def s0_def caps_of_def)
  moreover have "hold_ok (\<lambda>_. 0) B s0" using cap_invD(3) [OF inv] by (simp add: hold_ok_def s0_def holders_of_def)
  ultimately have inv0: "cap_inv F (\<lambda>_. 0) B s0" by (simp add: cap_inv_def)
  have nc: "new_cap F s0 ?c a ?ob" by (simp add: new_cap_def s0_def)
  define s1 where "s1 = (cap_insert ?c (s0\<lparr>cs_count := cs_count s0 + 1\<rparr>))\<lparr>cs_objects := (cs_objects s0)(a \<mapsto> handle_retain ?ob)\<rparr>"
  have "unat (cs_count s0) < 2 ^ 16 - 1" using count by (simp add: s0_def)
  from cap_insert_ok [OF inv0 nc this, folded s1_def] have ins: "cap_inv F (\<lambda>_. 0) B s1" "cs_caps s0 ?h = None" "\<And>q. ?h \<notin> set (cs_handles s0 q)" "?h \<noteq> j6_handle_invalid" by simp_all
  have s1: "cs_caps s1 = (cs_caps s)(?h \<mapsto> ?c)" "cs_handles s1 = cs_handles s" "cs_count s1 = ?h" by (simp_all add: s1_def s0_def cap_insert_def)
  have create: "cap_create (Some a) (cf_all F t) s0 = Inr (?h, s1)"
    by (simp add: cap_create_def make_handle_def Let_def object_retain_def s1_def s0_def cap_insert_def)
  have "Suc B < 2 ^ 32" using B by simp
  then obtain s' where s': "add_handle p ?h s1 = Inr s'" "cap_inv F (\<lambda>_. 0) (Suc B) s'" "caps_from s1 s'" "cs_count s' = cs_count s1" "dom (cs_caps s') = dom (cs_caps s1)"
    "\<And>q. set (cs_handles s' q) = set (cs_handles s1 q) \<union> (if q = p then {?h} else {})"
    using s1(1) by (rule_tac add_handle_ok [OF ins(1), of ?h ?c p]) auto
  have "unat ?h = Suc (unat (cs_count s))" using count by (simp add: unat_word_ariths)
  moreover have "confined p s s'"
  proof (rule confined_new [of ?h])
    show "\<And>q. ?h \<notin> set (cs_handles s q)" using ins(3) by (simp add: s0_def)
    show "has_right s p b r \<or> cs_objects s b = None" if "cs_caps s' ?h = Some c" "c_object c = Some b" for c b r
      using caps_fromD [OF s'(3) that(1)] that(2) s1(1) None by auto
    show "\<exists>c. cs_caps s k = Some c \<and> c_object c' = c_object c \<and> c_caps c' = c_caps c" if "k \<noteq> ?h" "cs_caps s' k = Some c'" for k c'
      using caps_fromD [OF s'(3) that(2)] that(1) s1(1) by auto
  qed (use s'(6) s1(2) in simp)
  ultimately have "step_ok F p B s s'" using s'(2,4) s1(3) by (intro step_okI [of _ "Suc B"]) simp_all
  then show ?thesis using None create s'(1) by (simp add: construct_handle_def flip: s0_def)
qed

lemma cap_derive_ok:
  assumes inv: "cap_inv F e B s" and c: "cs_caps s h = Some c" and count: "unat (cs_count s) < 2 ^ 16 - 1" and there: "there = h \<or> there = cs_count s + 1"
  obtains s' d where "cap_derive there h keep s = Inr (cs_count s + 1, s')" "cap_inv F e B s'" "cs_caps s' = (cs_caps s)(cs_count s + 1 \<mapsto> d)"
    "c_object d = c_object c" "c_caps d = keep AND c_caps c" "cs_handles s' = cs_handles s" "cs_count s' = cs_count s + 1" "\<And>q. cs_count s + 1 \<notin> set (cs_handles s q)"
proof -
  let ?h = "cs_count s + 1"
  let ?d = "\<lparr>c_id = ?h, c_parent = h, c_holders = 0, c_caps = keep AND c_caps c, c_type = c_type c, c_object = c_object c\<rparr>"
  have ok: "cap_ok F s h c" using cap_invD(4) [OF inv c] .
  then obtain a ob where a: "c_object c = Some a" "cs_objects s a = Some ob" "k_type ob = c_type c" by (auto simp: cap_ok_def)
  have "(keep AND c_caps c) AND cf_all F (c_type c) = keep AND c_caps c" using ok by (simp add: cap_ok_def and.assoc)
  then have nc: "new_cap F s ?d a ob" using a by (simp add: new_cap_def)
  define s' where "s' = (cap_insert ?d (s\<lparr>cs_count := ?h\<rparr>))\<lparr>cs_objects := (cs_objects s)(a \<mapsto> handle_retain ob)\<rparr>"
  note ins = cap_insert_ok [OF inv nc count, simplified, folded s'_def [simplified]]
  have f: "cs_caps s' = (cs_caps s)(?h \<mapsto> ?d)" "cs_handles s' = cs_handles s" "cs_count s' = ?h" by (simp_all add: s'_def cap_insert_def)
  have "((cs_caps s)(?h \<mapsto> ?d)) there = Some (if there = ?h then ?d else c)" using there c by auto
  then have "cap_derive there h keep s = Inr (?h, s')"
    using cap_find_dom [OF inv c] a by (auto simp: cap_derive_def make_handle_def Let_def object_retain_def s'_def cap_insert_def)
  then show ?thesis using that [of s' ?d] ins f by (simp add: s'_def)
qed

lemma clone_ok:
  assumes inv: "cap_inv F (\<lambda>_. 0) B s" and B: "B + 3 < 2 ^ 32" and count: "unat (cs_count s) < 2 ^ 16 - 1"
  shows "\<exists>s'. cap_step F (Clone p h keep slot) s = Inr s' \<and> step_ok F p B s s'"
proof -
  from B have B': "Suc B < 2 ^ 32" "Suc (Suc B) < 2 ^ 32" by simp_all
  show ?thesis
  proof (cases rule: get_handle_ok [OF inv B'(1), of p None h "cf_clone F"])
    case (1 st s')
    then have "step_ok F p B s s'" by (intro step_okI [of _ "Suc B"] confined_from) (simp_all add: same_handles_def)
    then show ?thesis using 1 by (simp add: syscall_verify_def)
  next
    case (2 c a s1)
    let ?h = "cs_count s + 1" and ?there = "if slot then cs_count s + 1 else h"
    have c1: "cs_count s1 = cs_count s" "cs_handles s1 = cs_handles s" "caps_from s s1" using 2(6) by (simp_all add: same_handles_def)
    obtain c' where c': "cs_caps s1 h = Some c'" using 2(2,7) by blast
    then have same: "c_object c' = Some a" "c_caps c' = c_caps c" using caps_fromD [OF c1(3) c'] 2(2,3) by auto
    obtain s2 d where s2: "cap_derive ?there h (ucast keep) s1 = Inr (?h, s2)" "cap_inv F ((\<lambda>_. 0)(h := Suc 0)) (Suc B) s2" "cs_caps s2 = (cs_caps s1)(?h \<mapsto> d)"
      "c_object d = c_object c'" "c_caps d = ucast keep AND c_caps c'" "cs_handles s2 = cs_handles s" "cs_count s2 = ?h" "\<And>q. ?h \<notin> set (cs_handles s q)"
      by (rule cap_derive_ok [OF 2(5) c', of ?there "ucast keep"]) (use count c1 in auto)
    have d: "cs_caps s2 ?h = Some d" using s2(3) by simp
    obtain s3 where s3: "add_handle p ?h s2 = Inr s3" "cap_inv F ((\<lambda>_. 0)(h := Suc 0)) (Suc (Suc B)) s3" "caps_from s2 s3" "cs_count s3 = cs_count s2"
      "\<And>q. set (cs_handles s3 q) = set (cs_handles s2 q) \<union> (if q = p then {?h} else {})"
      by (rule add_handle_ok [OF s2(2) d B'(2), of p]) blast
    obtain s' where s': "cap_release h s3 = Inr s'" "cap_inv F (\<lambda>_. 0) (Suc (Suc B)) s'" "caps_from s3 s'" "cs_handles s' = cs_handles s3" "cs_count s' = cs_count s3"
      by (rule release_last [OF s3(2)])
    have cf: "caps_from s2 s'" using caps_from_trans [OF s3(3) s'(3)] .
    have "confined p s s'"
    proof (rule confined_new [of ?h, OF s2(8)])
      show "has_right s p b r \<or> cs_objects s b = None" if "cs_caps s' ?h = Some x" "c_object x = Some b" "bit (c_caps x) r" for x b r
        using caps_fromD [OF cf that(1)] that(2,3) s2(3-5) same 2(2-4) has_right_cap [of h s p c b r] by (auto simp: bit_and_iff)
      show "\<exists>c. cs_caps s k = Some c \<and> c_object x = c_object c \<and> c_caps x = c_caps c" if k: "k \<noteq> ?h" "cs_caps s' k = Some x" for k x
      proof -
        obtain y where "cs_caps s1 k = Some y" "c_object x = c_object y" "c_caps x = c_caps y" using caps_fromD [OF cf k(2)] k(1) s2(3) by auto
        then show ?thesis using caps_fromD [OF c1(3), of k y] by auto
      qed
    qed (use s3(5) s'(4) s2(6) in simp)
    moreover have "unat ?h = Suc (unat (cs_count s))" using count by (simp add: unat_word_ariths)
    ultimately have "step_ok F p B s s'" using s' s3(4) s2(7) by (intro step_okI [of _ "Suc (Suc B)"]) simp_all
    then show ?thesis using 2(1) s2(1) s3(1) s'(1) c1(1) by (cases slot) (simp_all add: syscall_verify_def scalar_def handle_clone_def)
  qed
qed

lemma cap_step_ok:
  assumes "cap_inv F (\<lambda>_. 0) B s" "B + 3 < 2 ^ 32" "unat (cs_count s) < 2 ^ 16 - 1"
  obtains s' where "cap_step F x s = Inr s'" "step_ok F (cap_actor x) B s s'"
proof (cases x)
  case (New p t i a)
  then show ?thesis using that new_ok [OF assms, of p t i a] by auto
next
  case (Clone p h keep slot)
  then show ?thesis using that clone_ok [OF assms, of p h keep slot] by auto
next
  case (Close p h)
  then show ?thesis using that close_ok [OF assms(1,2), of p h] by auto
next
  case (Give p self h)
  then show ?thesis using that give_ok [OF assms(1,2), of p self h] by auto
next
  case (Use p ty h caps)
  then show ?thesis using that use_ok [OF assms(1,2), of p ty h caps] by auto
qed

lemma cap_run_ok:
  assumes "cap_inv F (\<lambda>_. 0) B s" "B + 3 * length xs < 2 ^ 32" "unat (cs_count s) + length xs < 2 ^ 16"
  obtains s' where "cap_run F xs s = Inr s'" "cap_inv F (\<lambda>_. 0) (B + 3 * length xs) s'" "unat (cs_count s') \<le> unat (cs_count s) + length xs"
proof -
  have "\<exists>s'. cap_run F xs s = Inr s' \<and> cap_inv F (\<lambda>_. 0) (B + 3 * length xs) s' \<and> unat (cs_count s') \<le> unat (cs_count s) + length xs"
    using assms
  proof (induction xs arbitrary: s B)
    case (Cons x xs)
    obtain s1 where s1: "cap_step F x s = Inr s1" "step_ok F (cap_actor x) B s s1" by (rule cap_step_ok [OF Cons.prems(1), of x]) (use Cons.prems(2,3) in simp_all)
    then have i1: "cap_inv F (\<lambda>_. 0) (B + 3) s1" and n: "unat (cs_count s1) \<le> Suc (unat (cs_count s))" by (simp_all add: step_ok_def)
    have len: "B + 3 + 3 * length xs < 2 ^ 32" "unat (cs_count s1) + length xs < 2 ^ 16" using Cons.prems(2,3) n by simp_all
    from Cons.IH [OF i1 len] obtain s' where s': "cap_run F xs s1 = Inr s'" "cap_inv F (\<lambda>_. 0) (B + 3 + 3 * length xs) s'"
      "unat (cs_count s') \<le> unat (cs_count s1) + length xs" by blast
    then show ?case using s1(1) n by (simp add: add.assoc)
  qed simp
  then show ?thesis using that by blast
qed

lemma cap_table_new_inv: "cap_inv F (\<lambda>_. 0) 0 cap_table_new"
  by (simp add: cap_inv_def tab_ok_def obj_ok_def hold_ok_def cap_table_new_def)

section \<open>Properties\<close>



lemma cap_reachable_inv:
  assumes "length xs < 2 ^ 16" "cap_run F xs cap_table_new = Inr s"
  shows "cap_inv F (\<lambda>_. 0) (3 * length xs) s" "unat (cs_count s) \<le> length xs"
proof -
  have len: "0 + 3 * length xs < 2 ^ 32" "unat (cs_count cap_table_new) + length xs < 2 ^ 16" using assms(1) by (simp_all add: cap_table_new_def)
  obtain s1 where "cap_run F xs cap_table_new = Inr s1" "cap_inv F (\<lambda>_. 0) (0 + 3 * length xs) s1" "unat (cs_count s1) \<le> unat (cs_count cap_table_new) + length xs"
    by (rule cap_run_ok [OF cap_table_new_inv len])
  then show "cap_inv F (\<lambda>_. 0) (3 * length xs) s" "unat (cs_count s) \<le> length xs" using assms(2) by (simp_all add: cap_table_new_def)
qed


text \<open>The masks of the interface definitions, with \<open>clone\<close> the lowest bit of all.\<close>

definition j6_caps :: cap_flags where
  "j6_caps = \<lparr>cf_all = (\<lambda>t. case t of No_object \<Rightarrow> 0 | System_object \<Rightarrow> 31 | Event_object \<Rightarrow> 7 | Endpoint_object \<Rightarrow> 0 | Mailbox_object \<Rightarrow> 15
      | Vma_object \<Rightarrow> 15 | Process_object \<Rightarrow> 7 | Thread_object \<Rightarrow> 7 | Max_object \<Rightarrow> 0), cf_clone = 1\<rparr>"



lemmas cap_op_defs = syscall_verify_def scalar_def get_handle_def cap_retain_def cap_release_def cap_find_def add_handle_def remove_handle_def has_handle_def
  handle_clone_def handle_close_def process_give_handle_def construct_handle_def cap_create_def cap_derive_def make_handle_def cap_insert_def cap_erase_def
  object_retain_def object_release_def handle_retain_def handle_release_def j6_handle_invalid_def j6_caps_def Let_def


text \<open>The state in which a process holds \<open>n\<close> handles to one event, all but the first made by \<open>handle_clone\<close>.\<close>

definition clone_cap :: "u64 \<Rightarrow> capability" where
  "clone_cap h = \<lparr>c_id = h, c_parent = (if h = 1 then 0 else 1), c_holders = 1, c_caps = (if h = 1 then 7 else 0), c_type = Event_object, c_object = Some 2\<rparr>"

definition clone_caps :: "nat \<Rightarrow> u64 \<rightharpoonup> capability" where
  "clone_caps n h = (if h \<noteq> 0 \<and> unat h \<le> n then Some (clone_cap h) else None)"

definition clones :: "nat \<Rightarrow> cap_state" where
  "clones n = \<lparr>cs_caps = clone_caps n, cs_size = n, cs_count = of_nat n,
     cs_objects = [2 \<mapsto> \<lparr>k_handle_count = of_nat n, k_type = Event_object, k_obj_id = 0\<rparr>],
     cs_mapped = \<lambda>_. False, cs_handles = (\<lambda>_. [])(1 := map of_nat [1..<Suc n])\<rparr>"

lemma clone_step:
  assumes "1 \<le> n" "n < 2 ^ 20"
  shows "cap_step j6_caps (Clone 1 1 0 False) (clones n) = Inr (clones (Suc n))"
proof -
  have u: "unat (of_nat n + 1 :: u64) = Suc n" "unat (of_nat n :: u64) = n" using assms by (simp_all add: unat_word_ariths unat_of_nat)
  have nz: "(of_nat n + 1 :: u64) \<noteq> 0" using u by auto
  have n1: "(of_nat n + 1 :: u64) \<noteq> 1" using u assms(1) by auto
  have mem: "(1 :: u64) \<in> of_nat ` {Suc 0..<Suc n}" using assms(1) by (intro image_eqI [of _ _ 1]) auto
  have new: "(of_nat n + 1 :: u64) \<notin> of_nat ` {Suc 0..<Suc n}"
  proof
    assume "(of_nat n + 1 :: u64) \<in> of_nat ` {Suc 0..<Suc n}"
    then obtain i where i: "i < Suc n" "(of_nat n + 1 :: u64) = of_nat i" by (auto elim!: imageE)
    then have "unat (of_nat i :: u64) = i" using assms(2) by (simp add: unat_of_nat)
    then show False using i u(1) by simp
  qed
  have first: "clone_caps n 1 = Some \<lparr>c_id = 1, c_parent = 0, c_holders = 1, c_caps = 7, c_type = Event_object, c_object = Some 2\<rparr>"
    using assms(1) by (simp add: clone_caps_def clone_cap_def)
  have caps: "(clone_caps n)(1 + of_nat n \<mapsto> \<lparr>c_id = 1 + of_nat n, c_parent = 1, c_holders = 1, c_caps = 0, c_type = Event_object, c_object = Some 2\<rparr>,
      1 \<mapsto> \<lparr>c_id = 1, c_parent = 0, c_holders = 1, c_caps = 7, c_type = Event_object, c_object = Some 2\<rparr>) = clone_caps (Suc n)"
  proof
    fix h :: u64
    have "unat h \<le> Suc n \<longleftrightarrow> unat h \<le> n \<or> h = of_nat n + 1" using u(1) by (auto simp: le_Suc_eq word_unat_eq_iff)
    then show "((clone_caps n)(1 + of_nat n \<mapsto> \<lparr>c_id = 1 + of_nat n, c_parent = 1, c_holders = 1, c_caps = 0, c_type = Event_object, c_object = Some 2\<rparr>,
      1 \<mapsto> \<lparr>c_id = 1, c_parent = 0, c_holders = 1, c_caps = 7, c_type = Event_object, c_object = Some 2\<rparr>)) h = clone_caps (Suc n) h"
      using nz n1 u first by (auto simp: clone_caps_def clone_cap_def add.commute)
  qed
  show ?thesis
    using assms(1) nz n1 mem new first caps by (simp add: cap_op_defs clones_def add.commute del: upt_Suc) (simp add: add.commute)
qed

lemma cap_run_append: "cap_run F (xs @ ys) s = bindE (cap_run F xs s) (cap_run F ys)"
proof (induction xs arbitrary: s)
  case (Cons x xs)
  then show ?case by (cases "cap_step F x s") simp_all
qed simp

lemma clone_run:
  assumes "1 \<le> n" "n + k < 2 ^ 20"
  shows "cap_run j6_caps (replicate k (Clone 1 1 0 False)) (clones n) = Inr (clones (n + k))"
  using assms
proof (induction k arbitrary: n)
  case (Suc k)
  then show ?case using clone_step [of n] Suc.IH [of "Suc n"] by simp
qed simp

lemma clones_first: "cap_run j6_caps [New 1 Event_object 0 2] cap_table_new = Inr (clones 1)"
proof -
  have "h = 1" if "unat h = Suc 0" for h :: u64 using that by (intro word_unat_eq_iff [THEN iffD2]) simp
  then have "h \<noteq> 0 \<and> unat h \<le> Suc 0 \<longleftrightarrow> h = 1" for h :: u64 by (auto simp: le_Suc_eq)
  then have "clone_caps 1 = [1 \<mapsto> \<lparr>c_id = 1, c_parent = 0, c_holders = 1, c_caps = 7, c_type = Event_object, c_object = Some 2\<rparr>]"
    by (auto simp: clone_caps_def clone_cap_def fun_eq_iff)
  then show ?thesis by (simp add: cap_op_defs cap_table_new_def clones_def)
qed

text \<open>The count of handles of an object is too narrow for the bound on calls to be lifted: a process that clones a handle to an event
  two to the sixteen times and closes one of the clones has the event deleted while it holds the
  other handles, and its next use of the first handle reaches the deleted object.\<close>

theorem handle_count_wraps:
  "cap_run j6_caps (New 1 Event_object 0 2 # replicate (2 ^ 16) (Clone 1 1 0 False) @ [Close 1 2, Use 1 (Some Event_object) 1 2]) cap_table_new = Inl Use_after_free"
proof -
  let ?n = "1 + 2 ^ 16 :: nat"
  have n: "(65537 :: u16) = 1" by simp
  have caps: "clone_caps ?n 1 = Some \<lparr>c_id = 1, c_parent = 0, c_holders = 1, c_caps = 7, c_type = Event_object, c_object = Some 2\<rparr>"
    "clone_caps ?n 2 = Some \<lparr>c_id = 2, c_parent = 1, c_holders = 1, c_caps = 0, c_type = Event_object, c_object = Some 2\<rparr>"
    by (simp_all add: clone_caps_def clone_cap_def)
  have mem: "(1 :: u64) \<in> of_nat ` {1..<Suc ?n}" "(2 :: u64) \<in> of_nat ` {1..<Suc ?n}" by (force intro: image_eqI [of _ _ 1] image_eqI [of _ _ 2])+
  have mem1: "(1 :: u64) \<in> set (remove1 2 (map of_nat [1..<Suc ?n]))" using mem(1) in_set_remove1 [of "1 :: u64" 2 "map of_nat [1..<Suc ?n]"] by simp
  define hs where "hs = map (of_nat :: nat \<Rightarrow> u64) [1..<Suc ?n]"
  have hs: "1 \<in> set hs" "2 \<in> set hs" "1 \<in> set (remove1 2 hs)" using mem mem1 by (simp_all add: hs_def del: upt_Suc)
  have st: "clones ?n = \<lparr>cs_caps = clone_caps ?n, cs_size = Suc (2 ^ 16), cs_count = of_nat ?n,
     cs_objects = [2 \<mapsto> \<lparr>k_handle_count = 1, k_type = Event_object, k_obj_id = 0\<rparr>], cs_mapped = \<lambda>_. False, cs_handles = (\<lambda>_. [])(1 := hs)\<rparr>"
    by (simp add: clones_def hs_def n del: upt_Suc)
  have "cap_run j6_caps [Close 1 2, Use 1 (Some Event_object) 1 2] (clones ?n) = Inl Use_after_free"
    using caps hs unfolding st by (simp add: cap_op_defs on_no_handles_def)
  moreover define R where "R = replicate (2 ^ 16) (Clone 1 1 0 False)"
  have "cap_run j6_caps R (clones 1) = Inr (clones ?n)" unfolding R_def by (rule clone_run) simp_all
  ultimately have "cap_run j6_caps ([New 1 Event_object 0 2] @ R @ [Close 1 2, Use 1 (Some Event_object) 1 2]) cap_table_new = Inl Use_after_free"
    by (simp only: cap_run_append clones_first bindE.simps)
  then show ?thesis by (simp only: R_def append_Cons append_Nil)
qed

section \<open>Listing handles\<close>

definition descriptor :: "cap_state \<Rightarrow> u64 \<Rightarrow> handle_descriptor" where
  "descriptor s h = (case cs_caps s h of None \<Rightarrow> \<lparr>hd_handle = h, hd_caps = 0, hd_type = No_object\<rparr>
     | Some c \<Rightarrow> \<lparr>hd_handle = h, hd_caps = c_caps c, hd_type = c_type c\<rparr>)"

lemma list_handles_loop_ok:
  assumes "cap_inv F e B s" "set hs \<subseteq> dom (cs_caps s)" "count < unat len" "length out = unat len"
  shows "\<exists>out'. list_handles_loop hs count len s out = Inr out' \<and> length out' = length out \<and> (\<forall>i < count. out' ! i = out ! i) \<and>
     (\<forall>i < length hs. count + i < unat len \<longrightarrow> out' ! (count + i) = descriptor s (hs ! i))"
  using assms(2-4)
proof (induction hs arbitrary: count out)
  case (Cons h hs)
  obtain c where c: "cs_caps s h = Some c" using Cons.prems(1) by auto
  let ?out = "out[count := descriptor s h]"
  have get: "cap_find h s = Inr (Some c)" by (rule cap_find_dom [OF assms(1) c])
  have set: "array_set out count \<lparr>hd_handle = h, hd_caps = c_caps c, hd_type = c_type c\<rparr> = Inr ?out"
    using Cons.prems(2,3) c by (simp add: array_set_def descriptor_def)
  have "unat (of_nat (count + 1) :: u64) = count + 1" using Cons.prems(2) by (intro unat_of_nat_bounded [of _ len]) simp
  then have "(of_nat (count + 1) :: u64) = len \<longleftrightarrow> count + 1 = unat len" by (simp only: word_unat_eq_iff)
  then have run: "list_handles_loop (h # hs) count len s out = (if count + 1 = unat len then Inr ?out else list_handles_loop hs (count + 1) len s ?out)"
    using get set by simp
  show ?case
  proof (cases "count + 1 = unat len")
    case True
    then show ?thesis using run Cons.prems(2,3) by (auto simp: nth_Cons' nth_list_update)
  next
    case False
    then obtain out' where o: "list_handles_loop hs (count + 1) len s ?out = Inr out'" "length out' = length ?out" "\<And>i. i < count + 1 \<Longrightarrow> out' ! i = ?out ! i"
      "\<And>i. i < length hs \<Longrightarrow> count + 1 + i < unat len \<Longrightarrow> out' ! (count + 1 + i) = descriptor s (hs ! i)"
      using Cons.IH [of "count + 1" ?out] Cons.prems by auto
    have "out' ! (count + i) = descriptor s ((h # hs) ! i)" if "i < length (h # hs)" "count + i < unat len" for i
    proof (cases i)
      case 0
      then show ?thesis using o(3) [of count] Cons.prems(2,3) by simp
    next
      case (Suc j)
      then show ?thesis using o(4) [of j] that by simp
    qed
    moreover have "out' ! i = out ! i" if "i < count" for i using o(3) [of i] that by simp
    ultimately show ?thesis using run o(1,2) False by simp
  qed
qed simp

lemma handles_bound:
  assumes "cap_inv F e B s"
  shows "length (cs_handles s p) \<le> unat (cs_count s)"
proof -
  note I = cap_invD [OF assms]
  have "unat ` set (cs_handles s p) \<subseteq> {0<..unat (cs_count s)}"
    using I(4,5) by (fastforce simp: cap_ok_def j6_handle_invalid_def unat_gt_0)
  then have "card (unat ` set (cs_handles s p)) \<le> card {0<..unat (cs_count s)}" by (intro card_mono) simp_all
  moreover have "inj_on unat (set (cs_handles s p))" by (intro inj_onI) (simp add: word_unat_eq_iff)
  then have "card (unat ` set (cs_handles s p)) = length (cs_handles s p)"
    using I(3) by (simp add: card_image distinct_card hold_ok_def)
  ultimately show ?thesis by simp
qed

text \<open>Listing the handles of a process: with a buffer of at least one entry the call succeeds, describes each handle up to the
  size of the buffer by its rights and type, and reports the number of handles and whether they did not fit. With an empty buffer
  it writes past the buffer as soon as the process has a handle, where the caller was told to ask for the size this way.\<close>

theorem handle_list_correct:
  assumes "length xs < 2 ^ 16" "cap_run F xs cap_table_new = Inr s" "length out = unat len"
  shows "if len = 0 then cs_handles s p \<noteq> [] \<longrightarrow> handle_list p out len s = Inl Out_of_bounds
    else \<exists>out'. handle_list p out len s = Inr (if length (cs_handles s p) > unat len then Err_insufficient else J6_ok, of_nat (length (cs_handles s p)), out') \<and>
      length out' = unat len \<and> (\<forall>i < length (cs_handles s p). i < unat len \<longrightarrow> out' ! i = descriptor s (cs_handles s p ! i))"
proof -
  note inv = cap_reachable_inv(1) [OF assms(1,2)]
  have dom: "set (cs_handles s p) \<subseteq> dom (cs_caps s)" using cap_invD(5) [OF inv] by blast
  show ?thesis
  proof (cases "len = 0")
    case True
    have "handle_list p out len s = Inl Out_of_bounds" if hs: "cs_handles s p = h # hs" for h hs
    proof -
      obtain c where "cs_caps s h = Some c" using dom hs by auto
      from cap_find_dom [OF inv this] show ?thesis using hs True assms(3) by (simp add: handle_list_def list_handles_def array_set_def)
    qed
    then show ?thesis using True by (cases "cs_handles s p") simp_all
  next
    case False
    then have "0 < unat len" by (simp add: unat_gt_0)
    from list_handles_loop_ok [OF inv dom this assms(3)] obtain out' where o: "list_handles_loop (cs_handles s p) 0 len s out = Inr out'" "length out' = length out"
      "\<forall>i < length (cs_handles s p). i < unat len \<longrightarrow> out' ! i = descriptor s (cs_handles s p ! i)" by auto
    have "len < of_nat (length (cs_handles s p)) \<longleftrightarrow> unat len < length (cs_handles s p)"
      using handles_bound [OF inv, of p] cap_reachable_inv(2) [OF assms(1,2)] assms(1) by (simp add: word_less_nat_alt unat_of_nat)
    then have "handle_list p out len s = Inr (if length (cs_handles s p) > unat len then Err_insufficient else J6_ok, of_nat (length (cs_handles s p)), out')"
      using o(1) by (simp add: handle_list_def list_handles_def)
    then show ?thesis using o(2,3) False assms(3) by auto
  qed
qed

theorem handle_list_correct_witness:
  "\<exists>s. cap_run j6_caps [New 1 Event_object 0 3] cap_table_new = Inr s \<and> handle_list 1 [] 0 s = Inl Out_of_bounds"
proof -
  let ?s = "\<lparr>cs_caps = [1 \<mapsto> \<lparr>c_id = 1, c_parent = 0, c_holders = 1, c_caps = 7, c_type = Event_object, c_object = Some 3\<rparr>], cs_size = 1, cs_count = 1,
      cs_objects = [3 \<mapsto> \<lparr>k_handle_count = 1, k_type = Event_object, k_obj_id = 0\<rparr>], cs_mapped = \<lambda>_. False, cs_handles = (\<lambda>_. [])(1 := [1])\<rparr>"
  have run: "cap_run j6_caps [New 1 Event_object 0 3] cap_table_new = Inr ?s" by (simp add: cap_op_defs cap_table_new_def)
  have "handle_list 1 [] 0 ?s = Inl Out_of_bounds" using handle_list_correct [OF _ run, of "[]" 0 1] by simp
  then show ?thesis using run by blast
qed

end
