(* ===== verification/Wait_Queue.thy ===== *)
theory Wait_Queue
  imports Kernel_Threads
begin

text \<open>
  Queues of waiting threads, \<open>src/src/kernel/wait_queue.cpp\<close>, and what is built on them: events
  (\<open>objects/event.cpp\<close>, \<open>syscalls/event.cpp\<close>) and futexes (\<open>syscalls/futex.cpp\<close>). The queue of
  threads is a list, as theory \<open>Deque\<close> shows of its representation. A call that blocks is split at the
  points where other threads run: each definition is a part of the call that runs on its own.
\<close>

section \<open>Threads\<close>

definition thread_at :: "nat \<Rightarrow> threads \<Rightarrow> thread res" where
  "thread_at t ths = (case ths t of None \<Rightarrow> Inl Use_after_free | Some th \<Rightarrow> Inr th)"

definition wake_thread :: "u64 \<Rightarrow> nat \<Rightarrow> threads \<Rightarrow> threads res" where
  "wake_thread v t ths = bindE (thread_at t ths) (\<lambda>th. Inr (ths(t \<mapsto> th_wake v th)))"

definition block_thread :: "nat \<Rightarrow> threads \<Rightarrow> threads res" where
  "block_thread t ths = bindE (thread_at t ths) (\<lambda>th. Inr (ths(t \<mapsto> th_block th)))"

section \<open>Wait queues\<close>

definition wq_add_thread :: "nat \<Rightarrow> nat list \<Rightarrow> threads \<Rightarrow> (nat list \<times> threads) res" where
  "wq_add_thread t q ths = bindE (th_retain t ths) (\<lambda>ths. Inr (q @ [t], ths))"

text \<open>\<open>wait\<close>, for the current thread \<open>t\<close>, up to the call of the scheduler.\<close>

definition wq_wait :: "nat \<Rightarrow> nat list \<Rightarrow> threads \<Rightarrow> (nat list \<times> threads) res" where
  "wq_wait t q ths = bindE (wq_add_thread t q ths) (\<lambda>(q, ths). bindE (block_thread t ths) (\<lambda>ths. Inr (q, ths)))"

fun wq_pop_exited :: "nat list \<Rightarrow> threads \<Rightarrow> (nat list \<times> threads) res" where
  "wq_pop_exited [] ths = Inr ([], ths)"
| "wq_pop_exited (t # q) ths =
     bindE (thread_at t ths) (\<lambda>th.
     if \<not> th_exited th \<and> \<not> th_ready th then Inr (t # q, ths)
     else bindE (th_release t ths) (wq_pop_exited q))"

definition wq_pop_next :: "nat list \<Rightarrow> threads \<Rightarrow> (nat option \<times> nat list \<times> threads) res" where
  "wq_pop_next q ths =
     bindE (wq_pop_exited q ths) (\<lambda>(q, ths). case q of
        [] \<Rightarrow> Inr (None, [], ths)
      | t # q \<Rightarrow> bindE (th_release t ths) (\<lambda>ths. Inr (Some t, q, ths)))"

text \<open>The loop of \<open>clear\<close>; each pass takes a thread off the queue.\<close>

fun wq_clear_loop :: "nat \<Rightarrow> u64 \<Rightarrow> nat list \<Rightarrow> threads \<Rightarrow> (nat list \<times> threads) res" where
  "wq_clear_loop 0 v q ths = Inl Diverges"
| "wq_clear_loop (Suc fuel) v q ths =
     bindE (wq_pop_next q ths) (\<lambda>(r, q, ths). case r of
        None \<Rightarrow> Inr (q, ths)
      | Some t \<Rightarrow> bindE (wake_thread v t ths) (wq_clear_loop fuel v q))"

definition wq_clear :: "u64 \<Rightarrow> nat list \<Rightarrow> threads \<Rightarrow> (nat list \<times> threads) res" where
  "wq_clear v q ths = wq_clear_loop (Suc (length q)) v q ths"

section \<open>Events\<close>

record event =
  ev_signals :: u64
  ev_queue :: "nat list"

unbundle bit_operations_syntax

definition event_new :: event where
  "event_new = \<lparr>ev_signals = 0, ev_queue = []\<rparr>"

definition event_read :: "event \<Rightarrow> u64 \<times> event" where
  "event_read e = (ev_signals e, e\<lparr>ev_signals := 0\<rparr>)"

definition wake_observer :: "event \<Rightarrow> threads \<Rightarrow> (event \<times> threads) res" where
  "wake_observer e ths =
     bindE (wq_pop_next (ev_queue e) ths) (\<lambda>(r, q, ths). case r of
        None \<Rightarrow> Inr (e\<lparr>ev_queue := q\<rparr>, ths)
      | Some t \<Rightarrow> bindE (wake_thread 0 t ths) (\<lambda>ths. Inr (e\<lparr>ev_queue := q\<rparr>, ths)))"

definition event_signal :: "u64 \<Rightarrow> event \<Rightarrow> threads \<Rightarrow> (event \<times> threads) res" where
  "event_signal s e ths =
     (let e = e\<lparr>ev_signals := ev_signals e OR s\<rparr>
      in if ev_signals e \<noteq> 0 then wake_observer e ths else Inr (e, ths))"

text \<open>The second part of \<open>wait\<close>: the thread joins the queue, and then blocks.\<close>

definition event_enqueue :: "nat \<Rightarrow> event \<Rightarrow> threads \<Rightarrow> (event \<times> threads) res" where
  "event_enqueue t e ths = bindE (wq_add_thread t (ev_queue e) ths) (\<lambda>(q, ths). Inr (e\<lparr>ev_queue := q\<rparr>, ths))"

text \<open>\<open>wait\<close> up to the point where the thread blocks, when nothing else runs in between: what it
  returns at once, if anything.\<close>

definition event_wait :: "nat \<Rightarrow> event \<Rightarrow> threads \<Rightarrow> (u64 option \<times> event \<times> threads) res" where
  "event_wait t e ths =
     (let (v, e) = event_read e
      in if v \<noteq> 0 then Inr (Some v, e, ths)
         else bindE (event_enqueue t e ths) (\<lambda>(e, ths). bindE (block_thread t ths) (\<lambda>ths. Inr (None, e, ths))))"

definition event_wait_timeout :: "u64 \<Rightarrow> u64 \<Rightarrow> nat \<Rightarrow> event \<Rightarrow> threads \<Rightarrow> (u64 option \<times> event \<times> threads) res" where
  "event_wait_timeout now timeout t e ths =
     bindE (thread_at t ths) (\<lambda>th.
     event_wait t e (if timeout \<noteq> 0 then ths(t \<mapsto> th_set_wake_timeout (timeout + now) th) else ths))"

section \<open>Futexes\<close>

text \<open>The queues by physical address. \<open>futex_wait\<close> has two parts: the test of the value, and the rest.\<close>

type_synonym futexes = "u64 \<rightharpoonup> nat list"

definition futex_wait_test :: "u32 \<Rightarrow> u32 \<Rightarrow> bool" where
  "futex_wait_test value expected \<longleftrightarrow> value = expected"

definition futex_wait_block :: "u64 \<Rightarrow> u64 \<Rightarrow> nat \<Rightarrow> u64 \<Rightarrow> futexes \<Rightarrow> threads \<Rightarrow> (futexes \<times> threads) res" where
  "futex_wait_block now timeout t phys fs ths =
     (let q = (case fs phys of None \<Rightarrow> [] | Some q \<Rightarrow> q)
      in bindE (thread_at t ths) (\<lambda>th.
         let ths = (if timeout \<noteq> 0 then ths(t \<mapsto> th_set_wake_timeout (timeout + now) th) else ths)
         in bindE (wq_wait t q ths) (\<lambda>(q, ths). Inr (fs(phys \<mapsto> q), ths))))"

text \<open>The loop of \<open>futex_wake\<close>; the queue is empty after as many passes as it has threads.\<close>

fun futex_wake_loop :: "nat \<Rightarrow> nat list \<Rightarrow> threads \<Rightarrow> (nat list \<times> threads) res" where
  "futex_wake_loop 0 q ths = Inr (q, ths)"
| "futex_wake_loop (Suc n) q ths =
     bindE (wq_pop_next q ths) (\<lambda>(r, q, ths). case r of
        None \<Rightarrow> Inr (q, ths)
      | Some t \<Rightarrow> bindE (wake_thread 0 t ths) (futex_wake_loop n q))"

definition futex_wake :: "u64 \<Rightarrow> nat \<Rightarrow> futexes \<Rightarrow> threads \<Rightarrow> (futexes \<times> threads) res" where
  "futex_wake phys count fs ths = (case fs phys of None \<Rightarrow> Inr (fs, ths)
     | Some q \<Rightarrow>
         bindE (if count \<noteq> 0 then futex_wake_loop count q ths else wq_clear 0 q ths) (\<lambda>(q, ths).
         Inr (fs(phys := if q = [] then None else Some q), ths)))"

section \<open>Taking threads off a queue\<close>

definition waiting :: "threads \<Rightarrow> nat \<Rightarrow> bool" where
  "waiting ths t \<longleftrightarrow> (case ths t of None \<Rightarrow> False | Some th \<Rightarrow> \<not> th_exited th \<and> \<not> th_ready th)"

text \<open>The threads of a queue exist, and someone else refers to them.\<close>

definition queue_ok :: "threads \<Rightarrow> nat list \<Rightarrow> bool" where
  "queue_ok ths q \<longleftrightarrow> distinct q \<and> (\<forall>t \<in> set q. \<exists>th. ths t = Some th \<and> 2 \<le> unat (k_handle_count (th_object th)))"

definition same_states :: "threads \<Rightarrow> threads \<Rightarrow> bool" where
  "same_states ths ths' \<longleftrightarrow> (\<forall>t. map_option th_state (ths' t) = map_option th_state (ths t))"

lemma same_states_refl [simp]: "same_states ths ths"
  by (simp add: same_states_def)

lemma same_states_trans: "same_states ths ths' \<Longrightarrow> same_states ths' ths'' \<Longrightarrow> same_states ths ths''"
  by (simp add: same_states_def)

lemma same_states_waiting: "same_states ths ths' \<Longrightarrow> waiting ths' = waiting ths"
  by (rule ext) (auto simp: same_states_def waiting_def th_exited_def th_ready_def has_state_def map_option_case split: option.splits; metis option.inject option.distinct(1))

lemma same_statesD: "same_states ths ths' \<Longrightarrow> ths t = Some th \<Longrightarrow> \<exists>th'. ths' t = Some th' \<and> th_state th' = th_state th"
  by (auto simp: same_states_def dest!: spec [of _ t])

lemma th_release_ok:
  assumes "ths t = Some th" "2 \<le> unat (k_handle_count (th_object th))"
  obtains ths' where "th_release t ths = Inr ths'" "same_states ths ths'" "\<And>u. u \<noteq> t \<Longrightarrow> ths' u = ths u"
proof -
  have "unat (k_handle_count (th_object th) - 1) = unat (k_handle_count (th_object th)) - unat (1 :: u16)" using assms(2) by (intro unat_sub_no_wrap) simp
  then have "k_handle_count (th_object th) - 1 \<noteq> 0" using assms(2) by auto
  then have "th_release t ths = Inr (ths(t \<mapsto> th\<lparr>th_object := (th_object th)\<lparr>k_handle_count := k_handle_count (th_object th) - 1\<rparr>\<rparr>))"
    using assms(1) by (simp add: th_release_def handle_release_def Let_def)
  then show ?thesis using that assms(1) by (simp add: same_states_def)
qed

lemma queue_ok_tl:
  assumes "queue_ok ths (t # q)" "\<And>u. u \<noteq> t \<Longrightarrow> ths' u = ths u"
  shows "queue_ok ths' q"
  using assms by (fastforce simp: queue_ok_def)

lemma wq_pop_exited_ok:
  assumes "queue_ok ths q"
  shows "\<exists>ths'. wq_pop_exited q ths = Inr (dropWhile (\<lambda>t. \<not> waiting ths t) q, ths') \<and> same_states ths ths' \<and>
     queue_ok ths' (dropWhile (\<lambda>t. \<not> waiting ths t) q)"
  using assms
proof (induction q arbitrary: ths)
  case (Cons t q)
  obtain th where th: "ths t = Some th" "2 \<le> unat (k_handle_count (th_object th))" using Cons.prems by (auto simp: queue_ok_def)
  show ?case
  proof (cases "waiting ths t")
    case True
    then show ?thesis using Cons.prems th by (simp add: thread_at_def waiting_def)
  next
    case False
    obtain ths1 where r: "th_release t ths = Inr ths1" "same_states ths ths1" "\<And>u. u \<noteq> t \<Longrightarrow> ths1 u = ths u"
      by (rule th_release_ok [of ths t th, OF th]) blast
    have "queue_ok ths1 q" using queue_ok_tl [OF Cons.prems r(3)] by blast
    from Cons.IH [OF this] obtain ths' where "wq_pop_exited q ths1 = Inr (dropWhile (\<lambda>t. \<not> waiting ths t) q, ths')" "same_states ths1 ths'"
      "queue_ok ths' (dropWhile (\<lambda>t. \<not> waiting ths t) q)" unfolding same_states_waiting [OF r(2)] by blast
    then show ?thesis using False th r(1) same_states_trans [OF r(2)] by (auto simp: thread_at_def waiting_def)
  qed
qed simp

lemma dropWhile_filter: "dropWhile (\<lambda>x. \<not> P x) xs = y # ys \<Longrightarrow> filter P xs = y # filter P ys"
  by (induction xs) (auto split: if_splits)

lemma dropWhile_filter_Nil: "dropWhile (\<lambda>x. \<not> P x) xs = [] \<Longrightarrow> filter P xs = []"
  by (induction xs) (auto split: if_splits)

text \<open>\<open>pop_next\<close> takes the first thread of the queue that still waits.\<close>

lemma wq_pop_next_ok:
  assumes "queue_ok ths q"
  obtains (none) ths' where "wq_pop_next q ths = Inr (None, [], ths')" "filter (waiting ths) q = []" "same_states ths ths'"
  | (some) t q' ths' where "wq_pop_next q ths = Inr (Some t, q', ths')" "filter (waiting ths) q = t # filter (waiting ths) q'" "waiting ths t"
      "same_states ths ths'" "queue_ok ths' q'" "t \<notin> set q'" "length q' < length q"
proof -
  let ?q = "dropWhile (\<lambda>t. \<not> waiting ths t) q"
  obtain ths1 where p: "wq_pop_exited q ths = Inr (?q, ths1)" "same_states ths ths1" "queue_ok ths1 ?q" using wq_pop_exited_ok [OF assms] by blast
  show ?thesis
  proof (cases ?q)
    case Nil
    then have "wq_pop_next q ths = Inr (None, [], ths1)" using p(1) unfolding Nil by (simp add: wq_pop_next_def)
    then show ?thesis using none p(2) dropWhile_filter_Nil [OF Nil] by blast
  next
    case (Cons t q')
    then obtain th where th: "ths1 t = Some th" "2 \<le> unat (k_handle_count (th_object th))" using p(3) by (auto simp: queue_ok_def)
    obtain ths2 where r: "th_release t ths1 = Inr ths2" "same_states ths1 ths2" "\<And>u. u \<noteq> t \<Longrightarrow> ths2 u = ths1 u"
      by (rule th_release_ok [of ths1 t th, OF th]) blast
    have "queue_ok ths2 q'" using queue_ok_tl [of ths1 t q' ths2] p(3) r(3) Cons by simp
    moreover have "waiting ths t" using Cons hd_dropWhile [of "\<lambda>t. \<not> waiting ths t" q] by simp
    moreover have "t \<notin> set q'" using p(3) Cons by (simp add: queue_ok_def)
    moreover have "length q' < length q" using length_dropWhile_le [of "\<lambda>t. \<not> waiting ths t" q] Cons by simp
    moreover have "wq_pop_next q ths = Inr (Some t, q', ths2)" using p(1) r(1) unfolding Cons by (simp add: wq_pop_next_def)
    ultimately show ?thesis using some dropWhile_filter [OF Cons] same_states_trans [OF p(2) r(2)] by blast
  qed
qed

text \<open>Threads after some of them were woken.\<close>

definition woken :: "nat set \<Rightarrow> threads \<Rightarrow> threads \<Rightarrow> bool" where
  "woken W ths ths' \<longleftrightarrow> (\<forall>t th. ths t = Some th \<longrightarrow> (\<exists>th'. ths' t = Some th' \<and> (th_ready th' \<longleftrightarrow> th_ready th \<or> t \<in> W) \<and> (th_exited th' \<longleftrightarrow> th_exited th)))"

lemma woken_trans: "woken V ths ths' \<Longrightarrow> woken W ths' ths'' \<Longrightarrow> woken (V \<union> W) ths ths''"
  unfolding woken_def by (metis UnCI UnE)

lemma woken_same: "same_states ths ths' \<Longrightarrow> woken {} ths ths'"
  unfolding woken_def by (auto dest: same_statesD simp: th_ready_def th_exited_def has_state_def; metis same_statesD)

lemma wake_thread_ok:
  assumes "ths t = Some th"
  obtains ths' where "wake_thread v t ths = Inr ths'" "woken {t} ths ths'" "\<And>u. u \<noteq> t \<Longrightarrow> ths' u = ths u"
proof -
  have "th_ready (set_state st_ready u)" "th_exited (set_state st_ready u) = th_exited u" for u
    by (simp_all add: th_exited_def th_ready_def has_state_def set_state_def st_ready_def st_exited_def bit.conj_disj_distrib2)
  then have "th_ready (th_wake v th)" "th_exited (th_wake v th) = th_exited th"
    by (simp_all add: th_wake_def th_wake_only_def th_ready_def) (simp_all add: th_exited_def has_state_def)
  then have "woken {t} ths (ths(t \<mapsto> th_wake v th))" using assms by (auto simp: woken_def)
  then show ?thesis using that [of "ths(t \<mapsto> th_wake v th)"] assms by (simp add: wake_thread_def thread_at_def)
qed

lemma queue_ok_wake:
  assumes "queue_ok ths q" "t \<notin> set q" "\<And>u. u \<noteq> t \<Longrightarrow> ths' u = ths u"
  shows "queue_ok ths' q" "filter (waiting ths') q = filter (waiting ths) q"
proof -
  have same: "ths' u = ths u" if "u \<in> set q" for u by (rule assms(3)) (use assms(2) that in auto)
  then show "queue_ok ths' q" using assms(1) by (simp add: queue_ok_def)
  show "filter (waiting ths') q = filter (waiting ths) q" using same by (intro filter_cong) (simp_all add: waiting_def)
qed

text \<open>Taking the next waiting thread off a queue and waking it.\<close>

lemma pop_wake:
  assumes "queue_ok ths q"
  obtains (none) ths' where "wq_pop_next q ths = Inr (None, [], ths')" "filter (waiting ths) q = []" "woken {} ths ths'"
  | (some) t q' ths1 ths' where "wq_pop_next q ths = Inr (Some t, q', ths1)" "wake_thread v t ths1 = Inr ths'" "filter (waiting ths) q = t # filter (waiting ths') q'"
      "woken {t} ths ths'" "queue_ok ths' q'" "length q' < length q"
proof (cases rule: wq_pop_next_ok [OF assms])
  case (1 ths')
  then show ?thesis using none woken_same by blast
next
  case (2 t q' ths1)
  obtain th where "ths t = Some th" using 2(3) by (auto simp: waiting_def split: option.splits)
  then obtain th1 where th1: "ths1 t = Some th1" using same_statesD [OF 2(4)] by blast
  obtain ths' where w: "wake_thread v t ths1 = Inr ths'" "woken {t} ths1 ths'" "\<And>u. u \<noteq> t \<Longrightarrow> ths' u = ths1 u"
    by (rule wake_thread_ok [of ths1 t th1 v, OF th1]) blast
  have "woken {t} ths ths'" using woken_trans [OF woken_same [OF 2(4)] w(2)] by simp
  moreover have "queue_ok ths' q'" "filter (waiting ths') q' = filter (waiting ths) q'"
    using queue_ok_wake [OF 2(5,6) w(3)] same_states_waiting [OF 2(4)] by simp_all
  ultimately show ?thesis using some 2(1,2,7) w(1) by simp
qed

lemma futex_wake_loop_ok:
  assumes "queue_ok ths q"
  shows "\<exists>q' ths'. futex_wake_loop n q ths = Inr (q', ths') \<and> woken (set (take n (filter (waiting ths) q))) ths ths' \<and>
     filter (waiting ths') q' = drop n (filter (waiting ths) q)"
  using assms
proof (induction n arbitrary: q ths)
  case 0
  then show ?case using woken_same [of ths ths] by simp
next
  case (Suc n)
  show ?case
  proof (cases rule: pop_wake [OF Suc.prems, where v = 0])
    case (1 ths')
    then show ?thesis by simp
  next
    case (2 t q1 ths1 ths2)
    from Suc.IH [OF 2(5)] obtain q' ths' where r: "futex_wake_loop n q1 ths2 = Inr (q', ths')"
      "woken (set (take n (filter (waiting ths2) q1))) ths2 ths'" "filter (waiting ths') q' = drop n (filter (waiting ths2) q1)" by blast
    have "woken (set (t # take n (filter (waiting ths2) q1))) ths ths'" using woken_trans [OF 2(4) r(2)] by simp
    then show ?thesis using 2(1-3) r(1,3) by simp
  qed
qed

lemma wq_clear_loop_ok:
  assumes "queue_ok ths q" "length q < fuel"
  shows "\<exists>ths'. wq_clear_loop fuel v q ths = Inr ([], ths') \<and> woken (set (filter (waiting ths) q)) ths ths'"
  using assms
proof (induction fuel arbitrary: q ths)
  case (Suc fuel)
  show ?case
  proof (cases rule: pop_wake [OF Suc.prems(1), where v = v])
    case (1 ths')
    then show ?thesis by simp
  next
    case (2 t q1 ths1 ths2)
    from Suc.IH [OF 2(5)] 2(6) Suc.prems(2) obtain ths' where r: "wq_clear_loop fuel v q1 ths2 = Inr ([], ths')" "woken (set (filter (waiting ths2) q1)) ths2 ths'" by auto
    have "woken (set (t # filter (waiting ths2) q1)) ths ths'" using woken_trans [OF 2(4) r(2)] by simp
    then show ?thesis using 2(1-3) r(1) by simp
  qed
qed simp

text \<open>C20. \<open>futex_wake\<close> wakes the threads that have waited longest: the first \<open>n\<close> of the queue that are still waiting, or all of them when
  \<open>n\<close> is zero; the others wait on, in the same order, no other futex changes, and one without waiting threads is forgotten at the latest
  when its queue runs empty.\<close>

theorem futex_wake_longest_waiting:
  assumes "queue_ok ths q" "fs phys = Some q"
  defines "W \<equiv> filter (waiting ths) q"
  shows "\<exists>fs' ths'. futex_wake phys n fs ths = Inr (fs', ths') \<and> woken (set (if n = 0 then W else take n W)) ths ths' \<and>
     (case fs' phys of None \<Rightarrow> [] | Some q' \<Rightarrow> filter (waiting ths') q') = (if n = 0 then [] else drop n W) \<and>
     fs' phys \<noteq> Some [] \<and> fs'(phys := None) = fs(phys := None)"
proof (cases "n = 0")
  case True
  obtain ths' where "wq_clear 0 q ths = Inr ([], ths')" "woken (set W) ths ths'" using wq_clear_loop_ok [OF assms(1), of "Suc (length q)" 0] by (auto simp: wq_clear_def W_def)
  then show ?thesis using True assms(2) by (simp add: futex_wake_def)
next
  case False
  obtain q' ths' where "futex_wake_loop n q ths = Inr (q', ths')" "woken (set (take n W)) ths ths'" "filter (waiting ths') q' = drop n W"
    using futex_wake_loop_ok [OF assms(1), of n] by (auto simp: W_def)
  then show ?thesis using False assms(2) by (auto simp: futex_wake_def)
qed

text \<open>A thread with two references to it, in a given state.\<close>

definition plain_thread :: "u8 \<Rightarrow> thread" where
  "plain_thread st = \<lparr>th_object = \<lparr>k_handle_count = 2, k_type = Thread_object, k_obj_id = 0\<rparr>,
     th_tcb = \<lparr>t_rsp = 0, t_rsp0 = 0, t_rsp3 = 0, t_rflags3 = 0, t_priority = 0, t_time_left = 0, t_last_ran = 0, t_kernel_stack = 0, t_cpu = None\<rparr>,
     th_parent = 0, th_creator = None, th_state = st, th_mxcsr = 0, th_wake_value = 0, th_wake_timeout = 0\<rparr>"

theorem futex_wake_longest_waiting_witness:
  "\<exists>fs' ths'. futex_wake 4096 1 [4096 \<mapsto> [1, 2, 3]] [1 \<mapsto> plain_thread 1, 2 \<mapsto> plain_thread 0, 3 \<mapsto> plain_thread 0] = Inr (fs', ths') \<and>
     woken {2} [1 \<mapsto> plain_thread 1, 2 \<mapsto> plain_thread 0, 3 \<mapsto> plain_thread 0] ths' \<and>
     (case fs' 4096 of None \<Rightarrow> [] | Some q' \<Rightarrow> filter (waiting ths') q') = [3]"
proof -
  let ?ths = "[1 \<mapsto> plain_thread 1, 2 \<mapsto> plain_thread 0, 3 \<mapsto> plain_thread 0]"
  have "queue_ok ?ths [1, 2, 3]" by (simp add: queue_ok_def plain_thread_def)
  moreover have "filter (waiting ?ths) [1, 2, 3] = [2, 3]"
    by (simp add: waiting_def plain_thread_def th_exited_def th_ready_def has_state_def st_exited_def st_ready_def)
  ultimately show ?thesis using futex_wake_longest_waiting [of ?ths "[1, 2, 3]" "[4096 \<mapsto> [1, 2, 3]]" 4096 1] by auto
qed

text \<open>C21. A signal can be missed: when an event is signalled after a thread found no signals and before it joins the queue, the
  thread blocks although the signals it waits for are pending, and it is not woken until the event is signalled once more.\<close>

theorem event_lost_wakeup:
  assumes "ths t = Some th" "\<not> th_exited th" "event_read e = (0, e1)" "ev_queue e = []" "s \<noteq> 0"
  shows "\<exists>e2 e3 ths3. event_signal s e1 ths = Inr (e2, ths) \<and>
     bindE (event_enqueue t e2 ths) (\<lambda>(e, ths). bindE (block_thread t ths) (\<lambda>ths. Inr (e, ths))) = Inr (e3, ths3) \<and>
     ev_queue e3 = [t] \<and> waiting ths3 t \<and> ev_signals e3 = s"
proof -
  have e1: "e1 = e\<lparr>ev_signals := 0\<rparr>" using assms(3) by (simp add: event_read_def)
  let ?e2 = "e1\<lparr>ev_signals := s\<rparr>" and ?th = "th_block (th\<lparr>th_object := handle_retain (th_object th)\<rparr>)"
  have sig: "event_signal s e1 ths = Inr (?e2, ths)"
    using assms(4,5) by (simp add: event_signal_def wake_observer_def wq_pop_next_def e1)
  have block: "bindE (event_enqueue t ?e2 ths) (\<lambda>(e, ths). bindE (block_thread t ths) (\<lambda>ths. Inr (e, ths))) = Inr (?e2\<lparr>ev_queue := [t]\<rparr>, ths(t \<mapsto> ?th))"
    using assms(1,4) by (simp add: event_enqueue_def wq_add_thread_def th_retain_def block_thread_def thread_at_def e1)
  have "th_exited ?th = th_exited th" "\<not> th_ready ?th"
    by (simp_all add: th_block_def clear_state_def th_exited_def th_ready_def has_state_def st_exited_def st_ready_def and.assoc)
  then have "waiting (ths(t \<mapsto> ?th)) t" using assms(2) by (simp add: waiting_def)
  then show ?thesis using sig block by auto
qed

theorem event_lost_wakeup_witness:
  "\<exists>e2 e3 ths3. event_signal 4 event_new [1 \<mapsto> plain_thread 1] = Inr (e2, [1 \<mapsto> plain_thread 1]) \<and>
     bindE (event_enqueue 1 e2 [1 \<mapsto> plain_thread 1]) (\<lambda>(e, ths). bindE (block_thread 1 ths) (\<lambda>ths. Inr (e, ths))) = Inr (e3, ths3) \<and>
     ev_queue e3 = [1] \<and> waiting ths3 1 \<and> ev_signals e3 = 4"
  by (rule event_lost_wakeup [where e = event_new and th = "plain_thread 1"])
    (simp_all add: event_new_def event_read_def plain_thread_def th_exited_def has_state_def st_exited_def)

end
