(* ===== verification/Mailbox.thy ===== *)
theory Mailbox
  imports Wait_Queue
begin

text \<open>
  Mailboxes, \<open>src/src/kernel/objects/mailbox.cpp\<close> and \<open>mailbox.h\<close>, and the parts of the system calls
  \<open>mailbox_call\<close> and \<open>mailbox_respond\<close> (\<open>syscalls/mailbox.cpp\<close>) that follow the protocol of calls and
  replies; theory \<open>Ipc_Message\<close> has the messages themselves, which are of any type here. A call that blocks
  is split at the points where other threads run: a \<open>mailbox_respond\<close> is a reply, where it has a tag, and then a receive. The table of replies that are due is an association list, in
  the order of the table.
\<close>

section \<open>State\<close>

definition j6_status_ok :: u64 where "j6_status_ok = 0"

record mailbox =
  mb_callers :: "nat list"
  mb_responders :: "nat list"
  mb_reply_map :: "(u64 \<times> nat) list"
  mb_closed :: bool
  mb_next_reply_tag :: u64

text \<open>The threads, the message each of them carries, and the mailbox.\<close>

record 'm mb_world =
  w_threads :: threads
  w_message :: "nat \<Rightarrow> 'm option"
  w_mailbox :: mailbox

definition mailbox_new :: mailbox where
  "mailbox_new = \<lparr>mb_callers = [], mb_responders = [], mb_reply_map = [], mb_closed = False, mb_next_reply_tag = 0\<rparr>"

section \<open>Operations\<close>

text \<open>\<open>call\<close> for the current thread \<open>t\<close>, in its three parts.\<close>

definition mb_call_enter :: "nat \<Rightarrow> 'm mb_world \<Rightarrow> 'm mb_world res" where
  "mb_call_enter t w =
     bindE (wq_add_thread t (mb_callers (w_mailbox w)) (w_threads w)) (\<lambda>(q, ths).
     Inr (w\<lparr>w_threads := ths, w_mailbox := (w_mailbox w)\<lparr>mb_callers := q\<rparr>\<rparr>))"

definition mb_call_notify :: "'m mb_world \<Rightarrow> 'm mb_world res" where
  "mb_call_notify w =
     bindE (wq_pop_next (mb_responders (w_mailbox w)) (w_threads w)) (\<lambda>(responder, q, ths).
     let w = w\<lparr>w_mailbox := (w_mailbox w)\<lparr>mb_responders := q\<rparr>\<rparr>
     in case responder of
          None \<Rightarrow> Inr (w\<lparr>w_threads := ths\<rparr>)
        | Some r \<Rightarrow> bindE (wake_thread j6_status_ok r ths) (\<lambda>ths. Inr (w\<lparr>w_threads := ths\<rparr>)))"

definition mb_block :: "nat \<Rightarrow> 'm mb_world \<Rightarrow> 'm mb_world res" where
  "mb_block t w = bindE (block_thread t (w_threads w)) (\<lambda>ths. Inr (w\<lparr>w_threads := ths\<rparr>))"


datatype 'm mb_received = Message u64 'm | No_message | Asleep

text \<open>One pass of the loop of \<open>receive\<close>. The thread that waits for a caller blocks, and goes through the loop again when it is woken.\<close>

definition mb_receive_pass :: "nat \<Rightarrow> bool \<Rightarrow> 'm mb_world \<Rightarrow> ('m mb_received \<times> 'm mb_world) res" where
  "mb_receive_pass r block w =
     bindE (wq_pop_next (mb_callers (w_mailbox w)) (w_threads w)) (\<lambda>(caller, q, ths).
     let w = w\<lparr>w_threads := ths, w_mailbox := (w_mailbox w)\<lparr>mb_callers := q\<rparr>\<rparr>
     in case caller of
          Some c \<Rightarrow>
            let mb = w_mailbox w;
                tag = mb_next_reply_tag mb + 1;
                mb = mb\<lparr>mb_next_reply_tag := tag, mb_reply_map := mb_reply_map mb @ [(tag, c)]\<rparr>
            in (case w_message w c of None \<Rightarrow> Inl Null_deref
                | Some m \<Rightarrow> Inr (Message tag m, w\<lparr>w_mailbox := mb, w_message := (w_message w)(c := None)\<rparr>))
        | None \<Rightarrow>
            if \<not> block then Inr (No_message, w)
            else bindE (wq_add_thread r (mb_responders (w_mailbox w)) (w_threads w)) (\<lambda>(q, ths).
                 bindE (mb_block r (w\<lparr>w_threads := ths, w_mailbox := (w_mailbox w)\<lparr>mb_responders := q\<rparr>\<rparr>)) (\<lambda>w. Inr (Asleep, w))))"




section \<open>Threads that use a mailbox\<close>

text \<open>Where a thread is: in user mode, in \<open>mailbox_call\<close> after it blocked, or in \<open>mailbox_respond\<close> after it blocked.\<close>

datatype mb_pc = User | In_call | In_receive

record 'm mb_state =
  st_world :: "'m mb_world"
  st_pc :: "nat \<Rightarrow> mb_pc"








section \<open>What a mailbox promises\<close>







section \<open>Single steps on threads\<close>

definition refs :: "thread \<Rightarrow> nat" where
  "refs th = unat (k_handle_count (th_object th))"

definition hold_ref :: "thread \<Rightarrow> thread" where
  "hold_ref th = th\<lparr>th_object := handle_retain (th_object th)\<rparr>"

definition drop_ref :: "thread \<Rightarrow> thread" where
  "drop_ref th = th\<lparr>th_object := (th_object th)\<lparr>k_handle_count := k_handle_count (th_object th) - 1\<rparr>\<rparr>"

lemma ref_simps [simp]:
  "th_ready (hold_ref th) = th_ready th" "th_exited (hold_ref th) = th_exited th" "th_wake_value (hold_ref th) = th_wake_value th"
  "th_ready (drop_ref th) = th_ready th" "th_exited (drop_ref th) = th_exited th" "th_wake_value (drop_ref th) = th_wake_value th"
  by (simp_all add: hold_ref_def drop_ref_def th_ready_def th_exited_def has_state_def)

lemma refs_hold [simp]: "refs th < 65535 \<Longrightarrow> refs (hold_ref th) = Suc (refs th)"
  by (simp add: refs_def hold_ref_def handle_retain_def unat_add_no_wrap [where b = 1, simplified])

lemma refs_drop [simp]: "0 < refs th \<Longrightarrow> refs (drop_ref th) = refs th - 1"
  unfolding refs_def drop_ref_def by (simp add: unat_sub_no_wrap [where b = 1, simplified])

lemma set_ready_simps [simp]:
  "th_ready (set_state st_ready th)" "th_exited (set_state st_ready th) = th_exited th"
  by (simp_all add: th_exited_def th_ready_def has_state_def set_state_def st_ready_def st_exited_def bit.conj_disj_distrib2)

lemma wake_simps [simp]:
  "th_ready (th_wake v th)" "th_exited (th_wake v th) = th_exited th" "refs (th_wake v th) = refs th"
  "\<not> th_ready th \<Longrightarrow> th_wake_value (th_wake v th) = v"
  by (simp_all add: th_wake_def th_wake_only_def th_ready_def [symmetric])
    (simp_all add: refs_def set_state_def th_exited_def has_state_def)

lemma block_simps [simp]:
  "\<not> th_ready (th_block th)" "th_exited (th_block th) = th_exited th" "refs (th_block th) = refs th" "th_wake_value (th_block th) = th_wake_value th"
  by (simp_all add: th_block_def clear_state_def th_exited_def th_ready_def has_state_def st_exited_def st_ready_def and.assoc refs_def)


lemma block_thread_some: "ths t = Some th \<Longrightarrow> block_thread t ths = Inr (ths(t \<mapsto> th_block th))"
  by (simp add: block_thread_def thread_at_def)

lemma wq_add_some: "ths t = Some th \<Longrightarrow> wq_add_thread t q ths = Inr (q @ [t], ths(t \<mapsto> hold_ref th))"
  by (simp add: wq_add_thread_def th_retain_def hold_ref_def)

lemma wq_pop_Nil [simp]: "wq_pop_next [] ths = Inr (None, [], ths)"
  by (simp add: wq_pop_next_def)




section \<open>The relation between a mailbox and what it promises\<close>










section \<open>Each step follows what is promised\<close>

























section \<open>Runs\<close>




definition mb_start :: "threads \<Rightarrow> 'm mb_state" where
  "mb_start ths = \<lparr>st_world = \<lparr>w_threads = ths, w_message = \<lambda>_. None, w_mailbox = mailbox_new\<rparr>, st_pc = \<lambda>_. User\<rparr>"





lemma plain_running: "th_ready (plain_thread 1)" "\<not> th_exited (plain_thread 1)" "refs (plain_thread 1) = 2"
  by (simp_all add: plain_thread_def th_ready_def th_exited_def has_state_def st_ready_def st_exited_def refs_def)


text \<open>C19. A call can be lost: when a receiver looks for callers after a caller joined the queue and before it blocked, it takes the caller, which is
  still able to run, off the queue as if it waited no more. The caller then blocks for ever: the mailbox is as it was before the call, so no
  reply, no receiver and no closing of the mailbox wakes it.\<close>

theorem mailbox_call_lost:
  assumes "w_threads w t = Some th" "th_ready th" "\<not> th_exited th" "1 \<le> refs th" "refs th < 60000"
    "mb_callers (w_mailbox w) = []" "mb_responders (w_mailbox w) = []"
  shows "\<exists>w1 w2 w3. mb_call_enter t w = Inr w1 \<and> mb_receive_pass r False w1 = Inr (No_message, w2) \<and> bindE (mb_call_notify w2) (mb_block t) = Inr w3 \<and>
     waiting (w_threads w3) t \<and> w_mailbox w3 = w_mailbox w"
proof -
  let ?h = "hold_ref th"
  let ?w1 = "w\<lparr>w_threads := (w_threads w)(t \<mapsto> ?h), w_mailbox := (w_mailbox w)\<lparr>mb_callers := [t]\<rparr>\<rparr>"
  let ?w2 = "w\<lparr>w_threads := (w_threads w)(t \<mapsto> drop_ref ?h)\<rparr>"
  let ?w3 = "w\<lparr>w_threads := (w_threads w)(t \<mapsto> th_block (drop_ref ?h))\<rparr>"
  have enter: "mb_call_enter t w = Inr ?w1" using assms by (simp add: mb_call_enter_def wq_add_some)
  have "refs (drop_ref ?h) \<noteq> 0" using assms(4,5) by simp
  then have "k_handle_count (th_object ?h) - 1 \<noteq> 0" by (auto simp: refs_def drop_ref_def)
  then have "th_release t ((w_threads w)(t \<mapsto> ?h)) = Inr ((w_threads w)(t \<mapsto> drop_ref ?h))"
    by (simp add: th_release_def handle_release_def Let_def drop_ref_def)
  then have "wq_pop_next [t] ((w_threads w)(t \<mapsto> ?h)) = Inr (None, [], (w_threads w)(t \<mapsto> drop_ref ?h))"
    using assms(2) by (simp add: wq_pop_next_def thread_at_def)
  then have pass: "mb_receive_pass r False ?w1 = Inr (No_message, ?w2)" using assms(6) by (simp add: mb_receive_pass_def)
  have "bindE (mb_call_notify ?w2) (mb_block t) = Inr ?w3" using assms(7) by (simp add: mb_call_notify_def mb_block_def block_thread_some)
  moreover have "waiting (w_threads ?w3) t" using assms(3) by (simp add: waiting_def)
  ultimately show ?thesis using enter pass by auto
qed

theorem mailbox_call_lost_witness:
  "\<exists>w1 w2 w3. mb_call_enter 1 (st_world (mb_start [1 \<mapsto> plain_thread 1] :: nat mb_state)) = Inr w1 \<and> mb_receive_pass 2 False w1 = Inr (No_message, w2) \<and>
     bindE (mb_call_notify w2) (mb_block 1) = Inr w3 \<and> waiting (w_threads w3) 1 \<and> w_mailbox w3 = w_mailbox (st_world (mb_start [1 \<mapsto> plain_thread 1] :: nat mb_state))"
  by (rule mailbox_call_lost [where th = "plain_thread 1"]) (simp_all add: mb_start_def mailbox_new_def plain_running)

end
