(* ===== verification/Spec2Isabelle.thy ===== *)
theory Spec2Isabelle
  imports Frame_Allocator Spinlock Linked_List Util_Basics Ring_Buffer J6_Channel Vector Deque Hash_Map Node_Map
    Ipc_Message Scheduler Heap_Allocator Capabilities Mailbox Vm_Space
begin

text \<open>
  A verification development for the jsix operating system.
\<close>

end
